(* ===== verification/Gateway_Prelude.thy ===== *)
theory Gateway_Prelude
  imports Main "HOL-Library.Word" "HOL-Library.Monad_Syntax"
begin

text \<open>
  Shared vocabulary of the development: the fixed-width integer types of the C and C++
  sources, byte packing, bounds-checked access to buffers, and counted loops.

  Code that touches memory through a pointer or an index is modelled in the \<open>option\<close>
  monad. \<open>Some r\<close> means that the code returns \<open>r\<close> having made only accesses inside its
  buffers; \<open>None\<close> means that it has no defined result, because it reads or writes out of
  bounds or because it never returns. A theorem that concludes \<open>= Some \<dots>\<close> therefore shows
  memory safety and termination along with the value.
\<close>

unbundle bit_operations_syntax

section \<open>Machine integers\<close>

type_synonym u8 = "8 word"
type_synonym u16 = "16 word"
type_synonym u32 = "32 word"
type_synonym u64 = "64 word"

text \<open>\<open>gw_word\<close>: comparisons the code widens to 32 bits, as comparisons of numbers.\<close>

named_theorems gw_word

section \<open>Big-endian pairs of bytes\<close>

text \<open>
  \<open>be16 a b\<close> is \<open>static_cast<std::uint16_t>((a << 8) | b)\<close>; \<open>hi8\<close> and \<open>lo8\<close> are
  \<open>static_cast<std::uint8_t>(v >> 8)\<close> and \<open>static_cast<std::uint8_t>(v & 0xFF)\<close>.
\<close>

definition be16 :: "u8 \<Rightarrow> u8 \<Rightarrow> u16" where
  "be16 a b = push_bit 8 (ucast a) OR ucast b"

definition hi8 :: "u16 \<Rightarrow> u8" where
  "hi8 v = ucast (drop_bit 8 v)"

definition lo8 :: "u16 \<Rightarrow> u8" where
  "lo8 v = ucast (v AND 0xFF)"

lemma bit_mask8: "bit (0xFF :: u16) n \<longleftrightarrow> n < 8"
proof -
  have "(0xFF :: u16) = mask 8"
    by (simp add: mask_eq_exp_minus_1)
  then show ?thesis
    by (simp only: bit_mask_iff) auto
qed

lemma bit_u8D: "bit (b :: u8) n \<Longrightarrow> n < 8"
  using bit_imp_le_length [of b n] by simp

lemma bit_be16 [bit_simps]:
  "bit (be16 a b) n \<longleftrightarrow> n < 16 \<and> (if n < 8 then bit b n else bit a (n - 8))"
  using bit_imp_le_length [of b n] bit_imp_le_length [of a "n - 8"]
  by (cases "n < 8") (simp_all add: be16_def bit_simps, auto)

lemma bit_hi8 [bit_simps]: "bit (hi8 v) n \<longleftrightarrow> n < 8 \<and> bit v (n + 8)"
  by (auto simp: hi8_def bit_simps add.commute)

lemma bit_lo8 [bit_simps]: "bit (lo8 v) n \<longleftrightarrow> n < 8 \<and> bit v n"
  using bit_mask8 [of n] by (auto simp: lo8_def bit_simps)

lemma hi8_be16 [simp]: "hi8 (be16 a b) = a"
  by (rule bit_word_eqI) (auto simp: bit_simps)

lemma lo8_be16 [simp]: "lo8 (be16 a b) = b"
  by (rule bit_word_eqI) (auto simp: bit_simps)

lemma be16_hi8_lo8 [simp]: "be16 (hi8 v) (lo8 v) = v"
  by (rule bit_word_eqI) (auto simp: bit_simps)

lemma lo8_ucast [simp]: "lo8 (ucast b) = b"
  by (rule bit_word_eqI) (auto simp: bit_simps)

lemma unat_u8_bound: "unat (b :: u8) < 256"
  using unsigned_less [of b] by simp

lemma unat_u16_bound: "unat (v :: u16) < 65536"
  using unsigned_less [of v] by simp

lemma unat_be16: "unat (be16 a b) = 256 * unat a + unat b"
proof -
  have disj: "push_bit 8 (ucast a :: u16) AND ucast b = 0"
    by (intro bit_word_eqI) (auto simp: bit_simps dest: bit_imp_le_length)
  have "be16 a b = push_bit 8 (ucast a) + ucast b"
    unfolding be16_def by (rule disjunctive_add_eq_or [OF disj, symmetric])
  moreover have "unat (push_bit 8 (ucast a :: u16)) = 256 * unat a"
    using unat_u8_bound [of a]
    by (simp add: push_bit_eq_mult unat_word_ariths unsigned_ucast_eq take_bit_nat_eq_self mult.commute)
  moreover have "unat (ucast b :: u16) = unat b"
    using unat_u8_bound [of b] by (simp add: unsigned_ucast_eq take_bit_nat_eq_self)
  moreover have "256 * unat a + unat b < 65536"
    using unat_u8_bound [of a] unat_u8_bound [of b] by simp
  ultimately show ?thesis
    by (simp add: unat_word_ariths)
qed

lemma unat_of_nat_u16: "n < 65536 \<Longrightarrow> unat (of_nat n :: u16) = n"
  by (simp add: unat_of_nat)

lemma unat_of_nat_u8: "n < 256 \<Longrightarrow> unat (of_nat n :: u8) = n"
  by (simp add: unat_of_nat)

lemma u16_eq_iff: "v = w \<longleftrightarrow> unat v = unat w" for v w :: u16
  by (metis unsigned_word_eqI)

lemma u32_eq_iff: "v = w \<longleftrightarrow> unat v = unat w" for v w :: u32
  by (metis unsigned_word_eqI)

lemma ucast_u8_of_u16: "(ucast (v :: u16) :: u8) = of_nat (unat v)"
  by (simp add: unsigned_of_nat)

lemma unat_sub_small: "unat k \<le> unat n \<Longrightarrow> unat (n - k) = unat n - unat k" for n k :: u16
  by (simp add: unat_sub word_le_nat_alt)

text \<open>Comparisons the C code widens to 32 bits do not wrap.\<close>

lemma unat_ucast_u32 [simp]: "unat (ucast (v :: u16) :: u32) = unat v"
  using unat_u16_bound [of v] by (simp add: unsigned_ucast_eq take_bit_nat_eq_self)

lemma unat_ucast_u8_u32 [simp]: "unat (ucast (b :: u8) :: u32) = unat b"
  using unat_u8_bound [of b] by (simp add: unsigned_ucast_eq take_bit_nat_eq_self)

lemma u32_sum_gt [gw_word]:
  "(ucast (h :: u16) :: u32) < ucast (a :: u16) + ucast (b :: u16) \<longleftrightarrow> unat h < unat a + unat b"
  using unat_u16_bound [of a] unat_u16_bound [of b]
  by (simp add: word_less_nat_alt unat_word_ariths)

lemma u32_le [gw_word]: "(ucast (h :: u16) :: u32) \<le> ucast (a :: u16) \<longleftrightarrow> unat h \<le> unat a"
  by (simp add: word_le_nat_alt)

lemma u32_double_eq [gw_word]:
  "(ucast (b :: u8) :: u32) = ucast (q :: u16) * 2 \<longleftrightarrow> unat b = 2 * unat q"
proof -
  have "unat (ucast q * 2 :: u32) = 2 * unat q"
    using unat_u16_bound [of q] by (simp add: unat_word_ariths)
  then show ?thesis
    by (simp only: u32_eq_iff unat_ucast_u8_u32)
qed

lemma u32_add_9_eq [gw_word]:
  "(ucast (n :: u16) :: u32) = 9 + ucast (b :: u8) \<longleftrightarrow> unat n = 9 + unat b"
proof -
  have "unat (9 + ucast b :: u32) = 9 + unat b"
    using unat_u8_bound [of b] by (simp add: unat_word_ariths)
  then show ?thesis
    by (simp only: u32_eq_iff unat_ucast_u32)
qed

section \<open>Checked access to buffers\<close>

definition rd :: "'a list \<Rightarrow> nat \<Rightarrow> 'a option" where
  "rd xs i = (if i < length xs then Some (xs ! i) else None)"

definition wr :: "'a list \<Rightarrow> nat \<Rightarrow> 'a \<Rightarrow> 'a list option" where
  "wr xs i v = (if i < length xs then Some (xs[i := v]) else None)"

lemma rd_in [simp]: "i < length xs \<Longrightarrow> rd xs i = Some (xs ! i)"
  by (simp add: rd_def)

lemma rd_append_left [simp]: "i < length xs \<Longrightarrow> rd (xs @ ys) i = Some (xs ! i)"
  by (simp add: rd_def nth_append)

lemma wr_in [simp]: "i < length xs \<Longrightarrow> wr xs i v = Some (xs[i := v])"
  by (simp add: wr_def)

text \<open>\<open>rd_range xs a b\<close> copies the iterator range \<open>[xs + a, xs + b)\<close>.\<close>

definition rd_range :: "'a list \<Rightarrow> nat \<Rightarrow> nat \<Rightarrow> 'a list option" where
  "rd_range xs a b = (if a \<le> b \<and> b \<le> length xs then Some (take (b - a) (drop a xs)) else None)"

lemma rd_range_in [simp]:
  "a \<le> b \<Longrightarrow> b \<le> length xs \<Longrightarrow> rd_range xs a b = Some (take (b - a) (drop a xs))"
  by (simp add: rd_range_def)

section \<open>Counted loops\<close>

text \<open>\<open>for_upto i n body s\<close> is \<open>for (; i < n; i++) s = body(i, s)\<close>.\<close>

function for_upto :: "nat \<Rightarrow> nat \<Rightarrow> (nat \<Rightarrow> 's \<Rightarrow> 's option) \<Rightarrow> 's \<Rightarrow> 's option" where
  "for_upto i n body s =
     (if i < n then do { s' \<leftarrow> body i s; for_upto (Suc i) n body s' } else Some s)"
  by pat_completeness auto
termination
  by (relation "measure (\<lambda>(i, n, body, s). n - i)") auto

declare for_upto.simps [simp del]

lemma for_upto_done [simp]: "n \<le> i \<Longrightarrow> for_upto i n body s = Some s"
  by (simp add: for_upto.simps)

lemma for_upto_step: "i < n \<Longrightarrow>
  for_upto i n body s = do { s' \<leftarrow> body i s; for_upto (Suc i) n body s' }"
  by (subst for_upto.simps) simp

text \<open>A loop whose state after \<open>k\<close> iterations is \<open>f k\<close> ends in \<open>f n\<close>.\<close>

lemma for_upto_states:
  assumes "i \<le> n" and "\<And>k. i \<le> k \<Longrightarrow> k < n \<Longrightarrow> body k (f k) = Some (f (Suc k))"
  shows "for_upto i n body (f i) = Some (f n)"
  using assms
proof (induction "n - i" arbitrary: i)
  case 0
  then show ?case by simp
next
  case (Suc d)
  then have "i < n" by simp
  with Suc.prems(2) have "body i (f i) = Some (f (Suc i))" by simp
  moreover have "for_upto (Suc i) n body (f (Suc i)) = Some (f n)"
    using Suc.hyps(2) \<open>i < n\<close> by (intro Suc.hyps(1)) (auto intro: Suc.prems(2))
  ultimately show ?case
    using \<open>i < n\<close> by (simp add: for_upto_step)
qed

lemmas for_upto_from_0 = for_upto_states [where i = 0, OF le0, simplified]

end
