(* ===== verification/Modbus_Crc.thy ===== *)
theory Modbus_Crc
  imports Gateway_Prelude
begin

text \<open>
  \<open>rtu-core/modbus_crc.c\<close>: the CRC-16/MODBUS checksum of an RTU frame. \<open>mb_crc16\<close> is the
  C function over a buffer and a length; \<open>crc16\<close> is its value on a whole byte list. The
  lemmas show that the C function is memory safe, that it computes the bit-serial
  shift-register CRC, that its step functions are linear and injective, and from that what
  the checksum detects.
\<close>

section \<open>The C code\<close>

text \<open>One round of the inner loop over \<open>bit\<close>, the inner loop, and the body of the outer loop.\<close>

definition crc_bit :: "u16 \<Rightarrow> u16" where
  "crc_bit crc = (if crc AND 0x0001 \<noteq> 0 then drop_bit 1 crc XOR 0xA001 else drop_bit 1 crc)"

primrec crc_bits :: "nat \<Rightarrow> u16 \<Rightarrow> u16" where
  "crc_bits 0 crc = crc"
| "crc_bits (Suc n) crc = crc_bits n (crc_bit crc)"

definition crc_byte :: "u16 \<Rightarrow> u8 \<Rightarrow> u16" where
  "crc_byte crc b = crc_bits 8 (crc XOR ucast b)"

definition mb_crc16 :: "u8 list \<Rightarrow> u16 \<Rightarrow> u16 option" where
  "mb_crc16 buf len =
     for_upto 0 (unat len) (\<lambda>i crc. do { b \<leftarrow> rd buf i; Some (crc_byte crc b) }) 0xFFFF"

section \<open>The checksum of a byte list\<close>

definition crc16 :: "u8 list \<Rightarrow> u16" where
  "crc16 xs = foldl crc_byte 0xFFFF xs"

lemma crc16_Nil [simp]: "crc16 [] = 0xFFFF"
  by (simp add: crc16_def)

lemma crc16_snoc [simp]: "crc16 (xs @ [b]) = crc_byte (crc16 xs) b"
  by (simp add: crc16_def)

lemma crc16_append: "crc16 (xs @ ys) = foldl crc_byte (crc16 xs) ys"
  by (simp add: crc16_def)

lemma mb_crc16_safe:
  assumes "unat len \<le> length buf"
  shows "mb_crc16 buf len = Some (crc16 (take (unat len) buf))"
proof -
  have "for_upto 0 (unat len) (\<lambda>i crc. do { b \<leftarrow> rd buf i; Some (crc_byte crc b) })
          (crc16 (take 0 buf)) = Some (crc16 (take (unat len) buf))"
    using assms by (intro for_upto_from_0) (simp add: take_Suc_conv_app_nth)
  then show ?thesis
    by (simp add: mb_crc16_def)
qed

section \<open>Linearity\<close>

lemma bit_poly: "bit (0xA001 :: u16) n \<longleftrightarrow> n = 0 \<or> n = 13 \<or> n = 15"
proof -
  have "(0xA001 :: u16) = push_bit 15 1 OR (push_bit 13 1 OR push_bit 0 1)"
    by simp
  then have "bit (0xA001 :: u16) n = bit (push_bit 15 1 OR (push_bit 13 1 OR push_bit 0 (1::u16))) n"
    by (simp only:)
  also have "\<dots> \<longleftrightarrow> n = 0 \<or> n = 13 \<or> n = 15"
    by (simp only: bit_or_iff bit_push_bit_iff bit_1_iff) auto
  finally show ?thesis .
qed

lemma crc_bit_alt:
  "crc_bit c = (if bit c 0 then drop_bit 1 c XOR 0xA001 else drop_bit 1 c)"
  by (auto simp: crc_bit_def and_one_eq bit_0 mod2_eq_if)

lemma bit_crc_bit:
  "bit (crc_bit c) n \<longleftrightarrow> (bit c (Suc n) \<noteq> (bit c 0 \<and> (n = 0 \<or> n = 13 \<or> n = 15)))"
  using bit_poly [of n]
  by (auto simp: crc_bit_alt bit_simps simp del: bit_numeral_iff)

lemma crc_bit_xor: "crc_bit (x XOR y) = crc_bit x XOR crc_bit y"
  by (rule bit_word_eqI) (auto simp: bit_crc_bit bit_xor_iff)

lemma crc_bits_xor: "crc_bits n (x XOR y) = crc_bits n x XOR crc_bits n y"
  by (induction n arbitrary: x y) (simp_all add: crc_bit_xor)

lemma crc_bit_even: "\<not> bit c 0 \<Longrightarrow> crc_bit c = drop_bit 1 c"
  by (simp add: crc_bit_alt)

lemma crc_bits_shift:
  "(\<And>k. k < n \<Longrightarrow> \<not> bit c k) \<Longrightarrow> crc_bits n c = drop_bit n c"
proof (induction n arbitrary: c)
  case 0
  then show ?case by simp
next
  case (Suc n)
  have "crc_bit c = drop_bit 1 c"
    using Suc.prems [of 0] by (simp add: crc_bit_even)
  moreover have "crc_bits n (drop_bit 1 c) = drop_bit n (drop_bit 1 c)"
    using Suc.prems by (intro Suc.IH) (simp add: bit_simps)
  ultimately show ?case
    by (simp add: drop_bit_drop_bit)
qed

lemma crc_bits_0 [simp]: "crc_bits n 0 = 0"
  by (simp add: crc_bits_shift)

section \<open>Injectivity\<close>

lemma crc_bit_eq_0: "crc_bit d = 0 \<longleftrightarrow> d = 0"
proof
  assume eq: "crc_bit d = 0"
  have bits: "bit d (Suc n) = (bit d 0 \<and> (n = 0 \<or> n = 13 \<or> n = 15))" for n
    using eq bit_crc_bit [of d n] by simp
  have "\<not> bit d 16"
    using bit_imp_le_length [of d 16] by auto
  then have "\<not> bit d 0"
    using bits [of 15] by simp
  then have "\<not> bit d n" for n
    using bits by (cases n) auto
  then show "d = 0"
    by (intro bit_word_eqI) simp
next
  assume "d = 0"
  then show "crc_bit d = 0" by (simp add: crc_bit_alt)
qed

lemma crc_bits_eq_0: "crc_bits n d = 0 \<longleftrightarrow> d = 0"
  by (induction n arbitrary: d) (simp_all add: crc_bit_eq_0)

lemma xor_eq_0_iff_word: "(x :: 'a::len word) XOR y = 0 \<longleftrightarrow> x = y"
  by (auto simp: bit_eq_iff bit_simps)

lemma crc_bits_inj: "crc_bits n x = crc_bits n y \<longleftrightarrow> x = y"
  by (metis crc_bits_xor crc_bits_eq_0 xor_eq_0_iff_word)

lemma ucast_u8_inj: "(ucast (a :: u8) :: u16) = ucast b \<longleftrightarrow> a = b"
  by (metis lo8_ucast)

lemma xor_left_cancel_word [simp]: "(x :: 'a::len word) XOR y = x XOR z \<longleftrightarrow> y = z"
  by (auto simp: bit_eq_iff bit_simps)

lemma xor_right_cancel_word [simp]: "(y :: 'a::len word) XOR x = z XOR x \<longleftrightarrow> y = z"
  by (auto simp: bit_eq_iff bit_simps)

lemma crc_byte_inj_state [simp]: "crc_byte c b = crc_byte c' b \<longleftrightarrow> c = c'"
  by (simp add: crc_byte_def crc_bits_inj)

lemma crc_byte_inj_byte [simp]: "crc_byte c a = crc_byte c b \<longleftrightarrow> a = b"
  by (simp add: crc_byte_def crc_bits_inj ucast_u8_inj)

lemma foldl_crc_byte_inj: "foldl crc_byte c xs = foldl crc_byte c' xs \<longleftrightarrow> c = c'"
  by (induction xs arbitrary: c c') simp_all

section \<open>Two bytes at once: the residue of a sealed frame\<close>

lemma crc_bits_add: "crc_bits (m + n) c = crc_bits n (crc_bits m c)"
  by (induction m arbitrary: c) simp_all

lemma crc_two_bytes: "crc_byte (crc_byte c a) b = crc_bits 16 (c XOR be16 b a)"
proof -
  have "c XOR be16 b a = (c XOR ucast a) XOR push_bit 8 (ucast b)"
    by (rule bit_word_eqI) (auto simp: bit_simps dest: bit_u8D)
  moreover have "crc_bits 8 (push_bit 8 (ucast b)) = ucast b"
    by (subst crc_bits_shift) (auto simp: bit_simps intro!: bit_word_eqI dest: bit_u8D)
  ultimately have "crc_bits 8 (c XOR be16 b a) = crc_bits 8 (c XOR ucast a) XOR ucast b"
    by (simp add: crc_bits_xor)
  then show ?thesis
    using crc_bits_add [of 8 8] by (simp add: crc_byte_def)
qed

lemma crc16_residue: "crc16 (xs @ [lo, hi]) = 0 \<longleftrightarrow> crc16 xs = be16 hi lo"
  by (simp add: crc16_append crc_two_bytes crc_bits_eq_0 xor_eq_0_iff_word)

section \<open>The bit-serial shift register\<close>

text \<open>
  The textbook circuit: bits enter one at a time, least significant bit of each byte first,
  into a register with feedback polynomial \<open>0xA001\<close>.
\<close>

definition lfsr :: "u16 \<Rightarrow> bool \<Rightarrow> u16" where
  "lfsr r b = (if bit r 0 \<noteq> b then drop_bit 1 r XOR 0xA001 else drop_bit 1 r)"

definition byte_bits :: "u8 \<Rightarrow> bool list" where
  "byte_bits b = map (bit b) [0..<8]"

definition bit_stream :: "u8 list \<Rightarrow> bool list" where
  "bit_stream xs = concat (map byte_bits xs)"

lemma lfsr_crc_bit: "lfsr r b = crc_bit (r XOR of_bool b)"
  by (cases b; cases "bit r 0") (auto simp: lfsr_def crc_bit_alt bit_simps drop_bit_xor)

lemma lfsr_absorb: "crc_bit (c XOR v) = lfsr c (bit v 0) XOR drop_bit 1 v"
  by (rule bit_word_eqI) (auto simp: lfsr_crc_bit bit_crc_bit bit_simps)

lemma crc_bits_lfsr:
  "(\<And>k. n \<le> k \<Longrightarrow> \<not> bit v k) \<Longrightarrow>
    crc_bits n (c XOR v) = foldl lfsr c (map (bit v) [0..<n])"
proof (induction n arbitrary: c v)
  case 0
  then have "v = 0" by (intro bit_word_eqI) simp
  then show ?case by simp
next
  case (Suc n)
  have "crc_bits n (lfsr c (bit v 0) XOR drop_bit 1 v)
      = foldl lfsr (lfsr c (bit v 0)) (map (bit (drop_bit 1 v)) [0..<n])"
    using Suc.prems by (intro Suc.IH) (simp add: bit_simps)
  moreover have "map (bit v) [0..<Suc n] = bit v 0 # map (bit (drop_bit 1 v)) [0..<n]"
    by (simp add: upt_conv_Cons map_Suc_upt [symmetric] bit_simps comp_def del: upt_Suc)
  ultimately show ?case
    by (simp add: lfsr_absorb del: upt_Suc)
qed

lemma crc_byte_lfsr: "crc_byte c b = foldl lfsr c (byte_bits b)"
proof -
  have "map (bit (ucast b :: u16)) [0..<8] = byte_bits b"
    by (auto simp: byte_bits_def bit_simps)
  moreover have "\<not> bit (ucast b :: u16) k" if "8 \<le> k" for k
    using that by (auto simp: bit_simps dest: bit_u8D)
  ultimately show ?thesis
    by (metis crc_bits_lfsr crc_byte_def)
qed

lemma foldl_crc_byte_lfsr: "foldl crc_byte c xs = foldl lfsr c (bit_stream xs)"
  by (induction xs arbitrary: c) (simp_all add: bit_stream_def crc_byte_lfsr)

section \<open>What the checksum detects\<close>

lemma foldl_lfsr_word:
  assumes "length bs \<le> 16"
  shows "foldl lfsr c bs = crc_bits (length bs) (c XOR horner_sum of_bool 2 bs)"
proof -
  let ?v = "horner_sum of_bool 2 bs :: u16"
  have "map (bit ?v) [0..<length bs] = bs"
    using assms by (intro nth_equalityI) (simp_all add: bit_horner_sum_bit_word_iff)
  moreover have "\<not> bit ?v k" if "length bs \<le> k" for k
    using that by (simp add: bit_horner_sum_bit_word_iff)
  ultimately show ?thesis
    by (metis crc_bits_lfsr)
qed

lemma foldl_lfsr_inj_state: "foldl lfsr c bs = foldl lfsr c' bs \<longleftrightarrow> c = c'"
proof (induction bs arbitrary: c c')
  case (Cons b bs)
  have "lfsr c b = lfsr c' b \<longleftrightarrow> c = c'"
    using crc_bits_inj [of 1] by (simp add: lfsr_crc_bit)
  with Cons show ?case by simp
qed simp

lemma foldl_lfsr_inj_bits:
  assumes "length vs = length vs'" and "length vs \<le> 16"
  shows "foldl lfsr c vs = foldl lfsr c vs' \<longleftrightarrow> vs = vs'"
proof
  assume "foldl lfsr c vs = foldl lfsr c vs'"
  then have eq: "horner_sum of_bool 2 vs = (horner_sum of_bool 2 vs' :: u16)"
    using assms by (simp add: foldl_lfsr_word crc_bits_inj)
  show "vs = vs'"
  proof (rule nth_equalityI)
    fix i assume "i < length vs"
    then show "vs ! i = vs' ! i"
      using assms arg_cong [OF eq, of "\<lambda>w. bit w i"]
      by (simp add: bit_horner_sum_bit_word_iff)
  qed (rule assms(1))
qed simp

lemma crc16_burst_iff:
  assumes "bit_stream xs = us @ vs @ ws" and "bit_stream ys = us @ vs' @ ws"
    and "length vs = length vs'" and "length vs \<le> 16"
  shows "crc16 xs = crc16 ys \<longleftrightarrow> vs = vs'"
  using assms
  by (simp add: crc16_def foldl_crc_byte_lfsr foldl_lfsr_inj_state foldl_lfsr_inj_bits)

lemma crc16_update_iff:
  assumes "i < length xs"
  shows "crc16 (xs[i := b]) = crc16 xs \<longleftrightarrow> b = xs ! i"
proof -
  have "crc16 (xs[i := b]) = foldl crc_byte (crc_byte (crc16 (take i xs)) b) (drop (Suc i) xs)"
    using assms by (simp add: upd_conv_take_nth_drop crc16_append)
  moreover have "crc16 xs = foldl crc_byte (crc_byte (crc16 (take i xs)) (xs ! i)) (drop (Suc i) xs)"
    using crc16_append [of "take i xs" "drop i xs"] Cons_nth_drop_Suc [OF assms]
    by (metis append_take_drop_id foldl_Cons)
  ultimately show ?thesis
    by (simp add: foldl_crc_byte_inj)
qed

section \<open>Properties\<close>

text \<open>C18: On any buffer that holds the given number of bytes, \<open>mb_crc16\<close> makes no access
  outside the buffer, returns, and computes the bit-serial CRC-16/MODBUS of these bytes: the
  shift register with polynomial \<open>0xA001\<close>, started at \<open>0xFFFF\<close>, fed with the bits of
  each byte from the least significant one.\<close>

theorem mb_crc16_bit_serial:
  assumes "unat len \<le> length buf"
  shows "mb_crc16 buf len = Some (foldl lfsr 0xFFFF (bit_stream (take (unat len) buf)))"
  using mb_crc16_safe [OF assms] by (simp add: crc16_def foldl_crc_byte_lfsr)

theorem mb_crc16_bit_serial_witness:
  "mb_crc16 [0x31, 0x32, 0x33, 0x34, 0x35, 0x36, 0x37, 0x38, 0x39] 9 = Some 0x4B37"
proof -
  let ?buf = "[0x31, 0x32, 0x33, 0x34, 0x35, 0x36, 0x37, 0x38, 0x39] :: u8 list"
  have "mb_crc16 ?buf 9 = Some (foldl lfsr 0xFFFF (bit_stream (take (unat (9 :: u16)) ?buf)))"
    by (rule mb_crc16_bit_serial) simp
  also have "foldl lfsr 0xFFFF (bit_stream (take (unat (9 :: u16)) ?buf)) = 0x4B37"
    by code_simp
  finally show ?thesis .
qed

text \<open>C35: The CRC detects every error burst of at most 16 bits: two frames of the same
  length whose bit streams differ inside a window of 16 consecutive bits, at any bit offset,
  and agree outside it, have different checksums.\<close>

theorem mb_crc16_detects_bursts:
  assumes "length xs = unat n" and "length ys = unat n"
    and "bit_stream xs = us @ vs @ ws" and "bit_stream ys = us @ vs' @ ws"
    and "length vs = length vs'" and "length vs \<le> 16" and "vs \<noteq> vs'"
  shows "mb_crc16 xs n \<noteq> mb_crc16 ys n"
  using assms crc16_burst_iff [OF assms(3-6)] by (simp add: mb_crc16_safe)

theorem mb_crc16_detects_bursts_witness:
  "mb_crc16 [0x11, 0x03, 0x00] 3 \<noteq> mb_crc16 [0x11, 0xFC, 0x01] 3"
proof (rule mb_crc16_detects_bursts)
  show "bit_stream [0x11, 0x03, 0x00] =
      byte_bits 0x11 @ bit_stream [0x03, 0x00] @ []"
    and "bit_stream [0x11, 0xFC, 0x01] = byte_bits 0x11 @ bit_stream [0xFC, 0x01] @ []"
    by (simp_all add: bit_stream_def)
  show "bit_stream [0x03, 0x00] \<noteq> bit_stream [0xFC, 0x01]"
    by code_simp
qed (simp_all add: bit_stream_def byte_bits_def)

text \<open>The two ways the program checks a frame agree. The gateway asks whether the CRC of
  the whole frame is zero (\<open>rtu_to_tcp\<close>); the slave compares the CRC of the frame without
  its trailer to the trailer, low byte first (\<open>mb_slave_handle\<close>). Each accepts a frame
  exactly when the other does.\<close>

theorem mb_crc16_checks_agree:
  assumes "length body + 2 = unat n"
  shows "mb_crc16 (body @ [lo, hi]) n = Some 0 \<longleftrightarrow>
    mb_crc16 (body @ [lo, hi]) (n - 2) = Some (be16 hi lo)"
proof -
  have "unat (n - 2) = length body"
    using assms unat_sub_small [of 2 n] by simp
  then show ?thesis
    using assms crc16_residue [of body lo hi] by (simp add: mb_crc16_safe)
qed

theorem mb_crc16_checks_agree_witness:
  "mb_crc16 ([0x01, 0x03, 0x02, 0x00, 0x01] @ [0x79, 0x84]) 7 = Some 0 \<longleftrightarrow>
    mb_crc16 ([0x01, 0x03, 0x02, 0x00, 0x01] @ [0x79, 0x84]) (7 - 2) = Some (be16 0x84 0x79)"
  by (rule mb_crc16_checks_agree) simp

end
