(* ===== verification/Mbap.thy ===== *)
theory Mbap
  imports Gateway_Prelude
begin

text \<open>
  \<open>src/mbap.hpp\<close> and \<open>src/mbap.cpp\<close>: the MBAP header codec of Modbus TCP and its stream
  decoder. \<open>decode\<close> and \<open>encode\<close> are the code, over a buffer with checked accesses.
  \<open>parse_adu\<close> is the abstract stream parser, written by pattern matching on the stream;
  the lemmas show that \<open>decode\<close> refines it without leaving its buffer, that decoding and
  encoding are inverse to each other, and that a verdict once reached does not depend on
  bytes that arrive later.
\<close>

section \<open>Data\<close>

definition MBAP_HEADER_LEN :: nat where
  "MBAP_HEADER_LEN = 7"

definition MAX_PDU :: nat where
  "MAX_PDU = 253"

definition MAX_TCP_ADU :: nat where
  "MAX_TCP_ADU = MBAP_HEADER_LEN + MAX_PDU"

definition EX_GATEWAY_PATH_UNAVAILABLE :: u8 where
  "EX_GATEWAY_PATH_UNAVAILABLE = 0x0A"

definition EX_GATEWAY_TARGET_NO_RESPONSE :: u8 where
  "EX_GATEWAY_TARGET_NO_RESPONSE = 0x0B"

lemmas mbap_consts = MBAP_HEADER_LEN_def MAX_PDU_def MAX_TCP_ADU_def
  EX_GATEWAY_PATH_UNAVAILABLE_def EX_GATEWAY_TARGET_NO_RESPONSE_def

record mbap_frame =
  transaction_id :: u16
  protocol_id :: u16
  unit_id :: u8
  pdu :: "u8 list"

datatype decode_error = NeedMoreData | BadProtocolId | LengthTooSmall | LengthTooLarge

record decode_result =
  frame :: "mbap_frame option"
  error :: decode_error
  consumed :: nat

section \<open>The codec\<close>

text \<open>
  \<open>decode(data, len)\<close>. The parameter \<open>len\<close> is separate from the extent of the buffer, as in
  the C++ signature: every access is checked against the buffer.
\<close>

definition decode :: "u8 list \<Rightarrow> nat \<Rightarrow> decode_result option" where
  "decode data len =
     (let r = \<lparr>frame = None, error = NeedMoreData, consumed = 0\<rparr> in
      if len < MBAP_HEADER_LEN then Some (r\<lparr>error := NeedMoreData\<rparr>)
      else do {
        d0 \<leftarrow> rd data 0; d1 \<leftarrow> rd data 1;
        d2 \<leftarrow> rd data 2; d3 \<leftarrow> rd data 3;
        d4 \<leftarrow> rd data 4; d5 \<leftarrow> rd data 5;
        let txn = be16 d0 d1;
        let proto = be16 d2 d3;
        let len_field = be16 d4 d5;
        if proto \<noteq> 0 then Some (r\<lparr>error := BadProtocolId\<rparr>)
        else if len_field < 2 then Some (r\<lparr>error := LengthTooSmall\<rparr>)
        else if unat len_field > 1 + MAX_PDU then Some (r\<lparr>error := LengthTooLarge\<rparr>)
        else do {
          let total = 6 + unat len_field;
          if len < total then Some (r\<lparr>error := NeedMoreData\<rparr>)
          else do {
            u \<leftarrow> rd data 6;
            body \<leftarrow> rd_range data MBAP_HEADER_LEN total;
            let f = \<lparr>transaction_id = txn, protocol_id = proto, unit_id = u, pdu = body\<rparr>;
            Some (r\<lparr>frame := Some f, consumed := total, error := NeedMoreData\<rparr>)
          }
        }
      })"

definition encode :: "mbap_frame \<Rightarrow> u8 list" where
  "encode f =
     (let len_field = of_nat (length (pdu f) + 1) :: u16 in
      [hi8 (transaction_id f), lo8 (transaction_id f),
       hi8 (protocol_id f), lo8 (protocol_id f),
       hi8 len_field, lo8 len_field, unit_id f] @ pdu f)"

definition make_exception :: "u16 \<Rightarrow> u8 \<Rightarrow> u8 \<Rightarrow> u8 \<Rightarrow> mbap_frame" where
  "make_exception txn uid function_code exception_code =
     \<lparr>transaction_id = txn, protocol_id = 0, unit_id = uid,
      pdu = [function_code OR 0x80, exception_code]\<rparr>"

fun to_string :: "decode_error \<Rightarrow> string" where
  "to_string NeedMoreData = ''need more data''"
| "to_string BadProtocolId = ''protocol id not zero''"
| "to_string LengthTooSmall = ''length below minimum''"
| "to_string LengthTooLarge = ''length above maximum''"

section \<open>The abstract stream parser\<close>

datatype parse_result = More | Bad decode_error | Got mbap_frame "u8 list"

fun parse_adu :: "u8 list \<Rightarrow> parse_result" where
  "parse_adu (t1 # t0 # p1 # p0 # l1 # l0 # u # rest) =
     (let n = unat (be16 l1 l0) in
      if be16 p1 p0 \<noteq> 0 then Bad BadProtocolId
      else if n < 2 then Bad LengthTooSmall
      else if 254 < n then Bad LengthTooLarge
      else if length rest < n - 1 then More
      else Got \<lparr>transaction_id = be16 t1 t0, protocol_id = 0, unit_id = u,
                pdu = take (n - 1) rest\<rparr> (drop (n - 1) rest))"
| "parse_adu _ = More"

fun parse_verdict :: "nat \<Rightarrow> parse_result \<Rightarrow> decode_result" where
  "parse_verdict n More = \<lparr>frame = None, error = NeedMoreData, consumed = 0\<rparr>"
| "parse_verdict n (Bad e) = \<lparr>frame = None, error = e, consumed = 0\<rparr>"
| "parse_verdict n (Got f rest) =
     \<lparr>frame = Some f, error = NeedMoreData, consumed = n - length rest\<rparr>"

definition wf_frame :: "mbap_frame \<Rightarrow> bool" where
  "wf_frame f \<longleftrightarrow> protocol_id f = 0 \<and> 1 \<le> length (pdu f) \<and> length (pdu f) \<le> MAX_PDU"

lemma parse_adu_short: "length xs < 7 \<Longrightarrow> parse_adu xs = More"
  by (cases xs rule: parse_adu.cases) auto

lemma list7_cases:
  assumes "7 \<le> length (xs :: u8 list)"
  obtains t1 t0 p1 p0 l1 l0 u rest where "xs = t1 # t0 # p1 # p0 # l1 # l0 # u # rest"
  using assms by (cases xs rule: parse_adu.cases) auto

lemma u16_less_2: "(w :: u16) < 2 \<longleftrightarrow> unat w < 2"
  by (simp add: word_less_nat_alt)

lemma decode_parse: "decode xs (length xs) = Some (parse_verdict (length xs) (parse_adu xs))"
proof (cases "length xs < 7")
  case True
  then show ?thesis
    by (simp add: decode_def mbap_consts parse_adu_short)
next
  case False
  then obtain t1 t0 p1 p0 l1 l0 u rest where
    xs: "xs = t1 # t0 # p1 # p0 # l1 # l0 # u # rest"
    by (meson list7_cases not_less)
  show ?thesis
    by (simp add: xs decode_def mbap_consts u16_less_2 Let_def numeral_eq_Suc) 
qed

lemma decode_take:
  assumes "len \<le> length data"
  shows "decode data len = decode (take len data) len"
proof (cases "len < 7")
  case False
  with assms have "rd (take len data) i = rd data i" if "i < 7" for i
    using that by simp
  moreover have "data \<noteq> []"
    using False assms by auto
  ultimately show ?thesis
    using False assms
    by (auto simp: decode_def mbap_consts Let_def rd_range_def take_drop not_less min_absorb2)
qed (simp add: decode_def mbap_consts)

text \<open>The decoder stays inside its buffer and computes the abstract parser's verdict.\<close>

lemma decode_eq:
  assumes "len \<le> length data"
  shows "decode data len = Some (parse_verdict len (parse_adu (take len data)))"
  using decode_take [OF assms] decode_parse [of "take len data"] assms by (simp add: min_absorb2)

section \<open>Encoding and parsing are inverse\<close>

lemma length_encode [simp]: "length (encode f) = 7 + length (pdu f)"
  by (simp add: encode_def Let_def)

lemma parse_encode:
  assumes "wf_frame f"
  shows "parse_adu (encode f @ rest) = Got f rest"
proof -
  have "length (pdu f) < 65535" using assms by (simp add: wf_frame_def mbap_consts)
  then have "unat (1 + word_of_nat (length (pdu f)) :: u16) = 1 + length (pdu f)"
    using unat_of_nat_u16 [of "1 + length (pdu f)"] by simp
  then show ?thesis
    using assms by (auto simp: encode_def wf_frame_def mbap_consts Let_def)
qed

lemma parse_GotD:
  assumes "parse_adu xs = Got f rest"
  shows "wf_frame f \<and> xs = encode f @ rest"
proof (cases "length xs < 7")
  case True
  then show ?thesis using assms by (simp add: parse_adu_short)
next
  case False
  then obtain t1 t0 p1 p0 l1 l0 u tl where
    xs: "xs = t1 # t0 # p1 # p0 # l1 # l0 # u # tl"
    by (meson list7_cases not_less)
  define n where "n = unat (be16 l1 l0)"
  have proto: "be16 p1 p0 = 0" and n: "2 \<le> n" "n \<le> 254" "n - 1 \<le> length tl"
    and f: "f = \<lparr>transaction_id = be16 t1 t0, protocol_id = 0, unit_id = u, pdu = take (n - 1) tl\<rparr>"
    and rest: "rest = drop (n - 1) tl"
    using assms by (auto simp: xs Let_def n_def split: if_splits)
  have "word_of_nat (Suc (n - Suc 0)) = be16 l1 l0"
    using n by (simp add: n_def)
  moreover have "p1 = 0" "p0 = 0"
    using proto hi8_be16 [of p1 p0] lo8_be16 [of p1 p0] by (simp_all add: hi8_def lo8_def)
  moreover have "1 \<le> n - 1" "n - 1 \<le> 253"
    using n by auto
  ultimately show ?thesis
    using n by (simp add: xs f rest wf_frame_def mbap_consts encode_def Let_def min_absorb2)
      (simp add: hi8_def lo8_def)
qed

lemma parse_Got_iff: "parse_adu xs = Got f rest \<longleftrightarrow> wf_frame f \<and> xs = encode f @ rest"
  using parse_encode parse_GotD by blast

section \<open>Verdicts are stable and the wait for more data is bounded\<close>

lemma parse_Bad_append: "parse_adu xs = Bad e \<Longrightarrow> parse_adu (xs @ ys) = Bad e"
  by (cases xs rule: parse_adu.cases) (auto simp: Let_def split: if_splits)

lemma parse_Got_append: "parse_adu xs = Got f rest \<Longrightarrow> parse_adu (xs @ ys) = Got f (rest @ ys)"
  by (simp add: parse_Got_iff)

lemma parse_Bad_error: "parse_adu xs = Bad e \<Longrightarrow> e \<noteq> NeedMoreData"
  by (cases xs rule: parse_adu.cases) (auto simp: Let_def split: if_splits)

lemma parse_More_bound: "parse_adu xs = More \<Longrightarrow> length xs < MAX_TCP_ADU"
  by (cases xs rule: parse_adu.cases)
    (auto simp: Let_def mbap_consts split: if_splits)

lemma parse_Got_length: "parse_adu xs = Got f rest \<Longrightarrow> length rest < length xs"
  by (simp add: parse_Got_iff)

lemma decode_frame_consumed:
  assumes "decode xs (length xs) = Some r" and "frame r = Some f"
  shows "\<exists>rest. parse_adu xs = Got f rest \<and> consumed r = length xs - length rest \<and>
    length rest < length xs"
  using assms decode_parse [of xs] parse_Got_length [of xs f]
  by (cases "parse_adu xs") auto

lemma wf_make_exception [simp]: "wf_frame (make_exception t u fc ec)"
  by (simp add: wf_frame_def make_exception_def mbap_consts)

section \<open>Properties\<close>

text \<open>C17: \<open>decode\<close> refines the abstract parser. On a buffer that holds \<open>len\<close> bytes it makes
  no access outside the buffer, always returns, and its verdict (no frame yet, one of the three
  header errors, or a frame with the number of bytes it used) is the parser's verdict on the
  first \<open>len\<close> bytes.\<close>

theorem decode_refines_parser:
  assumes "len \<le> length data"
  shows "decode data len = Some (parse_verdict len (parse_adu (take len data)))"
  using assms by (rule decode_eq)

theorem decode_refines_parser_witness:
  "decode [0, 1, 0, 0, 0, 6, 17, 3, 0, 0, 0, 1, 99] 13 =
     Some \<lparr>frame = Some \<lparr>transaction_id = 1, protocol_id = 0, unit_id = 17, pdu = [3, 0, 0, 0, 1]\<rparr>,
       error = NeedMoreData, consumed = 12\<rparr>"
proof -
  let ?data = "[0, 1, 0, 0, 0, 6, 17, 3, 0, 0, 0, 1, 99] :: u8 list"
  have "decode ?data 13 = Some (parse_verdict 13 (parse_adu (take 13 ?data)))"
    by (rule decode_refines_parser) simp
  also have "parse_adu (take 13 ?data) =
      Got \<lparr>transaction_id = 1, protocol_id = 0, unit_id = 17, pdu = [3, 0, 0, 0, 1]\<rparr> [99]"
    by code_simp
  finally show ?thesis by simp
qed

text \<open>C16: Encoding and decoding are inverse on the wire. Whatever bytes follow it in the stream,
  an encoded frame decodes to itself and uses exactly its own bytes; and whenever \<open>decode\<close>
  returns a frame, the bytes it used are exactly the encoding of that frame.\<close>

theorem decode_encode_inverse:
  assumes "wf_frame f"
  shows "decode (encode f @ rest) (length (encode f @ rest)) =
      Some \<lparr>frame = Some f, error = NeedMoreData, consumed = length (encode f)\<rparr> \<and>
    (\<forall>data g r. decode data (length data) = Some r \<and> frame r = Some g \<longrightarrow>
      encode g = take (consumed r) data \<and> wf_frame g)"
proof (intro conjI allI impI; (elim conjE)?)
  show "decode (encode f @ rest) (length (encode f @ rest)) =
      Some \<lparr>frame = Some f, error = NeedMoreData, consumed = length (encode f)\<rparr>"
    using parse_encode [OF assms, of rest] decode_parse [of "encode f @ rest"] by simp
next
  fix data g r assume "decode data (length data) = Some r" "frame r = Some g"
  then obtain rest where "parse_adu data = Got g rest" "consumed r = length data - length rest"
    using decode_frame_consumed by blast
  then show "encode g = take (consumed r) data" and "wf_frame g"
    using parse_GotD [of data g rest] by auto
qed

theorem decode_encode_inverse_witness:
  "decode (encode \<lparr>transaction_id = 0xBEEF, protocol_id = 0, unit_id = 5, pdu = [6, 0, 3, 18, 52]\<rparr> @ [7])
     (length (encode \<lparr>transaction_id = 0xBEEF, protocol_id = 0, unit_id = 5, pdu = [6, 0, 3, 18, 52]\<rparr> @ [7]))
   = Some \<lparr>frame = Some \<lparr>transaction_id = 0xBEEF, protocol_id = 0, unit_id = 5, pdu = [6, 0, 3, 18, 52]\<rparr>,
       error = NeedMoreData,
       consumed = length (encode \<lparr>transaction_id = 0xBEEF, protocol_id = 0, unit_id = 5, pdu = [6, 0, 3, 18, 52]\<rparr>)\<rparr>"
  by (rule decode_encode_inverse [THEN conjunct1]) (simp add: wf_frame_def mbap_consts)

text \<open>A verdict is final and the wait for it is bounded. Once \<open>decode\<close> has returned a frame
  or a header error for a prefix of the stream, it returns the same for every longer prefix;
  and as long as it asks for more data it holds fewer than \<open>MAX_TCP_ADU\<close> = 260 bytes.\<close>

theorem decode_verdict_final:
  assumes "len \<le> len'" and "len' \<le> length data" and "decode data len = Some r"
  shows "(frame r \<noteq> None \<or> error r \<noteq> NeedMoreData \<longrightarrow> decode data len' = Some r) \<and>
    (frame r = None \<and> error r = NeedMoreData \<longrightarrow> len < MAX_TCP_ADU)"
proof -
  define xs where "xs = take len data"
  define ys where "ys = drop len (take len' data)"
  have split: "take len' data = xs @ ys" "length xs = len" "length ys = len' - len"
    using assms(1,2) append_take_drop_id [of len "take len' data"]
    by (simp_all add: xs_def ys_def min_absorb1)
  have r: "r = parse_verdict len (parse_adu xs)"
    using assms decode_eq [of len data] by (simp add: xs_def)
  have r': "decode data len' = Some (parse_verdict len' (parse_adu (xs @ ys)))"
    using decode_eq [OF assms(2)] split(1) by simp
  show ?thesis
  proof (cases "parse_adu xs")
    case More
    then show ?thesis using r parse_More_bound [OF More] split(2) by simp
  next
    case (Bad e)
    then show ?thesis using r r' parse_Bad_append [OF Bad] parse_Bad_error [OF Bad] by simp
  next
    case (Got f rest)
    then show ?thesis
      using r r' parse_Got_append [OF Got, of ys] split parse_Got_length [OF Got] assms(1) by simp
  qed
qed

theorem decode_verdict_final_witness:
  "decode [0, 1, 0, 0, 0, 2, 17, 3, 55] 9 =
     Some \<lparr>frame = Some \<lparr>transaction_id = 1, protocol_id = 0, unit_id = 17, pdu = [3]\<rparr>,
       error = NeedMoreData, consumed = 8\<rparr>"
proof -
  let ?r = "\<lparr>frame = Some \<lparr>transaction_id = 1, protocol_id = 0, unit_id = 17, pdu = [3]\<rparr>,
    error = NeedMoreData, consumed = 8\<rparr>"
  have "decode [0, 1, 0, 0, 0, 2, 17, 3, 55] 8 = Some ?r" by code_simp
  then show ?thesis
    using decode_verdict_final [of 8 9 "[0, 1, 0, 0, 0, 2, 17, 3, 55]" ?r] by simp
qed

end
