(* ===== verification/Modbus_Slave.thy ===== *)
theory Modbus_Slave
  imports Modbus_Crc
begin

text \<open>
  \<open>rtu-core/modbus_slave.h\<close> and \<open>rtu-core/modbus_slave.c\<close>: the Modbus RTU slave core. The
  first half translates the C code over request and response buffers with checked accesses.
  The second half states the protocol on byte lists (\<open>serve_pdu\<close>, \<open>slave_spec\<close>) and
  proves that \<open>mb_slave_handle\<close> refines it: it never leaves the request, the register file
  or a response buffer of \<open>MB_ADU_MAX\<close> bytes, always returns, and gives the specified
  result, state and response.
\<close>

section \<open>Constants and state\<close>

definition MB_ADDR_BROADCAST :: u8 where "MB_ADDR_BROADCAST = 0"
definition MB_ADU_MAX :: u16 where "MB_ADU_MAX = 256"
definition MB_ADU_MIN :: u16 where "MB_ADU_MIN = 4"
definition MB_FC_READ_HOLDING :: u8 where "MB_FC_READ_HOLDING = 0x03"
definition MB_FC_WRITE_SINGLE :: u8 where "MB_FC_WRITE_SINGLE = 0x06"
definition MB_FC_WRITE_MULTIPLE :: u8 where "MB_FC_WRITE_MULTIPLE = 0x10"
definition MB_EX_ILLEGAL_FUNCTION :: u8 where "MB_EX_ILLEGAL_FUNCTION = 0x01"
definition MB_EX_ILLEGAL_ADDRESS :: u8 where "MB_EX_ILLEGAL_ADDRESS = 0x02"
definition MB_EX_ILLEGAL_VALUE :: u8 where "MB_EX_ILLEGAL_VALUE = 0x03"
definition MB_READ_QTY_MAX :: u16 where "MB_READ_QTY_MAX = 125"
definition MB_WRITE_MULTI_QTY_MAX :: u16 where "MB_WRITE_MULTI_QTY_MAX = 123"

lemmas slave_consts =
  MB_ADDR_BROADCAST_def MB_ADU_MAX_def MB_ADU_MIN_def
  MB_FC_READ_HOLDING_def MB_FC_WRITE_SINGLE_def MB_FC_WRITE_MULTIPLE_def
  MB_EX_ILLEGAL_FUNCTION_def MB_EX_ILLEGAL_ADDRESS_def MB_EX_ILLEGAL_VALUE_def
  MB_READ_QTY_MAX_def MB_WRITE_MULTI_QTY_MAX_def

datatype mb_result =
  MB_RESULT_RESPOND | MB_RESULT_SILENT | MB_RESULT_BAD_CRC | MB_RESULT_BAD_LENGTH

text \<open>
  \<open>mb_slave_t\<close>. The list \<open>holding\<close> is the register array the C pointer designates; the
  structure is its only user while a request is handled.
\<close>

record mb_slave =
  addr :: u8
  holding :: "u16 list"
  holding_count :: u16
  cnt_frames_ok :: u32
  cnt_crc_err :: u32
  cnt_len_err :: u32
  cnt_exceptions :: u32
  cnt_responses :: u32
  cnt_broadcast :: u32

section \<open>Helpers\<close>

definition rd_u16 :: "u8 list \<Rightarrow> nat \<Rightarrow> u16 option" where
  "rd_u16 p off = do { a \<leftarrow> rd p off; b \<leftarrow> rd p (off + 1); Some (be16 a b) }"

definition wr_u16 :: "u8 list \<Rightarrow> nat \<Rightarrow> u16 \<Rightarrow> u8 list option" where
  "wr_u16 p off v = do { p \<leftarrow> wr p off (hi8 v); wr p (off + 1) (lo8 v) }"

definition seal :: "u8 list \<Rightarrow> u16 \<Rightarrow> (u8 list \<times> u16) option" where
  "seal resp body_len = do {
     crc \<leftarrow> mb_crc16 resp body_len;
     resp \<leftarrow> wr resp (unat body_len) (lo8 crc);
     resp \<leftarrow> wr resp (unat body_len + 1) (hi8 crc);
     Some (resp, body_len + 2)
   }"

type_synonym handled = "(mb_result \<times> mb_slave \<times> u8 list \<times> u16) option"

definition mb_make_exception :: "mb_slave \<Rightarrow> u8 \<Rightarrow> u8 \<Rightarrow> u8 list \<Rightarrow> handled" where
  "mb_make_exception s fc code resp = do {
     resp \<leftarrow> wr resp 0 (addr s);
     resp \<leftarrow> wr resp 1 (fc OR 0x80);
     resp \<leftarrow> wr resp 2 code;
     (resp, resp_len) \<leftarrow> seal resp 3;
     Some (MB_RESULT_RESPOND,
           s\<lparr>cnt_exceptions := cnt_exceptions s + 1, cnt_responses := cnt_responses s + 1\<rparr>,
           resp, resp_len)
   }"

definition mb_slave_init :: "mb_slave \<Rightarrow> u8 \<Rightarrow> u16 list \<Rightarrow> u16 \<Rightarrow> mb_slave option" where
  "mb_slave_init s a regs count = do {
     regs \<leftarrow> for_upto 0 (unat count) (\<lambda>i regs. wr regs i 0) regs;
     Some (s\<lparr>addr := a, holding := regs, holding_count := count,
       cnt_frames_ok := 0, cnt_crc_err := 0, cnt_len_err := 0,
       cnt_exceptions := 0, cnt_responses := 0, cnt_broadcast := 0\<rparr>)
   }"

section \<open>Request handling\<close>

text \<open>The three cases of the \<open>switch (fc)\<close> that have a body of their own.\<close>

definition handle_read_holding ::
    "mb_slave \<Rightarrow> u8 list \<Rightarrow> u16 \<Rightarrow> bool \<Rightarrow> u8 \<Rightarrow> u8 list \<Rightarrow> u16 \<Rightarrow> handled" where
  "handle_read_holding s req req_len is_broadcast fc resp resp_len =
     (if req_len \<noteq> 8 then
        Some (MB_RESULT_BAD_LENGTH, s\<lparr>cnt_len_err := cnt_len_err s + 1\<rparr>, resp, resp_len)
      else if is_broadcast then Some (MB_RESULT_SILENT, s, resp, resp_len)
      else do {
        start \<leftarrow> rd_u16 req 2;
        qty \<leftarrow> rd_u16 req 4;
        if qty < 1 \<or> qty > MB_READ_QTY_MAX then
          mb_make_exception s fc MB_EX_ILLEGAL_VALUE resp
        else if (ucast start :: u32) + ucast qty > ucast (holding_count s) then
          mb_make_exception s fc MB_EX_ILLEGAL_ADDRESS resp
        else do {
          resp \<leftarrow> wr resp 0 (addr s);
          resp \<leftarrow> wr resp 1 fc;
          resp \<leftarrow> wr resp 2 (ucast (qty * 2));
          resp \<leftarrow> for_upto 0 (unat qty) (\<lambda>i resp. do {
                    v \<leftarrow> rd (holding s) (unat start + i);
                    wr_u16 resp (3 + i * 2) v }) resp;
          (resp, resp_len) \<leftarrow> seal resp (3 + qty * 2);
          Some (MB_RESULT_RESPOND, s\<lparr>cnt_responses := cnt_responses s + 1\<rparr>, resp, resp_len)
        }
      })"

definition handle_write_single ::
    "mb_slave \<Rightarrow> u8 list \<Rightarrow> u16 \<Rightarrow> bool \<Rightarrow> u8 \<Rightarrow> u8 list \<Rightarrow> u16 \<Rightarrow> handled" where
  "handle_write_single s req req_len is_broadcast fc resp resp_len =
     (if req_len \<noteq> 8 then
        Some (MB_RESULT_BAD_LENGTH, s\<lparr>cnt_len_err := cnt_len_err s + 1\<rparr>, resp, resp_len)
      else do {
        reg \<leftarrow> rd_u16 req 2;
        val \<leftarrow> rd_u16 req 4;
        if (ucast reg :: u32) \<ge> ucast (holding_count s) then
          (if is_broadcast then Some (MB_RESULT_SILENT, s, resp, resp_len)
           else mb_make_exception s fc MB_EX_ILLEGAL_ADDRESS resp)
        else do {
          regs \<leftarrow> wr (holding s) (unat reg) val;
          let s = s\<lparr>holding := regs\<rparr>;
          if is_broadcast then Some (MB_RESULT_SILENT, s, resp, resp_len)
          else do {
            resp \<leftarrow> wr resp 0 (addr s);
            resp \<leftarrow> wr resp 1 fc;
            resp \<leftarrow> wr_u16 resp 2 reg;
            resp \<leftarrow> wr_u16 resp 4 val;
            (resp, resp_len) \<leftarrow> seal resp 6;
            Some (MB_RESULT_RESPOND, s\<lparr>cnt_responses := cnt_responses s + 1\<rparr>, resp, resp_len)
          }
        }
      })"

definition handle_write_multiple ::
    "mb_slave \<Rightarrow> u8 list \<Rightarrow> u16 \<Rightarrow> bool \<Rightarrow> u8 \<Rightarrow> u8 list \<Rightarrow> u16 \<Rightarrow> handled" where
  "handle_write_multiple s req req_len is_broadcast fc resp resp_len =
     (if req_len < 9 then
        Some (MB_RESULT_BAD_LENGTH, s\<lparr>cnt_len_err := cnt_len_err s + 1\<rparr>, resp, resp_len)
      else do {
        start \<leftarrow> rd_u16 req 2;
        qty \<leftarrow> rd_u16 req 4;
        byte_count \<leftarrow> rd req 6;
        if (ucast req_len :: u32) \<noteq> 9 + ucast byte_count then
          Some (MB_RESULT_BAD_LENGTH, s\<lparr>cnt_len_err := cnt_len_err s + 1\<rparr>, resp, resp_len)
        else if qty < 1 \<or> qty > MB_WRITE_MULTI_QTY_MAX \<or>
            (ucast byte_count :: u32) \<noteq> ucast qty * 2 then
          (if is_broadcast then Some (MB_RESULT_SILENT, s, resp, resp_len)
           else mb_make_exception s fc MB_EX_ILLEGAL_VALUE resp)
        else if (ucast start :: u32) + ucast qty > ucast (holding_count s) then
          (if is_broadcast then Some (MB_RESULT_SILENT, s, resp, resp_len)
           else mb_make_exception s fc MB_EX_ILLEGAL_ADDRESS resp)
        else do {
          regs \<leftarrow> for_upto 0 (unat qty) (\<lambda>i regs. do {
                    v \<leftarrow> rd_u16 req (7 + i * 2);
                    wr regs (unat start + i) v }) (holding s);
          let s = s\<lparr>holding := regs\<rparr>;
          if is_broadcast then Some (MB_RESULT_SILENT, s, resp, resp_len)
          else do {
            resp \<leftarrow> wr resp 0 (addr s);
            resp \<leftarrow> wr resp 1 fc;
            resp \<leftarrow> wr_u16 resp 2 start;
            resp \<leftarrow> wr_u16 resp 4 qty;
            (resp, resp_len) \<leftarrow> seal resp 6;
            Some (MB_RESULT_RESPOND, s\<lparr>cnt_responses := cnt_responses s + 1\<rparr>, resp, resp_len)
          }
        }
      })"

text \<open>The \<open>switch\<close> over the function code.\<close>

definition handle_function ::
    "mb_slave \<Rightarrow> u8 list \<Rightarrow> u16 \<Rightarrow> bool \<Rightarrow> u8 \<Rightarrow> u8 list \<Rightarrow> u16 \<Rightarrow> handled"
where
  "handle_function s req req_len is_broadcast fc resp resp_len =
     (if fc = MB_FC_READ_HOLDING then
        handle_read_holding s req req_len is_broadcast fc resp resp_len
      else if fc = MB_FC_WRITE_SINGLE then
        handle_write_single s req req_len is_broadcast fc resp resp_len
      else if fc = MB_FC_WRITE_MULTIPLE then
        handle_write_multiple s req req_len is_broadcast fc resp resp_len
      else if is_broadcast then Some (MB_RESULT_SILENT, s, resp, resp_len)
      else mb_make_exception s fc MB_EX_ILLEGAL_FUNCTION resp)"

definition mb_slave_handle :: "mb_slave \<Rightarrow> u8 list \<Rightarrow> u16 \<Rightarrow> u8 list \<Rightarrow> u16 \<Rightarrow> handled" where
  "mb_slave_handle s req req_len resp resp_len =
     (if req_len < MB_ADU_MIN \<or> req_len > MB_ADU_MAX then
        Some (MB_RESULT_BAD_LENGTH, s\<lparr>cnt_len_err := cnt_len_err s + 1\<rparr>, resp, resp_len)
      else do {
        calc_crc \<leftarrow> mb_crc16 req (req_len - 2);
        lo \<leftarrow> rd req (unat (req_len - 2));
        hi \<leftarrow> rd req (unat (req_len - 1));
        let rx_crc = be16 hi lo;
        if calc_crc \<noteq> rx_crc then
          Some (MB_RESULT_BAD_CRC, s\<lparr>cnt_crc_err := cnt_crc_err s + 1\<rparr>, resp, resp_len)
        else do {
          dest \<leftarrow> rd req 0;
          let is_broadcast = (dest = MB_ADDR_BROADCAST);
          if \<not> is_broadcast \<and> dest \<noteq> addr s then
            Some (MB_RESULT_SILENT, s, resp, resp_len)
          else do {
            let s = s\<lparr>cnt_frames_ok := cnt_frames_ok s + 1\<rparr>;
            let s = (if is_broadcast then s\<lparr>cnt_broadcast := cnt_broadcast s + 1\<rparr> else s);
            fc \<leftarrow> rd req 1;
            handle_function s req req_len is_broadcast fc resp resp_len
          }
        }
      })"

section \<open>The protocol on byte lists\<close>

definition seal_adu :: "u8 list \<Rightarrow> u8 list" where
  "seal_adu body = body @ [lo8 (crc16 body), hi8 (crc16 body)]"

definition u16_bytes :: "u16 \<Rightarrow> u8 list" where
  "u16_bytes v = [hi8 v, lo8 v]"

fun be16s :: "u8 list \<Rightarrow> u16 list" where
  "be16s (a # b # xs) = be16 a b # be16s xs"
| "be16s _ = []"

text \<open>
  The answer of a device with register file \<open>regs\<close> to a request PDU: not a well-formed
  PDU, an exception code, or a response PDU and the new register file.
\<close>

datatype pdu_outcome = Malformed | Except u8 | Reply "u8 list" "u16 list"

fun serve_read :: "u16 list \<Rightarrow> u8 list \<Rightarrow> pdu_outcome" where
  "serve_read regs [s1, s0, q1, q0] =
     (let start = unat (be16 s1 s0); qty = unat (be16 q1 q0) in
      if qty < 1 \<or> 125 < qty then Except 3
      else if length regs < start + qty then Except 2
      else Reply (3 # of_nat (2 * qty) # concat (map u16_bytes (take qty (drop start regs)))) regs)"
| "serve_read regs _ = Malformed"

fun serve_write :: "u16 list \<Rightarrow> u8 list \<Rightarrow> pdu_outcome" where
  "serve_write regs [r1, r0, v1, v0] =
     (let reg = unat (be16 r1 r0) in
      if length regs \<le> reg then Except 2
      else Reply [6, r1, r0, v1, v0] (regs[reg := be16 v1 v0]))"
| "serve_write regs _ = Malformed"

fun serve_write_multi :: "u16 list \<Rightarrow> u8 list \<Rightarrow> pdu_outcome" where
  "serve_write_multi regs (s1 # s0 # q1 # q0 # bc # bytes) =
     (let start = unat (be16 s1 s0); qty = unat (be16 q1 q0) in
      if length bytes \<noteq> unat bc then Malformed
      else if qty < 1 \<or> 123 < qty \<or> unat bc \<noteq> 2 * qty then Except 3
      else if length regs < start + qty then Except 2
      else Reply [16, s1, s0, q1, q0]
             (take start regs @ be16s bytes @ drop (start + qty) regs))"
| "serve_write_multi regs _ = Malformed"

fun serve_pdu :: "u16 list \<Rightarrow> u8 list \<Rightarrow> pdu_outcome" where
  "serve_pdu regs [] = Malformed"
| "serve_pdu regs (fc # body) =
     (if fc = 3 then serve_read regs body
      else if fc = 6 then serve_write regs body
      else if fc = 16 then serve_write_multi regs body
      else Except 1)"

definition count_frame :: "bool \<Rightarrow> mb_slave \<Rightarrow> mb_slave" where
  "count_frame b s = (let s = s\<lparr>cnt_frames_ok := cnt_frames_ok s + 1\<rparr> in
     if b then s\<lparr>cnt_broadcast := cnt_broadcast s + 1\<rparr> else s)"

definition answer :: "bool \<Rightarrow> mb_slave \<Rightarrow> u8 \<Rightarrow> pdu_outcome \<Rightarrow> mb_result \<times> mb_slave \<times> u8 list" where
  "answer bcast s fc out = (case out of
     Malformed \<Rightarrow> (MB_RESULT_BAD_LENGTH, s\<lparr>cnt_len_err := cnt_len_err s + 1\<rparr>, [])
   | Except code \<Rightarrow>
       if bcast then (MB_RESULT_SILENT, s, [])
       else (MB_RESULT_RESPOND,
             s\<lparr>cnt_exceptions := cnt_exceptions s + 1, cnt_responses := cnt_responses s + 1\<rparr>,
             seal_adu [addr s, fc OR 0x80, code])
   | Reply body regs \<Rightarrow>
       if bcast then (MB_RESULT_SILENT, s\<lparr>holding := regs\<rparr>, [])
       else (MB_RESULT_RESPOND, s\<lparr>holding := regs, cnt_responses := cnt_responses s + 1\<rparr>,
             seal_adu (addr s # body)))"

definition slave_spec :: "mb_slave \<Rightarrow> u8 list \<Rightarrow> mb_result \<times> mb_slave \<times> u8 list" where
  "slave_spec s req =
     (if length req < 4 \<or> 256 < length req then
        (MB_RESULT_BAD_LENGTH, s\<lparr>cnt_len_err := cnt_len_err s + 1\<rparr>, [])
      else if crc16 req \<noteq> 0 then
        (MB_RESULT_BAD_CRC, s\<lparr>cnt_crc_err := cnt_crc_err s + 1\<rparr>, [])
      else if hd req \<noteq> 0 \<and> hd req \<noteq> addr s then (MB_RESULT_SILENT, s, [])
      else answer (hd req = 0) (count_frame (hd req = 0) s) (req ! 1)
             (serve_pdu (holding s) (take (length req - 3) (tl req))))"

definition slave_wf :: "mb_slave \<Rightarrow> bool" where
  "slave_wf s \<longleftrightarrow> unat (holding_count s) = length (holding s)"

section \<open>The buffer code writes the specified bytes\<close>

lemma length_seal_adu [simp]: "length (seal_adu body) = length body + 2"
  by (simp add: seal_adu_def)

lemma length_u16_bytes [simp]: "length (u16_bytes v) = 2"
  by (simp add: u16_bytes_def)

lemma length_concat_u16_bytes [simp]: "length (concat (map u16_bytes vs)) = 2 * length vs"
  by (induction vs) simp_all

lemma length_be16s [simp]: "length (be16s xs) = length xs div 2"
  by (induction xs rule: be16s.induct) simp_all

lemma nth_be16s:
  "2 * k + 1 < length xs \<Longrightarrow> be16s xs ! k = be16 (xs ! (2 * k)) (xs ! (2 * k + 1))"
proof (induction xs arbitrary: k rule: be16s.induct)
  case (1 a b xs)
  then show ?case by (cases k) simp_all
qed simp_all

lemma upd_mid: "length pre = k \<Longrightarrow> (pre @ x # post)[k := v] = pre @ v # post"
  by (metis list_update_length)

lemma wr_first:
  "wr (x # xs) 0 v = Some (v # xs)" "wr (x # y # xs) 1 v = Some (x # v # xs)"
  "wr (x # y # z # xs) 2 v = Some (x # y # v # xs)"
  by (simp_all add: wr_def)

lemma wr_mid: "length pre = k \<Longrightarrow> wr (pre @ x # post) k v = Some (pre @ v # post)"
  by (simp add: wr_def upd_mid)

lemma wr_u16_mid:
  "length pre = k \<Longrightarrow> wr_u16 (pre @ x # y # post) k v = Some (pre @ u16_bytes v @ post)"
  using wr_mid [of "pre @ [hi8 v]" "Suc k" y post "lo8 v"]
  by (simp add: wr_u16_def upd_mid u16_bytes_def)

lemma list_ge_2: "2 \<le> length xs \<Longrightarrow> \<exists>x y ys. xs = x # y # ys"
  by (cases xs; cases "tl xs") auto

lemma wr_u16_at:
  assumes "length pre = k" and "2 \<le> length post"
  shows "wr_u16 (pre @ post) k v = Some (pre @ u16_bytes v @ drop 2 post)"
proof -
  obtain x y ys where "post = x # y # ys"
    using list_ge_2 [OF assms(2)] by blast
  then show ?thesis using assms(1) by (simp add: wr_u16_mid)
qed

lemma seal_at:
  assumes "length body = unat n" and "unat n < 65534" and "2 \<le> length tail"
  shows "seal (body @ tail) n = Some (seal_adu body @ drop 2 tail, n + 2)"
proof -
  obtain x y ys where tail: "tail = x # y # ys"
    using list_ge_2 [OF assms(3)] by blast
  have "mb_crc16 (body @ tail) n = Some (crc16 body)"
    using assms(1) by (simp add: mb_crc16_safe)
  moreover have "wr (body @ lo8 (crc16 body) # y # ys) (Suc (unat n)) (hi8 (crc16 body))
      = Some (seal_adu body @ ys)"
    using wr_mid [of "body @ [lo8 (crc16 body)]" "Suc (unat n)" y ys] assms(1)
    by (simp add: seal_adu_def)
  ultimately show ?thesis
    using assms(1) by (simp add: seal_def tail upd_mid)
qed

lemma list_ge_6:
  "6 \<le> length xs \<Longrightarrow> \<exists>a b c d e f ys. xs = a # b # c # d # e # f # ys"
  by (auto simp: numeral_eq_Suc Suc_le_length_iff)

lemma make_exception_at:
  assumes "8 \<le> length resp"
  shows "mb_make_exception s fc code resp =
    Some (MB_RESULT_RESPOND,
      s\<lparr>cnt_exceptions := cnt_exceptions s + 1, cnt_responses := cnt_responses s + 1\<rparr>,
      seal_adu [addr s, fc OR 0x80, code] @ drop 5 resp, 5)"
proof -
  obtain a b c d e f ys where resp: "resp = a # b # c # d # e # f # ys"
    using list_ge_6 [of resp] assms by auto
  have "seal (addr s # (fc OR 0x80) # code # d # e # f # ys) 3
      = Some (seal_adu [addr s, fc OR 0x80, code] @ f # ys, 5)"
    using seal_at [of "[addr s, fc OR 0x80, code]" 3 "d # e # f # ys"] by simp
  then show ?thesis
    by (simp add: mb_make_exception_def resp)
qed

lemma read_loop:
  assumes "st + q \<le> length regs" and "2 * q \<le> length rest"
  shows "for_upto 0 q (\<lambda>i resp. do { v \<leftarrow> rd regs (st + i); wr_u16 resp (3 + i * 2) v })
      (a # b # c # rest)
    = Some (a # b # c # concat (map u16_bytes (take q (drop st regs))) @ drop (2 * q) rest)"
proof -
  let ?f = "\<lambda>k. a # b # c # concat (map u16_bytes (take k (drop st regs))) @ drop (2 * k) rest"
  have "for_upto 0 q (\<lambda>i resp. do { v \<leftarrow> rd regs (st + i); wr_u16 resp (3 + i * 2) v }) (?f 0)
      = Some (?f q)"
  proof (intro for_upto_from_0)
    fix k assume k: "k < q"
    let ?pre = "a # b # c # concat (map u16_bytes (take k (drop st regs)))"
    have "wr_u16 (?pre @ drop (2 * k) rest) (3 + k * 2) (regs ! (st + k))
        = Some (?pre @ u16_bytes (regs ! (st + k)) @ drop 2 (drop (2 * k) rest))"
      using k assms by (intro wr_u16_at) auto
    moreover have "take (Suc k) (drop st regs) = take k (drop st regs) @ [regs ! (st + k)]"
      using k assms by (simp add: take_Suc_conv_app_nth)
    ultimately show "do { v \<leftarrow> rd regs (st + k); wr_u16 (?f k) (3 + k * 2) v } = Some (?f (Suc k))"
      using k assms by (simp add: add.commute)
  qed
  then show ?thesis by simp
qed

lemma write_loop:
  assumes reads: "\<And>i. i < 2 * q \<Longrightarrow> rd req (7 + i) = Some (bytes ! i)"
    and len: "length bytes = 2 * q" and st: "st + q \<le> length regs"
  shows "for_upto 0 q (\<lambda>i regs. do { v \<leftarrow> rd_u16 req (7 + i * 2); wr regs (st + i) v }) regs
    = Some (take st regs @ be16s bytes @ drop (st + q) regs)"
proof -
  let ?f = "\<lambda>k. take st regs @ take k (be16s bytes) @ drop (st + k) regs"
  have "for_upto 0 q (\<lambda>i regs. do { v \<leftarrow> rd_u16 req (7 + i * 2); wr regs (st + i) v }) (?f 0)
      = Some (?f q)"
  proof (intro for_upto_from_0)
    fix k assume k: "k < q"
    have "rd_u16 req (7 + k * 2) = Some (be16s bytes ! k)"
      using k len reads [of "2 * k"] reads [of "2 * k + 1"]
      by (simp add: rd_u16_def nth_be16s ac_simps)
    moreover have "drop (st + k) regs = regs ! (st + k) # drop (st + Suc k) regs"
      using k st by (simp add: Cons_nth_drop_Suc)
    moreover have "wr ((take st regs @ take k (be16s bytes)) @ regs ! (st + k) # drop (st + Suc k) regs)
        (st + k) (be16s bytes ! k)
      = Some ((take st regs @ take k (be16s bytes)) @ be16s bytes ! k # drop (st + Suc k) regs)"
      using k st len by (intro wr_mid) simp
    ultimately show "do { v \<leftarrow> rd_u16 req (7 + k * 2); wr (?f k) (st + k) v } = Some (?f (Suc k))"
      using k len by (simp add: take_Suc_conv_app_nth)
  qed
  then show ?thesis using len by simp
qed

section \<open>The handlers refine the protocol\<close>

text \<open>
  \<open>respond\<close> is how a specified result appears in the C interface: a response is the
  beginning of the caller's buffer and sets the length; otherwise both are untouched.
\<close>

definition respond :: "u8 list \<Rightarrow> u16 \<Rightarrow> mb_result \<times> mb_slave \<times> u8 list \<Rightarrow> handled" where
  "respond resp rl = (\<lambda>(r, s, adu).
     Some (if r = MB_RESULT_RESPOND
           then (r, s, adu @ drop (length adu) resp, of_nat (length adu))
           else (r, s, resp, rl)))"

lemma exception_respond:
  assumes "8 \<le> length resp"
  shows "mb_make_exception s fc code resp = respond resp rl (answer False s fc (Except code))"
  using make_exception_at [OF assms] by (simp add: respond_def answer_def eval_nat_numeral)

lemma u16_consts_unat:
  "v < 1 \<longleftrightarrow> unat v < 1" "MB_READ_QTY_MAX < v \<longleftrightarrow> 125 < unat v"
  "MB_WRITE_MULTI_QTY_MAX < v \<longleftrightarrow> 123 < unat v" "v < 9 \<longleftrightarrow> unat v < 9"
  "v < MB_ADU_MIN \<longleftrightarrow> unat v < 4" "MB_ADU_MAX < v \<longleftrightarrow> 256 < unat v"
  "v = 8 \<longleftrightarrow> unat v = 8"
  for v :: u16
  using u16_eq_iff [of v 8] by (simp_all add: slave_consts word_less_nat_alt)

lemma rd_u16_append:
  "Suc i < length xs \<Longrightarrow> rd_u16 (xs @ ys) i = Some (be16 (xs ! i) (xs ! Suc i))"
  by (simp add: rd_u16_def nth_append)

lemma list_of_4: "length xs = 4 \<Longrightarrow> \<exists>a b c d. xs = [a, b, c, d]"
  by (auto simp: numeral_eq_Suc length_Suc_conv)

lemma serve_read_malformed: "length body \<noteq> 4 \<Longrightarrow> serve_read regs body = Malformed"
  by (induction regs body rule: serve_read.induct) auto

lemma serve_write_malformed: "length body \<noteq> 4 \<Longrightarrow> serve_write regs body = Malformed"
  by (induction regs body rule: serve_write.induct) auto

lemma read_reply_refines:
  assumes wf: "slave_wf s" and resp: "256 \<le> length resp" and q: "unat q \<le> 125"
    and bound: "unat st + unat q \<le> length (holding s)"
  shows "do {
      resp \<leftarrow> wr resp 0 (addr s);
      resp \<leftarrow> wr resp 1 3;
      resp \<leftarrow> wr resp 2 (ucast (q * 2));
      resp \<leftarrow> for_upto 0 (unat q) (\<lambda>i resp. do {
                v \<leftarrow> rd (holding s) (unat st + i);
                wr_u16 resp (3 + i * 2) v }) resp;
      (resp, resp_len) \<leftarrow> seal resp (3 + q * 2);
      Some (MB_RESULT_RESPOND, s\<lparr>cnt_responses := cnt_responses s + 1\<rparr>, resp, resp_len)
    } = respond resp rl (answer False s 3
      (Reply (3 # of_nat (2 * unat q) # concat (map u16_bytes (take (unat q) (drop (unat st) (holding s)))))
        (holding s)))"
proof -
  obtain a b c d e f ys where r: "resp = a # b # c # d # e # f # ys"
    using list_ge_6 [of resp] resp by auto
  let ?rest = "d # e # f # ys"
  let ?data = "concat (map u16_bytes (take (unat q) (drop (unat st) (holding s))))"
  let ?body = "addr s # 3 # ucast (q * 2) # ?data"
  have rest: "2 * unat q + 2 \<le> length ?rest"
    using resp q by (simp add: r)
  have q2: "unat (q * 2) = 2 * unat q"
    using q by (simp add: unat_word_ariths)
  then have q3: "unat (3 + q * 2) = 3 + 2 * unat q"
    using q by (simp add: unat_word_ariths)
  have data: "length ?data = 2 * unat q"
    using bound by simp
  have loop: "for_upto 0 (unat q) (\<lambda>i resp. do {
        v \<leftarrow> rd (holding s) (unat st + i); wr_u16 resp (3 + i * 2) v })
      (addr s # 3 # ucast (q * 2) # ?rest) = Some (?body @ drop (2 * unat q) ?rest)"
    using bound rest by (subst read_loop) auto
  have "seal (?body @ drop (2 * unat q) ?rest) (3 + q * 2)
      = Some (seal_adu ?body @ drop 2 (drop (2 * unat q) ?rest), 3 + q * 2 + 2)"
    using q q3 data rest by (intro seal_at) auto
  also have "3 + q * 2 + 2 = of_nat (length (seal_adu ?body))"
    using data by (simp add: algebra_simps)
  also have "drop 2 (drop (2 * unat q) ?rest) = drop (length (seal_adu ?body)) resp"
    using data by (simp add: r numeral_eq_Suc)
  finally have sealed: "seal (?body @ drop (2 * unat q) ?rest) (3 + q * 2)
      = Some (seal_adu ?body @ drop (length (seal_adu ?body)) resp, of_nat (length (seal_adu ?body)))" .
  have "(of_nat (2 * unat q) :: u8) = ucast (q * 2)"
    by (simp only: ucast_u8_of_u16 q2)
  then show ?thesis
    by (simp only: r wr_first bind.bind_lunit loop sealed [unfolded r] prod.case
        answer_def respond_def pdu_outcome.case if_False simp_thms if_True) simp
qed

lemma handle_read_refines:
  assumes wf: "slave_wf s" and resp: "256 \<le> length resp"
    and len: "length body + 4 = unat n"
  shows "handle_read_holding s ((d # 3 # body @ [c1, c2]) @ extra) n bc 3 resp rl
    = respond resp rl (answer bc s 3 (serve_read (holding s) body))"
proof (cases "length body = 4")
  case False
  then show ?thesis
    using len by (simp add: handle_read_holding_def u16_consts_unat serve_read_malformed
        respond_def answer_def)
next
  case True
  then obtain s1 s0 q1 q0 where body: "body = [s1, s0, q1, q0]"
    using list_of_4 by blast
  have n: "n = 8" using True len by (simp add: u16_consts_unat)
  have u: "unat (holding_count s) = length (holding s)" using wf by (simp add: slave_wf_def)
  show ?thesis
  proof (cases bc)
    case True
    then show ?thesis
      by (simp add: handle_read_holding_def n body respond_def answer_def Let_def
          split: if_splits)
  next
    case False
    define st q where "st = be16 s1 s0" and "q = be16 q1 q0"
    have reads: "rd_u16 ((d # 3 # body @ [c1, c2]) @ extra) 2 = Some st"
      "rd_u16 ((d # 3 # body @ [c1, c2]) @ extra) 4 = Some q"
      by (subst rd_u16_append; simp add: body st_def q_def)+
    have q0: "q = 0 \<longleftrightarrow> unat q = 0" by (simp add: u16_eq_iff)
    show ?thesis
      using resp False reads read_reply_refines [OF wf resp, of q st rl]
      by (auto simp: handle_read_holding_def n u16_consts_unat gw_word u body
          exception_respond [where rl = rl] st_def [symmetric] q_def [symmetric] q0
          MB_EX_ILLEGAL_VALUE_def MB_EX_ILLEGAL_ADDRESS_def Let_def not_less)
  qed
qed

lemma write_reply_refines:
  assumes "256 \<le> length resp"
  shows "do {
      resp \<leftarrow> wr resp 0 a;
      resp \<leftarrow> wr resp 1 fc;
      resp \<leftarrow> wr_u16 resp 2 v;
      resp \<leftarrow> wr_u16 resp 4 w;
      (resp, resp_len) \<leftarrow> seal resp 6;
      Some (MB_RESULT_RESPOND, s', resp, resp_len)
    } = respond resp rl (MB_RESULT_RESPOND, s', seal_adu ([a, fc] @ u16_bytes v @ u16_bytes w))"
proof -
  obtain x0 x1 x2 x3 x4 x5 ys where r: "resp = x0 # x1 # x2 # x3 # x4 # x5 # ys"
    using list_ge_6 [of resp] assms by auto
  have ys: "2 \<le> length ys" using assms by (simp add: r)
  have w1: "wr_u16 (a # fc # x2 # x3 # x4 # x5 # ys) 2 v
      = Some ([a, fc] @ u16_bytes v @ x4 # x5 # ys)"
    using wr_u16_mid [of "[a, fc]" 2 x2 x3 "x4 # x5 # ys" v] by simp
  have w2: "wr_u16 ([a, fc] @ u16_bytes v @ x4 # x5 # ys) 4 w
      = Some (([a, fc] @ u16_bytes v @ u16_bytes w) @ ys)"
    using wr_u16_mid [of "[a, fc] @ u16_bytes v" 4 x4 x5 ys w] by simp
  have sl: "seal (([a, fc] @ u16_bytes v @ u16_bytes w) @ ys) 6
      = Some (seal_adu ([a, fc] @ u16_bytes v @ u16_bytes w) @ drop 2 ys, 8)"
    using seal_at [of "[a, fc] @ u16_bytes v @ u16_bytes w" 6 ys] ys by simp
  show ?thesis
    using w1 w2 sl by (simp add: r respond_def numeral_eq_Suc)
qed

lemma handle_write_refines:
  assumes wf: "slave_wf s" and resp: "256 \<le> length resp"
    and len: "length body + 4 = unat n"
  shows "handle_write_single s ((d # 6 # body @ [c1, c2]) @ extra) n bc 6 resp rl
    = respond resp rl (answer bc s 6 (serve_write (holding s) body))"
proof (cases "length body = 4")
  case False
  then show ?thesis
    using len by (simp add: handle_write_single_def u16_consts_unat serve_write_malformed
        respond_def answer_def)
next
  case True
  then obtain r1 r0 v1 v0 where body: "body = [r1, r0, v1, v0]"
    using list_of_4 by blast
  have n: "n = 8" using True len by (simp add: u16_consts_unat)
  have u: "unat (holding_count s) = length (holding s)" using wf by (simp add: slave_wf_def)
  define reg v where "reg = be16 r1 r0" and "v = be16 v1 v0"
  have reads: "rd_u16 ((d # 6 # body @ [c1, c2]) @ extra) 2 = Some reg"
    "rd_u16 ((d # 6 # body @ [c1, c2]) @ extra) 4 = Some v"
    by (subst rd_u16_append; simp add: body reg_def v_def)+
  have bytes: "u16_bytes reg = [r1, r0]" "u16_bytes v = [v1, v0]"
    by (simp_all add: u16_bytes_def reg_def v_def)
  note reply = write_reply_refines [OF resp, of _ 6 reg v _ rl, unfolded bytes]
  show ?thesis
    using resp reads reply
    by (cases bc)
      (auto simp: handle_write_single_def n gw_word u body bytes
        exception_respond [where rl = rl] reg_def [symmetric] v_def [symmetric]
        MB_EX_ILLEGAL_ADDRESS_def Let_def answer_def respond_def not_le)
qed

lemma serve_write_multi_malformed: "length body < 5 \<Longrightarrow> serve_write_multi regs body = Malformed"
  by (induction regs body rule: serve_write_multi.induct) auto

lemma list_ge_5:
  "5 \<le> length xs \<Longrightarrow> \<exists>a b c d e ys. xs = a # b # c # d # e # ys"
  by (auto simp: numeral_eq_Suc Suc_le_length_iff)

lemma handle_write_multi_refines:
  assumes wf: "slave_wf s" and resp: "256 \<le> length resp"
    and len: "length body + 4 = unat n"
  shows "handle_write_multiple s ((d # 16 # body @ [c1, c2]) @ extra) n bc 16 resp rl
    = respond resp rl (answer bc s 16 (serve_write_multi (holding s) body))"
proof (cases "length body < 5")
  case True
  then show ?thesis
    using len by (simp add: handle_write_multiple_def u16_consts_unat serve_write_multi_malformed
        respond_def answer_def)
next
  case False
  then obtain s1 s0 q1 q0 b bytes where body: "body = s1 # s0 # q1 # q0 # b # bytes"
    using list_ge_5 [of body] by auto
  have u: "unat (holding_count s) = length (holding s)" using wf by (simp add: slave_wf_def)
  define st q where "st = be16 s1 s0" and "q = be16 q1 q0"
  let ?req = "(d # 16 # body @ [c1, c2]) @ extra"
  have reads: "rd_u16 ?req 2 = Some st" "rd_u16 ?req 4 = Some q" "rd ?req 6 = Some b"
    by (subst rd_u16_append rd_append_left; simp add: body st_def q_def)+
  have n9: "unat n = 9 + unat b \<longleftrightarrow> length bytes = unat b" using len by (auto simp: body)
  have ge9: "\<not> n < 9" using len False by (simp add: u16_consts_unat)
  have q0: "q < 1 \<longleftrightarrow> unat q = 0" by (simp add: u16_eq_iff)
  have loop: "for_upto 0 (unat q) (\<lambda>i regs. do { v \<leftarrow> rd_u16 ?req (7 + i * 2); wr regs (unat st + i) v })
      (holding s) = Some (take (unat st) (holding s) @ be16s bytes @ drop (unat st + unat q) (holding s))"
    if "length bytes = 2 * unat q" "unat st + unat q \<le> length (holding s)"
  proof (rule write_loop)
    fix i assume "i < 2 * unat q"
    then show "rd ?req (7 + i) = Some (bytes ! i)"
      using that by (simp add: body rd_def nth_append)
  qed (use that in auto)
  have bts: "u16_bytes st = [s1, s0]" "u16_bytes q = [q1, q0]"
    by (simp_all add: u16_bytes_def st_def q_def)
  note reply = write_reply_refines [OF resp, of _ 16 st q _ rl, unfolded bts]
  have head: "handle_write_multiple s ?req n bc 16 resp rl =
     (if length bytes \<noteq> unat b then
        Some (MB_RESULT_BAD_LENGTH, s\<lparr>cnt_len_err := cnt_len_err s + 1\<rparr>, resp, rl)
      else if unat q < 1 \<or> 123 < unat q \<or> unat b \<noteq> 2 * unat q then
        (if bc then Some (MB_RESULT_SILENT, s, resp, rl)
         else mb_make_exception s 16 MB_EX_ILLEGAL_VALUE resp)
      else if length (holding s) < unat st + unat q then
        (if bc then Some (MB_RESULT_SILENT, s, resp, rl)
         else mb_make_exception s 16 MB_EX_ILLEGAL_ADDRESS resp)
      else do {
        regs \<leftarrow> for_upto 0 (unat q) (\<lambda>i regs. do {
                  v \<leftarrow> rd_u16 ?req (7 + i * 2); wr regs (unat st + i) v }) (holding s);
        let s = s\<lparr>holding := regs\<rparr>;
        if bc then Some (MB_RESULT_SILENT, s, resp, rl)
        else do {
          resp \<leftarrow> wr resp 0 (addr s);
          resp \<leftarrow> wr resp 1 16;
          resp \<leftarrow> wr_u16 resp 2 st;
          resp \<leftarrow> wr_u16 resp 4 q;
          (resp, resp_len) \<leftarrow> seal resp 6;
          Some (MB_RESULT_RESPOND, s\<lparr>cnt_responses := cnt_responses s + 1\<rparr>, resp, resp_len)
        }
      })"
    using ge9 n9
    by (simp only: handle_write_multiple_def reads bind.bind_lunit u16_consts_unat(1-3)
        gw_word u if_False not_less [symmetric] mult.commute
        cong: if_cong)
  show ?thesis
    unfolding head
    using reply loop resp
    by (auto simp: body st_def [symmetric] q_def [symmetric]
        exception_respond [where rl = rl] MB_EX_ILLEGAL_ADDRESS_def MB_EX_ILLEGAL_VALUE_def
        Let_def answer_def respond_def not_less)
qed

lemma slave_wf_count_frame [simp]: "slave_wf (count_frame b s) = slave_wf s"
  by (simp add: count_frame_def slave_wf_def Let_def)

lemma count_frame_simps [simp]:
  "holding (count_frame b s) = holding s" "addr (count_frame b s) = addr s"
  "holding_count (count_frame b s) = holding_count s"
  by (simp_all add: count_frame_def Let_def)

lemma adu_split:
  assumes "4 \<le> length xs"
  obtains d fc body c1 c2 where "xs = (d # fc # body) @ [c1, c2]"
proof -
  obtain d fc ys where xs: "xs = d # fc # ys"
    using list_ge_2 [of xs] assms by auto
  obtain c2 c1 zs where "rev ys = c2 # c1 # zs"
    using list_ge_2 [of "rev ys"] assms by (auto simp: xs)
  then have "ys = rev zs @ [c1, c2]"
    by (metis append_Cons append_Nil append_assoc rev.simps(2) rev_rev_ident)
  with xs that show ?thesis by simp
qed

theorem handle_refines:
  assumes wf: "slave_wf s" and resp: "256 \<le> length resp" and len: "length xs = unat n"
  shows "mb_slave_handle s (xs @ extra) n resp rl = respond resp rl (slave_spec s xs)"
proof (cases "length xs < 4 \<or> 256 < length xs")
  case True
  then show ?thesis
    using len by (simp add: mb_slave_handle_def u16_consts_unat slave_spec_def respond_def)
next
  case False
  then obtain d fc body c1 c2 where xs: "xs = (d # fc # body) @ [c1, c2]"
    using adu_split [of xs] by (metis not_less)
  have n: "unat n = length body + 4" using len by (simp add: xs)
  have n2: "unat (n - 2) = length body + 2" "unat (n - 1) = length body + 3"
    using n unat_sub_small [of 2 n] unat_sub_small [of 1 n] by simp_all
  have crc: "mb_crc16 (xs @ extra) (n - 2) = Some (crc16 (d # fc # body))"
    by (simp add: mb_crc16_safe n2 xs)
  have trailer: "rd (xs @ extra) (unat (n - 2)) = Some c1" "rd (xs @ extra) (unat (n - 1)) = Some c2"
    "rd (xs @ extra) 0 = Some d" "rd (xs @ extra) 1 = Some fc"
    by (simp_all add: xs n2 rd_def nth_append)
  have ok: "crc16 xs = 0 \<longleftrightarrow> crc16 (d # fc # body) = be16 c2 c1"
    unfolding xs by (rule crc16_residue)
  have pdu: "take (length xs - 3) (tl xs) = fc # body"
    by (simp add: xs)
  have bounds: "\<not> (n < MB_ADU_MIN \<or> n > MB_ADU_MAX)"
    using False len by (simp add: u16_consts_unat)
  let ?s = "count_frame (d = 0) s"
  have len4: "length body + 4 = unat n" by (simp add: n)
  have wf': "slave_wf ?s" using wf by simp
  note handlers =
    handle_read_refines [OF wf' resp len4, of d c1 c2 extra "d = 0" rl]
    handle_write_refines [OF wf' resp len4, of d c1 c2 extra "d = 0" rl]
    handle_write_multi_refines [OF wf' resp len4, of d c1 c2 extra "d = 0" rl]
  have body: "mb_slave_handle s (xs @ extra) n resp rl =
     (if crc16 (d # fc # body) \<noteq> be16 c2 c1 then
        Some (MB_RESULT_BAD_CRC, s\<lparr>cnt_crc_err := cnt_crc_err s + 1\<rparr>, resp, rl)
      else if d \<noteq> 0 \<and> d \<noteq> addr s then Some (MB_RESULT_SILENT, s, resp, rl)
      else if fc = 3 then handle_read_holding ?s (xs @ extra) n (d = 0) fc resp rl
      else if fc = 6 then handle_write_single ?s (xs @ extra) n (d = 0) fc resp rl
      else if fc = 16 then handle_write_multiple ?s (xs @ extra) n (d = 0) fc resp rl
      else if d = 0 then Some (MB_RESULT_SILENT, ?s, resp, rl)
      else mb_make_exception ?s fc MB_EX_ILLEGAL_FUNCTION resp)"
    unfolding mb_slave_handle_def handle_function_def
    by (simp only: bounds if_False crc trailer bind.bind_lunit Let_def count_frame_def
        MB_ADDR_BROADCAST_def MB_FC_READ_HOLDING_def MB_FC_WRITE_SINGLE_def
        MB_FC_WRITE_MULTIPLE_def)
  have spec: "slave_spec s xs =
     (if crc16 (d # fc # body) \<noteq> be16 c2 c1 then
        (MB_RESULT_BAD_CRC, s\<lparr>cnt_crc_err := cnt_crc_err s + 1\<rparr>, [])
      else if d \<noteq> 0 \<and> d \<noteq> addr s then (MB_RESULT_SILENT, s, [])
      else answer (d = 0) ?s fc (serve_pdu (holding s) (fc # body)))"
    using False by (simp only: slave_spec_def ok pdu if_False) (simp add: xs)
  show ?thesis
  proof (cases "crc16 (d # fc # body) \<noteq> be16 c2 c1 \<or> (d \<noteq> 0 \<and> d \<noteq> addr s)")
    case True
    then show ?thesis unfolding body spec by (auto simp: respond_def)
  next
    case good: False
    consider "fc = 3" | "fc = 6" | "fc = 16" | "fc \<noteq> 3" "fc \<noteq> 6" "fc \<noteq> 16"
      by blast
    then show ?thesis
    proof cases
      case 1
      then show ?thesis unfolding body spec using good handlers by (auto simp: xs)
    next
      case 2
      then show ?thesis unfolding body spec using good handlers by (auto simp: xs)
    next
      case 3
      then show ?thesis unfolding body spec using good handlers by (auto simp: xs)
    next
      case 4
      then show ?thesis
        unfolding body spec using good resp
        by (cases "d = 0")
          (simp add: respond_def answer_def,
           auto simp: exception_respond [where rl = rl] MB_EX_ILLEGAL_FUNCTION_def)
    qed
  qed
qed

section \<open>Facts about the protocol\<close>

lemma serve_read_Reply:
  assumes "serve_read regs body = Reply r regs'"
  shows "regs' = regs \<and> (\<exists>n vs. r = 3 # n # concat (map u16_bytes vs) \<and> length vs \<le> 125)"
  using assms
  by (induction regs body rule: serve_read.induct)
    (auto simp: Let_def min_def split: if_splits intro!: exI conjI refl)

lemma serve_write_Reply:
  "serve_write regs body = Reply r regs' \<Longrightarrow> length regs' = length regs \<and> length r = 5"
  by (induction regs body rule: serve_write.induct) (auto simp: Let_def split: if_splits)

lemma serve_write_multi_Reply:
  "serve_write_multi regs body = Reply r regs' \<Longrightarrow> length regs' = length regs \<and> length r = 5"
  by (induction regs body rule: serve_write_multi.induct) (auto simp: Let_def split: if_splits)

lemma serve_pdu_Reply:
  assumes "serve_pdu regs p = Reply r regs'"
  shows "length regs' = length regs \<and> 2 \<le> length r \<and> length r \<le> 252"
  using assms
proof (cases p)
  case (Cons fc body)
  consider "fc = 3" | "fc = 6" | "fc = 16" | "fc \<noteq> 3" "fc \<noteq> 6" "fc \<noteq> 16" by blast
  then show ?thesis
  proof cases
    case 1
    then obtain n vs where "regs' = regs" "r = 3 # n # concat (map u16_bytes vs)" "length vs \<le> 125"
      using assms Cons serve_read_Reply [of regs body r regs'] by auto
    then show ?thesis by simp
  qed (use assms Cons serve_write_Reply [of regs body r regs']
      serve_write_multi_Reply [of regs body r regs'] in auto)
qed simp

lemma crc16_seal_adu [simp]: "crc16 (seal_adu body) = 0"
  by (simp add: seal_adu_def crc16_residue)

lemma hd_seal_adu [simp]: "hd (seal_adu (a # body)) = a"
  by (simp add: seal_adu_def)

lemma answer_RESPOND:
  assumes "answer bc s fc (serve_pdu (holding s) p) = (MB_RESULT_RESPOND, s', adu)"
  shows "\<not> bc \<and> hd adu = addr s \<and> crc16 adu = 0 \<and> 5 \<le> length adu \<and> length adu \<le> 255"
  using assms serve_pdu_Reply [of "holding s" p]
  by (auto simp: answer_def split: pdu_outcome.splits if_splits)

lemma answer_frame:
  assumes "answer bc s fc (serve_pdu (holding s) p) = (r, s', adu)"
  shows "addr s' = addr s \<and> holding_count s' = holding_count s \<and>
    length (holding s') = length (holding s)"
  using assms serve_pdu_Reply [of "holding s" p]
  by (auto simp: answer_def split: pdu_outcome.splits if_splits)

lemma slave_spec_RESPOND:
  assumes "slave_spec s req = (MB_RESULT_RESPOND, s', adu)"
  shows "hd req = addr s" "hd req \<noteq> 0" "hd adu = hd req" "crc16 adu = 0"
    "5 \<le> length adu" "length adu \<le> 255" "crc16 req = 0" "4 \<le> length req" "length req \<le> 256"
  using assms answer_RESPOND [of "hd req = 0" "count_frame (hd req = 0) s" "req ! 1"
      "take (length req - 3) (tl req)" s' adu]
  by (auto simp: slave_spec_def split: if_splits)

lemma slave_spec_frame:
  assumes "slave_spec s req = (r, s', adu)"
  shows "addr s' = addr s" "holding_count s' = holding_count s"
    "length (holding s') = length (holding s)"
  using assms answer_frame [of "hd req = 0" "count_frame (hd req = 0) s" "req ! 1"
      "take (length req - 3) (tl req)" r s' adu]
  by (auto simp: slave_spec_def split: if_splits)

lemma slave_spec_wf: "slave_spec s req = (r, s', adu) \<Longrightarrow> slave_wf s \<Longrightarrow> slave_wf s'"
  using slave_spec_frame [of s req r s' adu] by (simp add: slave_wf_def)

text \<open>A slave that is not addressed keeps its registers.\<close>

lemma slave_spec_unaddressed:
  "hd req \<noteq> 0 \<Longrightarrow> hd req \<noteq> addr s \<Longrightarrow> holding (fst (snd (slave_spec s req))) = holding s"
  by (simp add: slave_spec_def)

lemma slave_spec_short:
  "length req < 4 \<Longrightarrow> holding (fst (snd (slave_spec s req))) = holding s"
  by (simp add: slave_spec_def)

lemma slave_spec_corrupt:
  "crc16 req \<noteq> 0 \<Longrightarrow> holding (fst (snd (slave_spec s req))) = holding s \<and>
    fst (slave_spec s req) \<noteq> MB_RESULT_RESPOND"
  by (simp add: slave_spec_def)

section \<open>Initialisation\<close>

lemma init_loop:
  "n \<le> length regs \<Longrightarrow>
    for_upto 0 n (\<lambda>i regs. wr regs i 0) regs = Some (replicate n 0 @ drop n regs)"
proof -
  assume n: "n \<le> length regs"
  have "for_upto 0 n (\<lambda>i regs. wr regs i 0) (replicate 0 0 @ drop 0 regs)
      = Some (replicate n 0 @ drop n regs)"
  proof (intro for_upto_from_0)
    fix k assume k: "k < n"
    then have "drop k regs = regs ! k # drop (Suc k) regs"
      using n by (simp add: Cons_nth_drop_Suc)
    then show "wr (replicate k 0 @ drop k regs) k 0 = Some (replicate (Suc k) 0 @ drop (Suc k) regs)"
      by (simp add: wr_def upd_mid replicate_append_same)
  qed
  then show ?thesis by simp
qed

lemma mb_slave_init_eq:
  assumes "unat count \<le> length regs"
  shows "mb_slave_init s a regs count = Some (s\<lparr>addr := a,
    holding := replicate (unat count) 0 @ drop (unat count) regs, holding_count := count,
    cnt_frames_ok := 0, cnt_crc_err := 0, cnt_len_err := 0,
    cnt_exceptions := 0, cnt_responses := 0, cnt_broadcast := 0\<rparr>)"
  using init_loop [OF assms] by (simp add: mb_slave_init_def)

section \<open>Properties\<close>

text \<open>C6: \<open>mb_slave_handle\<close> refines the protocol. For a well-formed slave, a request buffer
  that holds \<open>req_len\<close> bytes and a response buffer of at least \<open>MB_ADU_MAX\<close> bytes, whatever
  they hold, it returns without an access outside the request, the register file or the
  response buffer; the result, the new slave and the response bytes are those of
  \<open>slave_spec\<close>, and the response buffer past them keeps its content.\<close>

theorem mb_slave_handle_refines:
  assumes "slave_wf s" and "unat req_len \<le> length req" and "256 \<le> length resp"
  shows "\<exists>resp' resp_len'.
    (case slave_spec s (take (unat req_len) req) of (r, s', adu) \<Rightarrow>
      mb_slave_handle s req req_len resp resp_len = Some (r, s', resp', resp_len') \<and>
      (if r = MB_RESULT_RESPOND
       then resp' = adu @ drop (length adu) resp \<and> unat resp_len' = length adu
       else resp' = resp \<and> resp_len' = resp_len))"
proof -
  obtain r s' adu where spec: "slave_spec s (take (unat req_len) req) = (r, s', adu)"
    by (metis prod_cases3)
  have "mb_slave_handle s (take (unat req_len) req @ drop (unat req_len) req) req_len resp resp_len
      = respond resp resp_len (slave_spec s (take (unat req_len) req))"
    using assms by (intro handle_refines) auto
  moreover have "r = MB_RESULT_RESPOND \<Longrightarrow> length adu \<le> 255"
    using slave_spec_RESPOND(6) spec by blast
  ultimately show ?thesis
    by (auto simp: spec respond_def unat_of_nat_u16)
qed

text \<open>The device of the examples: unit 17 with three registers.\<close>

definition demo_slave :: mb_slave where
  "demo_slave = \<lparr>addr = 17, holding = [10, 20, 30], holding_count = 3, cnt_frames_ok = 0,
     cnt_crc_err = 0, cnt_len_err = 0, cnt_exceptions = 0, cnt_responses = 0, cnt_broadcast = 0\<rparr>"

definition demo_read :: "u8 list" where
  "demo_read = [17, 3, 0, 1, 0, 2, 0x97, 0x5B]"

lemma demo_slave_wf: "slave_wf demo_slave"
  by (simp add: slave_wf_def demo_slave_def)

lemma demo_read_length [simp]: "length demo_read = 8"
  by (simp add: demo_read_def)

lemma demo_read_take: "take (unat (8 :: u16)) demo_read = demo_read"
  by simp

lemma demo_slave_spec:
  "slave_spec demo_slave demo_read = (MB_RESULT_RESPOND,
     demo_slave\<lparr>cnt_frames_ok := 1, cnt_responses := 1\<rparr>, [17, 3, 4, 0, 20, 0, 30, 0x2B, 0xFE])"
  by code_simp

theorem mb_slave_handle_refines_witness:
  "\<exists>resp'. mb_slave_handle demo_slave demo_read 8 (replicate 256 0xAA) 0 =
     Some (MB_RESULT_RESPOND, demo_slave\<lparr>cnt_frames_ok := 1, cnt_responses := 1\<rparr>, resp', 9) \<and>
     take 10 resp' = [17, 3, 4, 0, 20, 0, 30, 0x2B, 0xFE, 0xAA]"
  using mb_slave_handle_refines [of demo_slave 8 demo_read "replicate 256 0xAA" 0, OF demo_slave_wf]
  unfolding demo_read_take demo_slave_spec by (auto simp: u16_eq_iff)

text \<open>C29: A slave answers only for itself and changes only on intact requests. When it responds,
  the request was a unicast request to its own address with a valid CRC, and the response has
  at most 255 bytes, starts with its address and carries a valid CRC. A corrupted request, or
  one for another unit, is never answered and leaves the registers as they are. In every case
  the slave keeps its address, the size of its register file and its invariant.\<close>

theorem mb_slave_handle_guarded:
  assumes "slave_wf s" and "unat req_len \<le> length req" and "256 \<le> length resp"
    and "mb_slave_handle s req req_len resp resp_len = Some (r, s', resp', resp_len')"
  shows "(r = MB_RESULT_RESPOND \<longrightarrow> mb_crc16 req req_len = Some 0 \<and> hd req = addr s \<and> hd req \<noteq> 0 \<and>
      unat resp_len' \<le> 255 \<and> mb_crc16 resp' resp_len' = Some 0 \<and> hd resp' = addr s) \<and>
    (mb_crc16 req req_len \<noteq> Some 0 \<or> hd req \<noteq> 0 \<and> hd req \<noteq> addr s \<longrightarrow>
      r \<noteq> MB_RESULT_RESPOND \<and> holding s' = holding s) \<and>
    slave_wf s' \<and> addr s' = addr s \<and> length (holding s') = length (holding s)"
proof -
  let ?req = "take (unat req_len) req"
  obtain adu where spec: "slave_spec s ?req = (r, s', adu)"
    and resp: "respond resp resp_len (r, s', adu) = Some (r, s', resp', resp_len')"
    using handle_refines [of s resp ?req req_len "drop (unat req_len) req" resp_len] assms
    by (cases "slave_spec s ?req") (auto simp: respond_def split: if_splits)
  have crc: "mb_crc16 req req_len = Some (crc16 ?req)"
    using assms(2) by (rule mb_crc16_safe)
  have hd: "hd ?req = hd req" if "4 \<le> length ?req"
    using that by (cases req) (auto simp: take_Cons')
  have frame: "slave_wf s' \<and> addr s' = addr s \<and> length (holding s') = length (holding s)"
    using slave_spec_wf [OF spec assms(1)] slave_spec_frame [OF spec] by simp
  show ?thesis
  proof (cases "r = MB_RESULT_RESPOND")
    case True
    note ok = slave_spec_RESPOND [OF spec [unfolded True]]
    have "unat (of_nat (length adu) :: u16) = length adu"
      using ok(6) by (simp add: unat_of_nat_u16)
    then have "unat resp_len' = length adu" "resp' = adu @ drop (length adu) resp"
      using resp True by (auto simp: respond_def)
    then show ?thesis
      using ok hd frame crc by (cases adu) (auto simp: mb_crc16_safe)
  next
    case False
    have "holding s' = holding s" if "crc16 ?req \<noteq> 0"
      using slave_spec_corrupt [OF that, of s] spec by simp
    moreover have "holding s' = holding s" if "hd req \<noteq> 0" "hd req \<noteq> addr s"
    proof (cases "4 \<le> length ?req")
      case True
      then show ?thesis using slave_spec_unaddressed [of ?req s] spec that hd by simp
    next
      case False
      then have "length ?req < 4" by linarith
      then show ?thesis using slave_spec_short [of ?req s] spec by simp
    qed
    ultimately show ?thesis
      using False frame crc by auto
  qed
qed

theorem mb_slave_handle_guarded_witness:
  "\<exists>r s' resp' n. mb_slave_handle demo_slave (demo_read[4 := 1]) 8 (replicate 256 0) 0
      = Some (r, s', resp', n) \<and> mb_crc16 (demo_read[4 := 1]) 8 \<noteq> Some 0 \<and>
    r \<noteq> MB_RESULT_RESPOND \<and> holding s' = [10, 20, 30]"
proof -
  let ?req = "demo_read[4 := 1]" and ?s = "demo_slave\<lparr>cnt_crc_err := 1\<rparr>"
  have len: "unat (8 :: u16) \<le> length ?req" by simp
  have run: "mb_slave_handle demo_slave ?req 8 (replicate 256 0) 0 =
      Some (MB_RESULT_BAD_CRC, ?s, replicate 256 0, 0)"
    by code_simp
  have crc: "mb_crc16 ?req 8 \<noteq> Some 0" by code_simp
  have "holding ?s = holding demo_slave"
    using mb_slave_handle_guarded [OF demo_slave_wf len _ run] crc by simp
  then have "holding ?s = [10, 20, 30]"
    by (simp add: demo_slave_def)
  with run crc show ?thesis
    by (intro exI [of _ MB_RESULT_BAD_CRC] exI [of _ ?s] exI [of _ "replicate 256 0"] exI [of _ 0]) simp
qed

text \<open>\<open>mb_slave_init\<close> on a register array that holds \<open>holding_count\<close> entries stays inside it,
  sets the address, clears the registers and every counter, leaves entries past the count, and
  establishes the invariant when the array is exactly that long.\<close>

theorem mb_slave_init_establishes:
  assumes "unat count \<le> length regs"
  shows "\<exists>s'. mb_slave_init s a regs count = Some s' \<and> addr s' = a \<and>
    holding s' = replicate (unat count) 0 @ drop (unat count) regs \<and>
    [cnt_frames_ok s', cnt_crc_err s', cnt_len_err s', cnt_exceptions s', cnt_responses s',
      cnt_broadcast s'] = replicate 6 0 \<and>
    (unat count = length regs \<longrightarrow> slave_wf s')"
  using mb_slave_init_eq [OF assms, of s a] by (simp add: slave_wf_def numeral_eq_Suc)

theorem mb_slave_init_establishes_witness:
  "\<exists>s'. mb_slave_init demo_slave 4 [7, 7, 7] 3 = Some s' \<and> holding s' = [0, 0, 0] \<and> slave_wf s'"
proof -
  have r: "replicate (unat (3 :: u16)) (0 :: u16) @ drop (unat (3 :: u16)) [7, 7, 7] = [0, 0, 0]"
    by code_simp
  have n: "unat (3 :: u16) = length [7, 7, 7 :: u16]" by simp
  show ?thesis
    using mb_slave_init_establishes [of 3 "[7, 7, 7]" demo_slave 4, OF n [THEN eq_imp_le]] n
    unfolding r by blast
qed

end
