(* ===== verification/Rtu_Transport.thy ===== *)
theory Rtu_Transport
  imports Modbus_Slave
begin

text \<open>
  \<open>src/rtu_transport.hpp\<close>: the serial side of the gateway. The C++ interface
  \<open>IRtuTransport\<close> is the locale \<open>rtu_transport\<close>, with two refinements of its contract:
  \<open>addressed_transport\<close> (an intact answer comes from the device the request names) and
  \<open>reliable_transport\<close> (every answer is intact). The in-process backend \<open>InProcessRtu\<close>
  is an instance of all three; the fault injector \<open>FaultyRtu\<close> turns a reliable transport
  into an addressed one.
\<close>

section \<open>The transport interface\<close>

text \<open>
  \<open>transact(req, rsp)\<close> on a transport state: the return value, the output parameter \<open>rsp\<close>
  (whose content before the call is an argument) and the next state.
\<close>

type_synonym 't transact = "'t \<Rightarrow> u8 list \<Rightarrow> u8 list \<Rightarrow> (bool \<times> u8 list \<times> 't) option"

text \<open>The checks the gateway makes on an answer: the shortest RTU frame, and its CRC.\<close>

definition intact :: "u8 list \<Rightarrow> bool" where
  "intact rsp \<longleftrightarrow> 4 \<le> length rsp \<and> crc16 rsp = 0"

locale rtu_transport =
  fixes transact :: "'t transact" and inv :: "'t \<Rightarrow> bool"
  assumes transact_returns:
    "inv t \<Longrightarrow> \<exists>ok rsp' t'. transact t req rsp = Some (ok, rsp', t') \<and> inv t'"

locale addressed_transport = rtu_transport transact inv
  for transact :: "'t transact" and inv :: "'t \<Rightarrow> bool" +
  assumes intact_answer_addressed:
    "inv t \<Longrightarrow> transact t req rsp = Some (True, rsp', t') \<Longrightarrow> length rsp' \<le> 256 \<and>
      (intact rsp' \<longrightarrow> hd rsp' = hd req)"

locale reliable_transport = rtu_transport transact inv
  for transact :: "'t transact" and inv :: "'t \<Rightarrow> bool" +
  assumes answer_intact:
    "inv t \<Longrightarrow> transact t req rsp = Some (True, rsp', t') \<Longrightarrow>
      intact rsp' \<and> length rsp' \<le> 256 \<and> hd rsp' = hd req"

sublocale reliable_transport \<subseteq> addressed_transport
  by unfold_locales (use answer_intact in blast)

section \<open>The in-process backend\<close>

text \<open>
  The mutex \<open>bus_\<close> makes one call of \<open>transact\<close> atomic: it is one function on the state.
\<close>

record in_process =
  slaves :: "mb_slave list"
  regs_per_slave :: u16

text \<open>\<open>Slave\<close> with its value-initialised \<open>ctx{}\<close>.\<close>

definition zero_slave :: mb_slave where
  "zero_slave = \<lparr>addr = 0, holding = [], holding_count = 0, cnt_frames_ok = 0, cnt_crc_err = 0,
     cnt_len_err = 0, cnt_exceptions = 0, cnt_responses = 0, cnt_broadcast = 0\<rparr>"

definition new_slave :: "u16 \<Rightarrow> u8 \<Rightarrow> mb_slave option" where
  "new_slave regs uid = do {
     s \<leftarrow> mb_slave_init zero_slave uid (replicate (unat regs) 0) regs;
     hold \<leftarrow> for_upto 0 (unat regs)
       (\<lambda>i hold. wr hold i (push_bit 8 (ucast uid) OR of_nat i)) (holding s);
     Some (s\<lparr>holding := hold\<rparr>)
   }"

fun new_slaves :: "u16 \<Rightarrow> u8 list \<Rightarrow> mb_slave list option" where
  "new_slaves regs [] = Some []"
| "new_slaves regs (uid # ids) = do {
     s \<leftarrow> new_slave regs uid;
     ss \<leftarrow> new_slaves regs ids;
     Some (s # ss)
   }"

definition new_in_process :: "u8 list \<Rightarrow> u16 \<Rightarrow> in_process option" where
  "new_in_process unit_ids regs = do {
     ss \<leftarrow> new_slaves regs unit_ids;
     Some \<lparr>slaves = ss, regs_per_slave = regs\<rparr>
   }"

text \<open>
  The loop over \<open>slaves_\<close> ends at the first slave that responds. The stack buffer
  \<open>resp_buf\<close> is not initialised: its content is the argument \<open>garbage\<close>.
\<close>

fun poll_slaves ::
    "mb_slave list \<Rightarrow> u8 list \<Rightarrow> u8 list \<Rightarrow> u8 list \<Rightarrow> u16 \<Rightarrow> (bool \<times> u8 list \<times> mb_slave list) option"
where
  "poll_slaves [] req rsp resp_buf resp_len = Some (False, rsp, [])"
| "poll_slaves (s # ss) req rsp resp_buf resp_len = do {
     (r, s', resp_buf, resp_len) \<leftarrow> mb_slave_handle s req (of_nat (length req)) resp_buf resp_len;
     if r = MB_RESULT_RESPOND then do {
       out \<leftarrow> rd_range resp_buf 0 (unat resp_len);
       Some (True, out, s' # ss)
     } else do {
       (ok, rsp, ss') \<leftarrow> poll_slaves ss req rsp resp_buf resp_len;
       Some (ok, rsp, s' # ss')
     }
   }"

definition in_process_transact :: "(nat \<Rightarrow> u8) \<Rightarrow> in_process transact" where
  "in_process_transact garbage t req rsp =
     (if req = [] then Some (False, rsp, t)
      else do {
        (ok, rsp, ss) \<leftarrow> poll_slaves (slaves t) req rsp (map garbage [0..<unat MB_ADU_MAX]) 0;
        Some (ok, rsp, t\<lparr>slaves := ss\<rparr>)
      })"

section \<open>The bus on byte lists\<close>

text \<open>The part of a request the slaves see: \<open>static_cast<std::uint16_t>(req.size())\<close> bytes.\<close>

definition seen :: "u8 list \<Rightarrow> u8 list" where
  "seen req = take (length req mod 65536) req"

fun poll_spec :: "mb_slave list \<Rightarrow> u8 list \<Rightarrow> u8 list option \<times> mb_slave list" where
  "poll_spec [] req = (None, [])"
| "poll_spec (s # ss) req = (case slave_spec s req of (r, s', adu) \<Rightarrow>
     if r = MB_RESULT_RESPOND then (Some adu, s' # ss)
     else (case poll_spec ss req of (out, ss') \<Rightarrow> (out, s' # ss')))"

definition in_process_wf :: "in_process \<Rightarrow> bool" where
  "in_process_wf t \<longleftrightarrow> list_all slave_wf (slaves t)"

lemma seen_append: "req = seen req @ drop (length req mod 65536) req"
  by (simp add: seen_def)

lemma length_seen: "length (seen req) = unat (of_nat (length req) :: u16)"
  by (simp add: seen_def unat_of_nat min_def)

lemma seen_short [simp]: "length req < 65536 \<Longrightarrow> seen req = req"
  by (simp add: seen_def)

lemma poll_slaves_refines:
  assumes "list_all slave_wf ss" and "256 \<le> length buf"
  shows "poll_slaves ss req rsp buf rl = (case poll_spec ss (seen req) of
    (None, ss') \<Rightarrow> Some (False, rsp, ss') | (Some adu, ss') \<Rightarrow> Some (True, adu, ss'))"
  using assms
proof (induction ss)
  case (Cons s ss)
  obtain r s' adu where spec: "slave_spec s (seen req) = (r, s', adu)"
    by (metis prod_cases3)
  have "mb_slave_handle s (seen req @ drop (length req mod 65536) req) (of_nat (length req)) buf rl
      = respond buf rl (slave_spec s (seen req))"
    using Cons.prems by (intro handle_refines) (auto simp: length_seen)
  then have handle: "mb_slave_handle s req (of_nat (length req)) buf rl = respond buf rl (r, s', adu)"
    by (simp add: seen_append [symmetric] spec)
  show ?case
  proof (cases "r = MB_RESULT_RESPOND")
    case True
    have "length adu \<le> 255"
      using slave_spec_RESPOND(6) spec True by blast
    then have "unat (of_nat (length adu) :: u16) = length adu"
      by (simp add: unat_of_nat_u16)
    then show ?thesis
      using True spec handle by (simp add: respond_def)
  next
    case False
    then show ?thesis
      using Cons spec handle by (simp add: respond_def split: prod.splits option.splits)
  qed
qed simp

lemma in_process_transact_eq:
  assumes "in_process_wf t"
  shows "in_process_transact garbage t req rsp =
    (if req = [] then Some (False, rsp, t)
     else case poll_spec (slaves t) (seen req) of
       (None, ss) \<Rightarrow> Some (False, rsp, t\<lparr>slaves := ss\<rparr>)
     | (Some adu, ss) \<Rightarrow> Some (True, adu, t\<lparr>slaves := ss\<rparr>))"
  using assms
  by (simp add: in_process_transact_def in_process_wf_def poll_slaves_refines MB_ADU_MAX_def
      split: prod.splits option.splits)

lemma poll_spec_wf:
  "list_all slave_wf ss \<Longrightarrow> list_all slave_wf (snd (poll_spec ss req))"
  by (induction ss) (auto split: prod.splits dest: slave_spec_wf)

lemma poll_spec_addrs: "map addr (snd (poll_spec ss req)) = map addr ss"
  by (induction ss) (auto split: prod.splits dest: slave_spec_frame)

lemma poll_spec_answer:
  "poll_spec ss req = (Some adu, ss') \<Longrightarrow> \<exists>s s'. slave_spec s req = (MB_RESULT_RESPOND, s', adu)"
  by (induction ss arbitrary: ss') (auto split: prod.splits if_splits)

lemma hd_seen: "4 \<le> length (seen req) \<Longrightarrow> hd (seen req) = hd req"
  by (cases req) (auto simp: seen_def take_Cons')

interpretation inproc: reliable_transport "in_process_transact garbage" in_process_wf for garbage
proof unfold_locales
  fix t req rsp
  assume "in_process_wf t"
  then show "\<exists>ok rsp' t'. in_process_transact garbage t req rsp = Some (ok, rsp', t') \<and> in_process_wf t'"
    using poll_spec_wf [of "slaves t" "seen req"]
    by (auto simp: in_process_transact_eq in_process_wf_def split: prod.splits option.splits)
next
  fix t req rsp rsp' t'
  assume "in_process_wf t" and "in_process_transact garbage t req rsp = Some (True, rsp', t')"
  then obtain ss where "poll_spec (slaves t) (seen req) = (Some rsp', ss)"
    by (auto simp: in_process_transact_eq split: prod.splits option.splits if_splits)
  then obtain s s' where "slave_spec s (seen req) = (MB_RESULT_RESPOND, s', rsp')"
    using poll_spec_answer by blast
  then show "intact rsp' \<and> length rsp' \<le> 256 \<and> hd rsp' = hd req"
    using slave_spec_RESPOND [of s "seen req" s' rsp'] hd_seen [of req] by (simp add: intact_def)
qed

section \<open>Construction and addressing\<close>

definition seeded_slave :: "u16 \<Rightarrow> u8 \<Rightarrow> mb_slave" where
  "seeded_slave regs uid = zero_slave\<lparr>addr := uid, holding_count := regs,
     holding := map (\<lambda>i. push_bit 8 (ucast uid) OR of_nat i) [0..<unat regs]\<rparr>"

lemma fill_loop:
  "for_upto 0 n (\<lambda>i hold. wr hold i (f i)) (replicate n z) = Some (map f [0..<n])"
proof -
  have "for_upto 0 n (\<lambda>i hold. wr hold i (f i)) (map f [0..<0] @ replicate (n - 0) z)
      = Some (map f [0..<n] @ replicate (n - n) z)"
  proof (intro for_upto_from_0)
    fix k assume "k < n"
    then have "replicate (n - k) z = z # replicate (n - Suc k) z"
      by (simp add: Suc_diff_Suc flip: replicate_Suc)
    then show "wr (map f [0..<k] @ replicate (n - k) z) k (f k)
        = Some (map f [0..<Suc k] @ replicate (n - Suc k) z)"
      by (simp add: wr_def upd_mid)
  qed
  then show ?thesis by simp
qed

lemma new_slave_eq: "new_slave regs uid = Some (seeded_slave regs uid)"
  by (simp add: new_slave_def mb_slave_init_eq fill_loop seeded_slave_def zero_slave_def)

lemma new_slaves_eq: "new_slaves regs ids = Some (map (seeded_slave regs) ids)"
  by (induction ids) (simp_all add: new_slave_eq)

lemma new_in_process_eq:
  "new_in_process ids regs = Some \<lparr>slaves = map (seeded_slave regs) ids, regs_per_slave = regs\<rparr>"
  by (simp add: new_in_process_def new_slaves_eq)

lemma slave_wf_seeded [simp]: "slave_wf (seeded_slave regs uid)"
  by (simp add: slave_wf_def seeded_slave_def)

lemma new_in_process_wf: "new_in_process ids regs = Some t \<Longrightarrow> in_process_wf t"
  by (auto simp: new_in_process_eq in_process_wf_def list_all_iff)

text \<open>A unicast request to an absent unit finds no responder.\<close>

lemma poll_spec_miss:
  assumes "4 \<le> length req" "length req \<le> 256" and "crc16 req = 0" and "hd req \<noteq> 0"
    and "\<forall>s \<in> set ss. addr s \<noteq> hd req"
  shows "poll_spec ss req = (None, ss)"
  using assms by (induction ss) (auto simp: slave_spec_def)

section \<open>Fault injection\<close>

text \<open>
  The generator \<open>std::mt19937\<close> and its distributions are arguments: \<open>below rate g\<close> is the
  outcome of \<open>u(rng_) < rate\<close> with the next generator state, \<open>pick n g\<close> a draw of
  \<open>std::uniform_int_distribution<std::size_t>(0, n)\<close>. What is used of the latter is its
  documented range, \<open>fst (pick n g) \<le> n\<close>. The type \<open>'d\<close> stands for \<open>double\<close>.
\<close>

record 'd fault_config =
  drop_rate :: 'd
  corrupt_rate :: 'd
  seed :: u32

record ('t, 'g, 'd) faulty =
  inner :: 't
  cfg :: "'d fault_config"
  rng :: 'g
  dropped :: u64
  corrupted :: u64

definition new_faulty :: "(u32 \<Rightarrow> 'g) \<Rightarrow> 't \<Rightarrow> 'd fault_config \<Rightarrow> ('t, 'g, 'd) faulty" where
  "new_faulty mt19937 t c =
     \<lparr>inner = t, cfg = c, rng = mt19937 (seed c), dropped = 0, corrupted = 0\<rparr>"

definition faulty_transact ::
    "('d \<Rightarrow> 'g \<Rightarrow> bool \<times> 'g) \<Rightarrow> (nat \<Rightarrow> 'g \<Rightarrow> nat \<times> 'g) \<Rightarrow> 't transact \<Rightarrow> ('t, 'g, 'd) faulty transact"
where
  "faulty_transact below pick inner_transact t req rsp = do {
     let (drop_it, g) = below (drop_rate (cfg t)) (rng t);
     let t = t\<lparr>rng := g\<rparr>;
     if drop_it then Some (False, rsp, t\<lparr>dropped := dropped t + 1\<rparr>)
     else do {
       (ok, rsp, inner') \<leftarrow> inner_transact (inner t) req rsp;
       let t = t\<lparr>inner := inner'\<rparr>;
       if \<not> ok then Some (False, rsp, t)
       else if rsp = [] then Some (True, rsp, t)
       else do {
         let (corrupt_it, g) = below (corrupt_rate (cfg t)) (rng t);
         let t = t\<lparr>rng := g\<rparr>;
         if \<not> corrupt_it then Some (True, rsp, t)
         else do {
           let (i, g) = pick (length rsp - 1) (rng t);
           b \<leftarrow> rd rsp i;
           rsp \<leftarrow> wr rsp i (b XOR 0x01);
           Some (True, rsp, t\<lparr>rng := g, corrupted := corrupted t + 1\<rparr>)
         }
       }
     }
   }"

lemma flip_neq: "(b :: u8) XOR 1 \<noteq> b"
proof
  assume "b XOR 1 = b"
  then have "bit (b XOR 1) 0 = bit b 0" by simp
  then show False by (simp add: bit_xor_iff)
qed

lemma crc16_flip: "i < length xs \<Longrightarrow> crc16 xs = 0 \<Longrightarrow> crc16 (xs[i := xs ! i XOR 1]) \<noteq> 0"
  using crc16_update_iff [of i xs "xs ! i XOR 1"] flip_neq by metis

text \<open>What becomes of a request below the fault injector.\<close>

context rtu_transport
begin

lemma faulty_cases:
  fixes t :: "('t, 'g, 'd) faulty"
  assumes "\<And>n g. fst (pick n g) \<le> n" and "inv (inner t)"
  obtains (dropped) t' where
      "faulty_transact below pick transact t req rsp = Some (False, rsp, t')"
      "inner t' = inner t" "dropped t' = dropped t + 1" "corrupted t' = corrupted t"
  | (lost) rsp' t' i' where
      "faulty_transact below pick transact t req rsp = Some (False, rsp', t')"
      "transact (inner t) req rsp = Some (False, rsp', i')" "inner t' = i'" "inv i'"
      "dropped t' = dropped t" "corrupted t' = corrupted t"
  | (clean) rsp' t' i' where
      "faulty_transact below pick transact t req rsp = Some (True, rsp', t')"
      "transact (inner t) req rsp = Some (True, rsp', i')" "inner t' = i'" "inv i'"
      "dropped t' = dropped t" "corrupted t' = corrupted t"
  | (flipped) orig i rsp' t' i' where
      "faulty_transact below pick transact t req rsp = Some (True, rsp', t')"
      "transact (inner t) req rsp = Some (True, orig, i')" "inner t' = i'" "inv i'"
      "i < length orig" "rsp' = orig[i := orig ! i XOR 1]"
      "dropped t' = dropped t" "corrupted t' = corrupted t + 1"
proof -
  obtain ok rsp1 i' where tr: "transact (inner t) req rsp = Some (ok, rsp1, i')" and inv': "inv i'"
    using transact_returns [OF assms(2)] by metis
  obtain b1 g1 where d1: "below (drop_rate (cfg t)) (rng t) = (b1, g1)" by fastforce
  obtain b2 g2 where d2: "below (corrupt_rate (cfg t)) g1 = (b2, g2)" by fastforce
  obtain i g3 where d3: "pick (length rsp1 - 1) g2 = (i, g3)" by fastforce
  consider "b1" | "\<not> b1" "\<not> ok" | "\<not> b1" "ok" "rsp1 = [] \<or> \<not> b2"
    | "\<not> b1" "ok" "rsp1 \<noteq> []" "b2" by blast
  then show thesis
  proof cases
    case 1
    then show ?thesis
      using d1 dropped [of "t\<lparr>rng := g1, dropped := dropped t + 1\<rparr>"]
      by (simp add: faulty_transact_def)
  next
    case 2
    then show ?thesis
      using d1 tr inv' lost [of rsp1 "t\<lparr>rng := g1, inner := i'\<rparr>"]
      by (simp add: faulty_transact_def)
  next
    case 3
    then show ?thesis
      using d1 d2 tr inv' clean [of rsp1 "t\<lparr>rng := if rsp1 = [] then g1 else g2, inner := i'\<rparr>" i']
      by (auto simp: faulty_transact_def)
  next
    case 4
    then have "i < length rsp1"
      using assms(1) [of "length rsp1 - 1" g2] d3 by (cases rsp1) auto
    then show ?thesis
      using 4 d1 d2 d3 tr inv' flipped [of "rsp1[i := rsp1 ! i XOR 1]"
          "t\<lparr>rng := g3, inner := i', corrupted := corrupted t + 1\<rparr>" rsp1 i' i]
      by (simp add: faulty_transact_def)
  qed
qed

lemma faulty_returns:
  fixes below :: "'d \<Rightarrow> 'g \<Rightarrow> bool \<times> 'g"
  assumes "\<And>n g. fst (pick n g) \<le> n"
  shows "rtu_transport (faulty_transact below pick transact) (\<lambda>t. inv (inner t))"
proof unfold_locales
  fix t :: "('t, 'g, 'd) faulty" and req rsp
  assume "inv (inner t)"
  then show "\<exists>ok rsp' t'. faulty_transact below pick transact t req rsp = Some (ok, rsp', t') \<and> inv (inner t')"
    by (cases rule: faulty_cases [where t = t and below = below and pick = pick
          and req = req and rsp = rsp, OF assms])
      auto
qed

end

text \<open>
  Over a reliable transport an injected fault is never silent: the call fails, or the
  answer is the device's own, or it is not intact.
\<close>

context reliable_transport
begin

lemma faulty_addressed:
  fixes below :: "'d \<Rightarrow> 'g \<Rightarrow> bool \<times> 'g"
  assumes "\<And>n g. fst (pick n g) \<le> n"
  shows "addressed_transport (faulty_transact below pick transact) (\<lambda>t. inv (inner t))"
proof (intro addressed_transport.intro faulty_returns [OF assms] addressed_transport_axioms.intro)
  fix t t' :: "('t, 'g, 'd) faulty" and req rsp rsp'
  assume inv: "inv (inner t)"
    and eq: "faulty_transact below pick transact t req rsp = Some (True, rsp', t')"
  from assms inv show "length rsp' \<le> 256 \<and> (intact rsp' \<longrightarrow> hd rsp' = hd req)"
  proof (cases rule: faulty_cases [where t = t and below = below and pick = pick
          and req = req and rsp = rsp])
    case (flipped orig i)
    then have "intact orig" "length orig \<le> 256"
      using answer_intact inv by blast+
    then show ?thesis
      using flipped eq crc16_flip [of i orig] by (simp add: intact_def)
  qed (use eq answer_intact inv in auto)
qed

end

end
