(* ===== verification/Gateway.thy ===== *)
theory Gateway
  imports Mbap Rtu_Transport
begin

text \<open>
  \<open>src/gateway.hpp\<close> and \<open>src/gateway.cpp\<close>: translation between TCP and RTU frames and
  \<open>Gateway::handle\<close> over any \<open>IRtuTransport\<close>. The lemmas that hold for every transport
  are proved in the locales of \<open>Rtu_Transport\<close>; over the in-process backend the gateway is
  shown to refine a bus of register files, one per unit id (\<open>bus_request\<close>).
\<close>

section \<open>The code\<close>

record gateway_stats =
  requests :: u64
  responses :: u64
  timeouts :: u64
  crc_failures :: u64
  bad_unit :: u64
  malformed :: u64

definition tcp_to_rtu :: "mbap_frame \<Rightarrow> u8 list option" where
  "tcp_to_rtu f = do {
     let rtu = unit_id f # pdu f;
     crc \<leftarrow> mb_crc16 rtu (of_nat (length rtu));
     Some (rtu @ [lo8 crc, hi8 crc])
   }"

definition rtu_to_tcp :: "u8 list \<Rightarrow> u16 \<Rightarrow> mbap_frame option option" where
  "rtu_to_tcp rtu txn =
     (if length rtu < 4 then Some None
      else do {
        crc \<leftarrow> mb_crc16 rtu (of_nat (length rtu));
        if crc \<noteq> 0 then Some None
        else do {
          u \<leftarrow> rd rtu 0;
          body \<leftarrow> rd_range rtu 1 (length rtu - 2);
          Some (Some \<lparr>transaction_id = txn, protocol_id = 0, unit_id = u, pdu = body\<rparr>)
        }
      })"

definition gateway_handle ::
    "'t transact \<Rightarrow> 't \<Rightarrow> gateway_stats \<Rightarrow> mbap_frame \<Rightarrow> (mbap_frame \<times> 't \<times> gateway_stats) option"
where
  "gateway_handle transact t stats req = do {
     let stats = stats\<lparr>requests := requests stats + 1\<rparr>;
     let fc = (case pdu req of [] \<Rightarrow> 0 | b # _ \<Rightarrow> b);
     if pdu req = [] then
       Some (make_exception (transaction_id req) (unit_id req) 0 EX_GATEWAY_PATH_UNAVAILABLE,
             t, stats\<lparr>malformed := malformed stats + 1\<rparr>)
     else do {
       rtu_req \<leftarrow> tcp_to_rtu req;
       (ok, rtu_rsp, t) \<leftarrow> transact t rtu_req [];
       if \<not> ok then
         Some (make_exception (transaction_id req) (unit_id req) fc EX_GATEWAY_TARGET_NO_RESPONSE,
               t, stats\<lparr>timeouts := timeouts stats + 1\<rparr>)
       else do {
         tcp_rsp \<leftarrow> rtu_to_tcp rtu_rsp (transaction_id req);
         case tcp_rsp of
           None \<Rightarrow>
             Some (make_exception (transaction_id req) (unit_id req) fc EX_GATEWAY_TARGET_NO_RESPONSE,
                   t, stats\<lparr>crc_failures := crc_failures stats + 1\<rparr>)
         | Some f \<Rightarrow> Some (f, t, stats\<lparr>responses := responses stats + 1\<rparr>)
       }
     }
   }"

section \<open>Frame translation\<close>

lemma unat_of_nat_u16_le: "unat (of_nat n :: u16) \<le> n"
  by (simp add: unat_of_nat)

lemma tcp_to_rtu_eq:
  "length (pdu f) < 65535 \<Longrightarrow> tcp_to_rtu f = Some (seal_adu (unit_id f # pdu f))"
  by (simp add: tcp_to_rtu_def mb_crc16_safe unat_of_nat_u16 seal_adu_def Let_def
      del: of_nat_Suc)

lemma tcp_to_rtu_total: "\<exists>rtu. tcp_to_rtu f = Some rtu \<and> hd rtu = unit_id f"
  using mb_crc16_safe [OF unat_of_nat_u16_le [of "length (unit_id f # pdu f)"
      , THEN order_trans, OF order_refl]]
  by (simp add: tcp_to_rtu_def Let_def del: of_nat_Suc)

text \<open>The TCP frame of an intact RTU frame.\<close>

definition frame_of_adu :: "u8 list \<Rightarrow> u16 \<Rightarrow> mbap_frame" where
  "frame_of_adu rtu txn = \<lparr>transaction_id = txn, protocol_id = 0, unit_id = hd rtu,
     pdu = take (length rtu - 3) (tl rtu)\<rparr>"

lemma rd_adu:
  assumes "4 \<le> length rtu"
  shows "rd rtu 0 = Some (hd rtu)"
    and "rd_range rtu 1 (length rtu - 2) = Some (take (length rtu - 3) (tl rtu))"
proof -
  have "rtu \<noteq> []" using assms by auto
  then show "rd rtu 0 = Some (hd rtu)" by (simp add: hd_conv_nth)
  have "length rtu - 2 - 1 = length rtu - 3" by simp
  then show "rd_range rtu 1 (length rtu - 2) = Some (take (length rtu - 3) (tl rtu))"
    using assms by (simp add: rd_range_def drop_Suc)
qed

lemma rtu_to_tcp_eq:
  assumes "length rtu < 65536"
  shows "rtu_to_tcp rtu txn = Some (if intact rtu then Some (frame_of_adu rtu txn) else None)"
proof -
  have "mb_crc16 rtu (of_nat (length rtu)) = Some (crc16 rtu)"
    using assms by (simp add: mb_crc16_safe unat_of_nat_u16)
  then show ?thesis
    using rd_adu [of rtu] by (simp add: rtu_to_tcp_def intact_def frame_of_adu_def)
qed

lemma rtu_to_tcp_total:
  "\<exists>r. rtu_to_tcp rtu txn = Some r \<and> (\<forall>f. r = Some f \<longrightarrow> transaction_id f = txn \<and> protocol_id f = 0)"
  using mb_crc16_safe [OF unat_of_nat_u16_le, of rtu] rd_adu [of rtu]
  by (auto simp: rtu_to_tcp_def)

lemma intact_seal_adu [simp]: "intact (seal_adu (a # b # body))"
  by (simp add: intact_def)

lemma frame_of_seal_adu [simp]:
  "frame_of_adu (seal_adu (u # p)) txn =
    \<lparr>transaction_id = txn, protocol_id = 0, unit_id = u, pdu = p\<rparr>"
  by (simp add: frame_of_adu_def seal_adu_def)

lemma wf_frame_of_adu: "intact rtu \<Longrightarrow> length rtu \<le> 256 \<Longrightarrow> wf_frame (frame_of_adu rtu txn)"
  by (cases rtu) (auto simp: wf_frame_def frame_of_adu_def intact_def mbap_consts)

section \<open>Handling a request over any transport\<close>

lemma gateway_handle_nonempty:
  assumes "pdu req \<noteq> []" and "tcp_to_rtu req = Some adu"
    and "transact t adu [] = Some (ok, rsp, t')"
  shows "gateway_handle transact t stats req = (let stats = stats\<lparr>requests := requests stats + 1\<rparr> in
    if \<not> ok then
      Some (make_exception (transaction_id req) (unit_id req) (hd (pdu req))
              EX_GATEWAY_TARGET_NO_RESPONSE, t', stats\<lparr>timeouts := timeouts stats + 1\<rparr>)
    else case rtu_to_tcp rsp (transaction_id req) of
      None \<Rightarrow> None
    | Some None \<Rightarrow>
        Some (make_exception (transaction_id req) (unit_id req) (hd (pdu req))
                EX_GATEWAY_TARGET_NO_RESPONSE, t', stats\<lparr>crc_failures := crc_failures stats + 1\<rparr>)
    | Some (Some f) \<Rightarrow> Some (f, t', stats\<lparr>responses := responses stats + 1\<rparr>))"
  using assms
  by (auto simp: gateway_handle_def Let_def split: list.splits option.splits)

definition outcomes :: "gateway_stats \<Rightarrow> u64" where
  "outcomes s = responses s + timeouts s + crc_failures s + malformed s"

text \<open>Exactly one of the outcome counters went up.\<close>

definition one_outcome :: "gateway_stats \<Rightarrow> gateway_stats \<Rightarrow> bool" where
  "one_outcome st st' \<longleftrightarrow> st' \<in> {st\<lparr>responses := responses st + 1\<rparr>, st\<lparr>timeouts := timeouts st + 1\<rparr>,
     st\<lparr>crc_failures := crc_failures st + 1\<rparr>, st\<lparr>malformed := malformed st + 1\<rparr>}"

lemma gateway_handle_counts:
  assumes "gateway_handle transact t st req = Some (rsp, t', st')"
  shows "one_outcome (st\<lparr>requests := requests st + 1\<rparr>) st' \<and>
    (pdu req \<noteq> [] \<longrightarrow> malformed st' = malformed st)"
proof (cases "pdu req = []")
  case True
  then show ?thesis
    using assms by (auto simp: gateway_handle_def one_outcome_def Let_def)
next
  case False
  obtain adu where adu: "tcp_to_rtu req = Some adu"
    using tcp_to_rtu_total by blast
  obtain ok out u where tr: "transact t adu [] = Some (ok, out, u)"
    using assms False adu by (auto simp: gateway_handle_def Let_def bind_eq_Some_conv)
  obtain r where "rtu_to_tcp out (transaction_id req) = Some r"
    using rtu_to_tcp_total by blast
  then show ?thesis
    using assms
    by (auto simp: gateway_handle_nonempty [where transact = transact, OF False adu tr] Let_def one_outcome_def
        split: if_splits option.splits)
qed

lemma make_exception_simps [simp]:
  "transaction_id (make_exception t u fc ec) = t" "unit_id (make_exception t u fc ec) = u"
  "protocol_id (make_exception t u fc ec) = 0" "pdu (make_exception t u fc ec) = [fc OR 0x80, ec]"
  by (simp_all add: make_exception_def)

text \<open>Without a counted response, the master gets an exception frame of the gateway.\<close>

lemma gateway_handle_refusal:
  assumes "gateway_handle transact t st req = Some (rsp, t', st')" and "responses st' = responses st"
  shows "unit_id rsp = unit_id req \<and> wf_frame rsp"
proof (cases "pdu req = []")
  case True
  then show ?thesis
    using assms by (auto simp: gateway_handle_def Let_def)
next
  case False
  obtain adu where adu: "tcp_to_rtu req = Some adu"
    using tcp_to_rtu_total by blast
  obtain ok out u where tr: "transact t adu [] = Some (ok, out, u)"
    using assms(1) False adu by (auto simp: gateway_handle_def Let_def bind_eq_Some_conv)
  obtain r where "rtu_to_tcp out (transaction_id req) = Some r"
    using rtu_to_tcp_total by blast
  then show ?thesis
    using assms
    by (auto simp: gateway_handle_nonempty [where transact = transact, OF False adu tr] Let_def
        split: if_splits option.splits)
qed

context rtu_transport
begin

text \<open>Every request gets exactly one response, and it carries the request's transaction id.\<close>

lemma handle_responds:
  assumes "inv t"
  shows "\<exists>rsp t' st'. gateway_handle transact t st req = Some (rsp, t', st') \<and> inv t' \<and>
    transaction_id rsp = transaction_id req \<and> protocol_id rsp = 0 \<and>
    requests st' = requests st + 1 \<and> outcomes st' = outcomes st + 1 \<and> bad_unit st' = bad_unit st"
proof (cases "pdu req = []")
  case True
  then show ?thesis
    using assms by (simp add: gateway_handle_def outcomes_def Let_def)
next
  case False
  obtain adu where adu: "tcp_to_rtu req = Some adu"
    using tcp_to_rtu_total by blast
  obtain ok rsp t' where tr: "transact t adu [] = Some (ok, rsp, t')" and inv': "inv t'"
    using transact_returns [OF assms] by metis
  note handle = gateway_handle_nonempty [where transact = transact, OF False adu tr]
  obtain r where r: "rtu_to_tcp rsp (transaction_id req) = Some r"
    and f: "\<forall>f. r = Some f \<longrightarrow> transaction_id f = transaction_id req \<and> protocol_id f = 0"
    using rtu_to_tcp_total by metis
  consider "\<not> ok" | "ok" "r = None" | f where "ok" "r = Some f" by blast
  then show ?thesis
  proof cases
    case 3
    then have "transaction_id f = transaction_id req" "protocol_id f = 0" using f by auto
    then show ?thesis using 3 inv' by (simp add: handle r outcomes_def Let_def)
  qed (use inv' in \<open>simp_all add: handle r outcomes_def Let_def\<close>)
qed

end

context addressed_transport
begin

text \<open>Over an addressed transport the response also carries the unit id and fits its frame.\<close>

lemma handle_addressed:
  assumes "inv t" and "length (pdu req) \<le> 253"
    and "gateway_handle transact t st req = Some (rsp, t', st')"
  shows "unit_id rsp = unit_id req \<and> wf_frame rsp"
proof (cases "pdu req = []")
  case True
  then show ?thesis
    using assms by (auto simp: gateway_handle_def Let_def)
next
  case False
  have adu: "tcp_to_rtu req = Some (seal_adu (unit_id req # pdu req))"
    using assms(2) by (simp add: tcp_to_rtu_eq)
  obtain ok out u where tr: "transact t (seal_adu (unit_id req # pdu req)) [] = Some (ok, out, u)"
    using transact_returns [OF assms(1)] by metis
  show ?thesis
  proof (cases ok)
    case True
    then have len: "length out \<le> 256" and hd: "intact out \<longrightarrow> hd out = unit_id req"
      using intact_answer_addressed [OF assms(1)] tr by force+
    then show ?thesis
      using assms(3) True wf_frame_of_adu [of out "transaction_id req"]
      by (auto simp: gateway_handle_nonempty [where transact = transact, OF False adu tr] rtu_to_tcp_eq frame_of_adu_def
          split: if_splits)
  next
    case no: False
    then show ?thesis
      using assms(3) by (auto simp: gateway_handle_nonempty [where transact = transact, OF False adu tr] Let_def)
  qed
qed

end

section \<open>Handling a request over a reliable transport\<close>

text \<open>The gateway exception \<open>0x0B\<close> for a request.\<close>

definition no_answer :: "mbap_frame \<Rightarrow> mbap_frame" where
  "no_answer req = make_exception (transaction_id req) (unit_id req) (hd (pdu req))
     EX_GATEWAY_TARGET_NO_RESPONSE"

context reliable_transport
begin

lemma handle_reliable:
  assumes "inv t" and "wf_frame req"
    and "transact t (seal_adu (unit_id req # pdu req)) [] = Some (ok, out, t')"
  shows "gateway_handle transact t st req = (let st = st\<lparr>requests := requests st + 1\<rparr> in
    if ok then Some (frame_of_adu out (transaction_id req), t', st\<lparr>responses := responses st + 1\<rparr>)
    else Some (no_answer req, t', st\<lparr>timeouts := timeouts st + 1\<rparr>))"
proof -
  have req: "pdu req \<noteq> []" "tcp_to_rtu req = Some (seal_adu (unit_id req # pdu req))"
    using assms(2) by (auto simp: wf_frame_def mbap_consts tcp_to_rtu_eq)
  show ?thesis
  proof (cases ok)
    case True
    then have "intact out" "length out \<le> 256"
      using answer_intact [OF assms(1), of _ "[]" out t'] assms(3) by auto
    then show ?thesis
      using True
      by (simp add: gateway_handle_nonempty [where transact = transact, OF req assms(3)]
          rtu_to_tcp_eq Let_def)
  next
    case False
    then show ?thesis
      by (simp add: gateway_handle_nonempty [where transact = transact, OF req assms(3)]
          no_answer_def Let_def)
  qed
qed

end

section \<open>The bus the gateway implements\<close>

text \<open>
  An abstract bus maps each unit id to the register file of its device. \<open>bus_request\<close> is
  what a master may expect of the gateway over the in-process backend: the addressed
  device's answer, exception \<open>0x0B\<close> where there is none, and a broadcast applied to every
  device without an answer.
\<close>

type_synonym bus = "u8 \<Rightarrow> u16 list option"

definition written :: "u8 list \<Rightarrow> u16 list \<Rightarrow> u16 list" where
  "written p regs = (case serve_pdu regs p of Reply _ regs' \<Rightarrow> regs' | _ \<Rightarrow> regs)"

definition bus_request :: "bus \<Rightarrow> mbap_frame \<Rightarrow> mbap_frame \<times> bus" where
  "bus_request bus req =
     (if unit_id req = 0 then (no_answer req, \<lambda>a. map_option (written (pdu req)) (bus a))
      else case bus (unit_id req) of
        None \<Rightarrow> (no_answer req, bus)
      | Some regs \<Rightarrow> (case serve_pdu regs (pdu req) of
          Malformed \<Rightarrow> (no_answer req, bus)
        | Except c \<Rightarrow>
            (make_exception (transaction_id req) (unit_id req) (hd (pdu req)) c, bus)
        | Reply body regs' \<Rightarrow>
            (\<lparr>transaction_id = transaction_id req, protocol_id = 0, unit_id = unit_id req,
              pdu = body\<rparr>, bus(unit_id req \<mapsto> regs'))))"

definition bus_of :: "mb_slave list \<Rightarrow> bus" where
  "bus_of ss a = (if a = 0 then None else map_of (map (\<lambda>s. (addr s, holding s)) ss) a)"

lemma slave_spec_frame_adu:
  assumes "1 \<le> length p" and "length p \<le> 253"
  shows "slave_spec s (seal_adu (u # p)) =
    (if u \<noteq> 0 \<and> u \<noteq> addr s then (MB_RESULT_SILENT, s, [])
     else answer (u = 0) (count_frame (u = 0) s) (hd p) (serve_pdu (holding s) p))"
proof -
  have "seal_adu (v # p) ! 1 = hd p"
    and "take (length (seal_adu (v # p)) - 3) (tl (seal_adu (v # p))) = p" for v
    using assms(1) by (cases p; simp add: seal_adu_def)+
  moreover have "p \<noteq> []" using assms(1) by auto
  ultimately show ?thesis
    using assms by (simp add: slave_spec_def)
qed

lemma answer_broadcast:
  "\<exists>r s'. answer True (count_frame b s) fc (serve_pdu (holding s) p) = (r, s', []) \<and>
    r \<noteq> MB_RESULT_RESPOND \<and> addr s' = addr s \<and> holding s' = written p (holding s)"
  by (auto simp: answer_def written_def split: pdu_outcome.splits)

lemma poll_broadcast:
  assumes "1 \<le> length p" and "length p \<le> 253"
  shows "fst (poll_spec ss (seal_adu (0 # p))) = None \<and>
    map (\<lambda>s. (addr s, holding s)) (snd (poll_spec ss (seal_adu (0 # p))))
      = map (\<lambda>s. (addr s, written p (holding s))) ss"
proof (induction ss)
  case (Cons s ss)
  obtain r s' where "answer True (count_frame True s) (hd p) (serve_pdu (holding s) p) = (r, s', [])"
    "r \<noteq> MB_RESULT_RESPOND" "addr s' = addr s" "holding s' = written p (holding s)"
    using answer_broadcast by metis
  with Cons show ?case
    by (auto simp: slave_spec_frame_adu [OF assms] split: prod.splits)
qed simp

lemma poll_unicast:
  assumes p: "1 \<le> length p" "length p \<le> 253" and "addr s \<noteq> 0"
    and "addr s \<notin> addr ` set pre" and "addr s \<notin> addr ` set post"
    and ans: "answer False (count_frame False s) (hd p) (serve_pdu (holding s) p) = (r, s', adu)"
  shows "poll_spec (pre @ s # post) (seal_adu (addr s # p)) =
    (if r = MB_RESULT_RESPOND then Some adu else None, pre @ s' # post)"
proof -
  have skip: "poll_spec (ss @ ss') (seal_adu (addr s # p)) =
      (case poll_spec ss' (seal_adu (addr s # p)) of (out, u) \<Rightarrow> (out, ss @ u))"
    if "addr s \<notin> addr ` set ss" for ss ss'
    using that by (induction ss) (auto simp: slave_spec_frame_adu [OF p] assms(3) split: prod.splits)
  have "poll_spec post (seal_adu (addr s # p)) = (None, post)"
    using skip [of post "[]"] assms(5) by simp
  then show ?thesis
    using skip [of pre "s # post"] assms(3,4) ans by (simp add: slave_spec_frame_adu [OF p])
qed

lemma bus_of_update:
  assumes "addr s \<notin> addr ` set pre" and "addr s' = addr s" and "addr s \<noteq> 0"
  shows "bus_of (pre @ s' # post) = (bus_of (pre @ s # post))(addr s \<mapsto> holding s')"
proof
  fix a
  have "map_of (map (\<lambda>s. (addr s, holding s)) pre) (addr s) = None"
    using assms(1) by (auto simp: map_of_eq_None_iff image_image)
  then show "bus_of (pre @ s' # post) a = ((bus_of (pre @ s # post))(addr s \<mapsto> holding s')) a"
    using assms(2,3) by (auto simp: bus_of_def map_add_def split: option.splits)
qed

lemma bus_of_hit:
  assumes "addr s \<notin> addr ` set pre" and "addr s \<noteq> 0"
  shows "bus_of (pre @ s # post) (addr s) = Some (holding s)"
  using fun_cong [OF bus_of_update [OF assms(1) refl assms(2), of post], of "addr s"] by simp

lemma map_of_map_value:
  "map_of (map (\<lambda>s. (f s, g (h s))) ss) a = map_option g (map_of (map (\<lambda>s. (f s, h s)) ss) a)"
  by (induction ss) simp_all

lemma in_process_adu:
  assumes "in_process_wf t" and "1 \<le> length p" and "length p \<le> 253"
  shows "in_process_transact garbage t (seal_adu (u # p)) [] =
    (case poll_spec (slaves t) (seal_adu (u # p)) of
       (None, ss) \<Rightarrow> Some (False, [], t\<lparr>slaves := ss\<rparr>)
     | (Some adu, ss) \<Rightarrow> Some (True, adu, t\<lparr>slaves := ss\<rparr>))"
proof -
  have "length (seal_adu (u # p)) < 65536" "seal_adu (u # p) \<noteq> []"
    using assms(3) by (simp_all add: seal_adu_def)
  then show ?thesis
    by (simp add: in_process_transact_eq [OF assms(1)])
qed

text \<open>What the gateway returns for a bus outcome \<open>out\<close>.\<close>

definition reply_to :: "mbap_frame \<Rightarrow> u8 list option \<Rightarrow> mbap_frame" where
  "reply_to req out = (case out of None \<Rightarrow> no_answer req
     | Some adu \<Rightarrow> if intact adu then frame_of_adu adu (transaction_id req) else no_answer req)"

lemma gateway_in_process:
  assumes "in_process_wf t" and "wf_frame req"
    and poll: "poll_spec (slaves t) (seal_adu (unit_id req # pdu req)) = (out, ss)"
  shows "\<exists>st'. gateway_handle (in_process_transact garbage) t st req =
    Some (reply_to req out, t\<lparr>slaves := ss\<rparr>, st')"
proof -
  have p: "1 \<le> length (pdu req)" "length (pdu req) \<le> 253" and ne: "pdu req \<noteq> []"
    using assms(2) by (auto simp: wf_frame_def mbap_consts)
  have adu: "tcp_to_rtu req = Some (seal_adu (unit_id req # pdu req))"
    using p by (simp add: tcp_to_rtu_eq)
  note tr = in_process_adu [OF assms(1) p, of garbage "unit_id req", unfolded poll]
    and handle = gateway_handle_nonempty [where transact = "in_process_transact garbage"]
  show ?thesis
  proof (cases out)
    case None
    then have call: "in_process_transact garbage t (seal_adu (unit_id req # pdu req)) []
        = Some (False, [], t\<lparr>slaves := ss\<rparr>)"
      using tr by simp
    then show ?thesis
      using None
      by (simp add: handle [OF ne adu call] reply_to_def no_answer_def Let_def)
  next
    case (Some r)
    then have call: "in_process_transact garbage t (seal_adu (unit_id req # pdu req)) []
        = Some (True, r, t\<lparr>slaves := ss\<rparr>)"
      using tr by simp
    then have "length r \<le> 256"
      using inproc.answer_intact [OF assms(1) call] by simp
    then show ?thesis
      using Some call
      by (simp add: handle [OF ne adu call] reply_to_def no_answer_def Let_def rtu_to_tcp_eq)
  qed
qed

lemma reply_to_answer:
  assumes "answer False s fc out = (r, s', adu)" and "out = serve_pdu (holding s) p"
    and "addr s = unit_id req" and "fc = hd (pdu req)"
  shows "reply_to req (if r = MB_RESULT_RESPOND then Some adu else None) = (case out of
      Malformed \<Rightarrow> no_answer req
    | Except c \<Rightarrow> make_exception (transaction_id req) (unit_id req) (hd (pdu req)) c
    | Reply body regs' \<Rightarrow> \<lparr>transaction_id = transaction_id req, protocol_id = 0,
        unit_id = unit_id req, pdu = body\<rparr>)"
proof (cases out)
  case (Reply body regs')
  then have "intact (seal_adu (unit_id req # body))"
    using serve_pdu_Reply [of "holding s" p body regs'] assms(2) by (auto simp: intact_def)
  then show ?thesis
    using assms(1,3,4) by (simp add: Reply answer_def reply_to_def) (auto simp: reply_to_def)
qed (use assms in \<open>auto simp: answer_def reply_to_def make_exception_def\<close>)

lemma gateway_bus_step:
  assumes wf: "in_process_wf t" and dist: "distinct (map addr (slaves t))" and req: "wf_frame req"
  shows "\<exists>t' st'. gateway_handle (in_process_transact garbage) t st req =
      Some (fst (bus_request (bus_of (slaves t)) req), t', st') \<and>
    bus_of (slaves t') = snd (bus_request (bus_of (slaves t)) req) \<and>
    in_process_wf t' \<and> map addr (slaves t') = map addr (slaves t)"
proof -
  have p: "1 \<le> length (pdu req)" "length (pdu req) \<le> 253"
    using req by (auto simp: wf_frame_def mbap_consts)
  let ?adu = "seal_adu (unit_id req # pdu req)"
  obtain out ss where poll: "poll_spec (slaves t) ?adu = (out, ss)" by fastforce
  obtain st' where handle: "gateway_handle (in_process_transact garbage) t st req =
      Some (reply_to req out, t\<lparr>slaves := ss\<rparr>, st')"
    using gateway_in_process [OF wf req poll] by blast
  have wf': "in_process_wf (t\<lparr>slaves := ss\<rparr>)" and addrs: "map addr ss = map addr (slaves t)"
    using poll_spec_wf [of "slaves t" ?adu] poll_spec_addrs [of "slaves t" ?adu] wf poll
    by (simp_all add: in_process_wf_def)
  have "reply_to req out = fst (bus_request (bus_of (slaves t)) req) \<and>
    bus_of ss = snd (bus_request (bus_of (slaves t)) req)"
  proof (cases "unit_id req = 0")
    case True
    then show ?thesis
      using poll_broadcast [OF p, of "slaves t"] poll
      by (auto simp: bus_request_def reply_to_def bus_of_def map_of_map_value)
  next
    case unicast: False
    show ?thesis
    proof (cases "unit_id req \<in> addr ` set (slaves t)")
      case False
      then have "poll_spec (slaves t) ?adu = (None, slaves t)"
        using unicast p by (intro poll_spec_miss) (auto simp: image_iff)
      moreover have "bus_of (slaves t) (unit_id req) = None"
        using False by (auto simp: bus_of_def map_of_eq_None_iff image_image)
      ultimately show ?thesis
        using poll unicast by (simp add: bus_request_def reply_to_def)
    next
      case True
      then obtain pre s post where split: "slaves t = pre @ s # post" and a: "addr s = unit_id req"
        by (metis imageE in_set_conv_decomp)
      have fresh: "addr s \<notin> addr ` set pre" "addr s \<notin> addr ` set post" "addr s \<noteq> 0"
        using dist split a unicast by auto
      obtain r s' adu where ans:
        "answer False (count_frame False s) (hd (pdu req)) (serve_pdu (holding s) (pdu req)) = (r, s', adu)"
        by (metis prod_cases3)
      have o: "out = (if r = MB_RESULT_RESPOND then Some adu else None)" "ss = pre @ s' # post"
        using poll_unicast [OF p fresh(3,1,2) ans] poll split a by simp_all
      have s': "addr s' = addr s" "holding s' = written (pdu req) (holding s)"
        using ans by (auto simp: answer_def written_def split: pdu_outcome.splits)
      show ?thesis
        using reply_to_answer [OF ans, of "pdu req" req] a unicast s'
          bus_of_hit [OF fresh(1,3), of post] bus_of_update [OF fresh(1) s'(1) fresh(3), of post]
        by (auto simp: bus_request_def split o written_def fun_upd_idem split: pdu_outcome.splits)
    qed
  qed
  then show ?thesis
    using handle wf' addrs by auto
qed

section \<open>Properties of the translation\<close>

text \<open>Translating a request to RTU and back is the identity: the RTU frame is the unit id, the
  PDU and the CRC, and \<open>rtu_to_tcp\<close> with the transaction id of the request recovers the frame.\<close>

theorem rtu_tcp_roundtrip:
  assumes "wf_frame f"
  shows "\<exists>rtu. tcp_to_rtu f = Some rtu \<and> length rtu = length (pdu f) + 3 \<and> hd rtu = unit_id f \<and>
    rtu_to_tcp rtu (transaction_id f) = Some (Some f)"
proof -
  have len: "1 \<le> length (pdu f)" "length (pdu f) \<le> 253" and "protocol_id f = 0"
    using assms by (auto simp: wf_frame_def mbap_consts)
  then obtain b body where "pdu f = b # body" by (cases "pdu f") auto
  moreover have "length (seal_adu (unit_id f # pdu f)) < 65536"
    using len by simp
  ultimately show ?thesis
    using len \<open>protocol_id f = 0\<close> by (simp add: tcp_to_rtu_eq rtu_to_tcp_eq)
qed

theorem rtu_tcp_roundtrip_witness:
  "\<exists>rtu. tcp_to_rtu \<lparr>transaction_id = 7, protocol_id = 0, unit_id = 17, pdu = [3, 0, 1, 0, 2]\<rparr> = Some rtu \<and>
    length rtu = 8 \<and> rtu_to_tcp rtu 7 =
      Some (Some \<lparr>transaction_id = 7, protocol_id = 0, unit_id = 17, pdu = [3, 0, 1, 0, 2]\<rparr>)"
  using rtu_tcp_roundtrip [of "\<lparr>transaction_id = 7, protocol_id = 0, unit_id = 17, pdu = [3, 0, 1, 0, 2]\<rparr>"]
  by (auto simp: wf_frame_def mbap_consts)

text \<open>C30: No response with a changed byte reaches a master. If the gateway accepts an RTU frame, then
  it rejects every frame that differs from it in one byte, at any position and by any number of
  bits, the CRC bytes included.\<close>

theorem rtu_to_tcp_rejects_changed_byte:
  assumes "rtu_to_tcp rtu txn = Some (Some f)" and "length rtu < 65536"
    and "i < length rtu" and "b \<noteq> rtu ! i"
  shows "rtu_to_tcp (rtu[i := b]) txn' = Some None"
proof -
  have "intact rtu"
    using assms(1) by (simp add: rtu_to_tcp_eq [OF assms(2)] split: if_splits)
  then have "\<not> intact (rtu[i := b])"
    using assms(3,4) crc16_update_iff [OF assms(3), of b] by (simp add: intact_def)
  then show ?thesis
    using assms(2) by (simp add: rtu_to_tcp_eq)
qed

theorem rtu_to_tcp_rejects_changed_byte_witness:
  "rtu_to_tcp ([17, 3, 4, 0, 20, 0, 30, 0x2B, 0xFE][4 := 21]) 7 = Some None"
proof -
  have "rtu_to_tcp [17, 3, 4, 0, 20, 0, 30, 0x2B, 0xFE] 7 = Some (Some
      \<lparr>transaction_id = 7, protocol_id = 0, unit_id = 17, pdu = [3, 4, 0, 20, 0, 30]\<rparr>)"
    by code_simp
  then show ?thesis
    by (rule rtu_to_tcp_rejects_changed_byte) simp_all
qed

section \<open>Properties of the handler\<close>

text \<open>Over every transport whose \<open>transact\<close> returns, each request gets exactly one response.
  The response carries the transaction id of the request and protocol id 0, \<open>requests\<close> and
  exactly one of the outcome counters go up by one, and \<open>bad_unit\<close> is never counted.\<close>

theorem gateway_always_responds:
  assumes "rtu_transport transact legal" and "legal t"
  shows "\<exists>rsp t' st'. gateway_handle transact t st req = Some (rsp, t', st') \<and> legal t' \<and>
    transaction_id rsp = transaction_id req \<and> protocol_id rsp = 0 \<and>
    one_outcome (st\<lparr>requests := requests st + 1\<rparr>) st' \<and> bad_unit st' = bad_unit st"
proof -
  obtain rsp t' st' where h: "gateway_handle transact t st req = Some (rsp, t', st')" "legal t'"
    "transaction_id rsp = transaction_id req" "protocol_id rsp = 0" "bad_unit st' = bad_unit st"
    using rtu_transport.handle_responds [OF assms, of st req] by metis
  then show ?thesis
    using gateway_handle_counts [OF h(1)] by blast
qed

theorem gateway_always_responds_witness:
  "\<exists>rsp t' st'. gateway_handle (in_process_transact (\<lambda>_. 0)) \<lparr>slaves = [], regs_per_slave = 8\<rparr>
      \<lparr>requests = 0, responses = 0, timeouts = 0, crc_failures = 0, bad_unit = 0, malformed = 0\<rparr>
      \<lparr>transaction_id = 9, protocol_id = 0, unit_id = 17, pdu = [3, 0, 1, 0, 2]\<rparr> = Some (rsp, t', st') \<and>
    transaction_id rsp = 9"
proof -
  have "in_process_wf \<lparr>slaves = [], regs_per_slave = 8\<rparr>"
    by (simp add: in_process_wf_def)
  from gateway_always_responds [OF inproc.rtu_transport_axioms this, of "\<lambda>_. 0"
      "\<lparr>requests = 0, responses = 0, timeouts = 0, crc_failures = 0, bad_unit = 0, malformed = 0\<rparr>"
      "\<lparr>transaction_id = 9, protocol_id = 0, unit_id = 17, pdu = [3, 0, 1, 0, 2]\<rparr>"]
  show ?thesis by (elim exE) auto
qed

text \<open>The gateway relies on the transport for addressing. When the transport answers with an
  intact RTU frame, the response goes to the master with the unit id found in that frame, which
  the gateway does not compare to the unit id of the request.\<close>

theorem gateway_trusts_answer_unit:
  assumes "wf_frame req" and "intact out" and "length out < 65536"
    and "\<And>adu rsp. transact t adu rsp = Some (True, out, t')"
  shows "\<exists>rsp st'. gateway_handle transact t st req = Some (rsp, t', st') \<and>
    unit_id rsp = hd out \<and> transaction_id rsp = transaction_id req"
proof -
  have req: "pdu req \<noteq> []" "tcp_to_rtu req = Some (seal_adu (unit_id req # pdu req))"
    using assms(1) by (auto simp: wf_frame_def mbap_consts tcp_to_rtu_eq)
  show ?thesis
    using assms(2,3)
    by (simp add: gateway_handle_nonempty [where transact = transact, OF req assms(4)]
        rtu_to_tcp_eq frame_of_adu_def Let_def)
qed

theorem gateway_trusts_answer_unit_witness:
  "\<exists>rsp st'. gateway_handle (\<lambda>t adu rsp. Some (True, [17, 3, 4, 0, 20, 0, 30, 0x2B, 0xFE], t)) ()
      \<lparr>requests = 0, responses = 0, timeouts = 0, crc_failures = 0, bad_unit = 0, malformed = 0\<rparr>
      \<lparr>transaction_id = 9, protocol_id = 0, unit_id = 99, pdu = [3, 0, 1, 0, 2]\<rparr> = Some (rsp, (), st') \<and>
    unit_id rsp = 17"
proof -
  have "intact [17, 3, 4, 0, 20, 0, 30, 0x2B, 0xFE]" by code_simp
  then show ?thesis
    using gateway_trusts_answer_unit [of "\<lparr>transaction_id = 9, protocol_id = 0, unit_id = 99, pdu = [3, 0, 1, 0, 2]\<rparr>"
      "[17, 3, 4, 0, 20, 0, 30, 0x2B, 0xFE]" "\<lambda>t adu rsp. Some (True, [17, 3, 4, 0, 20, 0, 30, 0x2B, 0xFE], t)" "()" "()"]
    by (fastforce simp: wf_frame_def mbap_consts)
qed

end
