(* ===== verification/Gateway_Bus.thy ===== *)
theory Gateway_Bus
  imports Gateway
begin

text \<open>
  What a master observes through \<open>Gateway::handle\<close> of \<open>src/gateway.cpp\<close> over the in-process
  bus of \<open>src/rtu_transport.hpp\<close>: the refinement of the abstract bus, the values of fresh and
  of written registers, broadcasts, and the visibility of injected faults.
\<close>

section \<open>A run of the abstract bus\<close>

fun bus_run :: "bus \<Rightarrow> mbap_frame list \<Rightarrow> mbap_frame list \<times> bus" where
  "bus_run b [] = ([], b)"
| "bus_run b (q # qs) =
     (case bus_request b q of (f, b) \<Rightarrow> case bus_run b qs of (fs, b) \<Rightarrow> (f # fs, b))"

lemma length_bus_run [simp]: "length (fst (bus_run b qs)) = length qs"
  by (induction qs arbitrary: b) (simp_all add: split_beta)

section \<open>Requests of a master\<close>

definition read_request :: "u16 \<Rightarrow> u8 \<Rightarrow> u16 \<Rightarrow> nat \<Rightarrow> mbap_frame" where
  "read_request txn u start n = \<lparr>transaction_id = txn, protocol_id = 0, unit_id = u,
     pdu = 3 # u16_bytes start @ u16_bytes (of_nat n)\<rparr>"

definition write_request :: "u16 \<Rightarrow> u8 \<Rightarrow> u16 \<Rightarrow> u16 list \<Rightarrow> mbap_frame" where
  "write_request txn u start vs = \<lparr>transaction_id = txn, protocol_id = 0, unit_id = u,
     pdu = 16 # u16_bytes start @ u16_bytes (of_nat (length vs)) @
       of_nat (2 * length vs) # concat (map u16_bytes vs)\<rparr>"

definition read_response :: "u16 \<Rightarrow> u8 \<Rightarrow> u16 list \<Rightarrow> mbap_frame" where
  "read_response txn u vs = \<lparr>transaction_id = txn, protocol_id = 0, unit_id = u,
     pdu = 3 # of_nat (2 * length vs) # concat (map u16_bytes vs)\<rparr>"

definition write_response :: "u16 \<Rightarrow> u8 \<Rightarrow> u16 \<Rightarrow> nat \<Rightarrow> mbap_frame" where
  "write_response txn u start n = \<lparr>transaction_id = txn, protocol_id = 0, unit_id = u,
     pdu = 16 # u16_bytes start @ u16_bytes (of_nat n)\<rparr>"

lemmas master_defs = read_request_def write_request_def read_response_def write_response_def

lemma unit_id_requests [simp]:
  "unit_id (read_request txn u start n) = u" "unit_id (write_request txn u start vs) = u"
  "transaction_id (read_request txn u start n) = txn"
  "transaction_id (write_request txn u start vs) = txn"
  by (simp_all add: master_defs)

lemma wf_read_request [simp]: "wf_frame (read_request txn u start n)"
  by (simp add: wf_frame_def read_request_def u16_bytes_def mbap_consts)

lemma wf_write_request [simp]: "length vs \<le> 123 \<Longrightarrow> wf_frame (write_request txn u start vs)"
  by (simp add: wf_frame_def write_request_def mbap_consts)

lemma be16s_u16_bytes [simp]: "be16s (concat (map u16_bytes vs)) = vs"
  by (induction vs) (simp_all add: u16_bytes_def)

text \<open>The window of registers a request names.\<close>

definition window :: "u16 \<Rightarrow> nat \<Rightarrow> u16 list \<Rightarrow> u16 list" where
  "window start n regs = take n (drop (unat start) regs)"

definition overwrite :: "u16 \<Rightarrow> u16 list \<Rightarrow> u16 list \<Rightarrow> u16 list" where
  "overwrite start vs regs = take (unat start) regs @ vs @ drop (unat start + length vs) regs"

lemma length_overwrite [simp]:
  "unat start + length vs \<le> length regs \<Longrightarrow> length (overwrite start vs regs) = length regs"
  by (simp add: overwrite_def)

lemma window_overwrite:
  "unat start + length vs \<le> length regs \<Longrightarrow> window start (length vs) (overwrite start vs regs) = vs"
  by (simp add: window_def overwrite_def)

lemma serve_read_request:
  assumes "1 \<le> n" "n \<le> 125" and "unat start + n \<le> length regs"
  shows "serve_pdu regs (pdu (read_request txn u start n)) =
    Reply (pdu (read_response txn u (window start n regs))) regs"
proof -
  have "unat (of_nat n :: u16) = n"
    using assms(2) by (simp add: unat_of_nat_u16)
  then show ?thesis
    using assms by (simp add: master_defs window_def u16_bytes_def [of start] u16_bytes_def [of "of_nat n"]
        min_absorb2 Let_def)
qed

lemma serve_write_request:
  assumes "1 \<le> length vs" "length vs \<le> 123"
  shows "serve_pdu regs (pdu (write_request txn u start vs)) =
    (if length regs < unat start + length vs then Except 2
     else Reply (pdu (write_response txn u start (length vs))) (overwrite start vs regs))"
proof -
  have "unat (of_nat (length vs) :: u16) = length vs"
    and "unat (of_nat (2 * length vs) :: u8) = 2 * length vs"
    using assms(2) unat_of_nat_u8 [of "2 * length vs"] by (simp_all add: unat_of_nat_u16)
  moreover have "vs \<noteq> []" using assms(1) by auto
  ultimately show ?thesis
    using assms by (simp add: master_defs overwrite_def u16_bytes_def [of start]
        u16_bytes_def [of "of_nat (length vs)"] Let_def)
qed

lemma bus_read:
  assumes "u \<noteq> 0" and "b u = Some regs" and "1 \<le> n" "n \<le> 125" and "unat start + n \<le> length regs"
  shows "bus_request b (read_request txn u start n) = (read_response txn u (window start n regs), b)"
  using assms(1,2) serve_read_request [OF assms(3-5), of txn u]
  by (auto simp: bus_request_def read_response_def)

lemma bus_write:
  assumes "u \<noteq> 0" and "b u = Some regs" and "1 \<le> length vs" "length vs \<le> 123"
    and "unat start + length vs \<le> length regs"
  shows "bus_request b (write_request txn u start vs) =
    (write_response txn u start (length vs), b(u \<mapsto> overwrite start vs regs))"
  using assms(1,2,5) serve_write_request [OF assms(3,4), of regs txn u start]
  by (simp add: bus_request_def write_response_def)

lemma bus_broadcast_write:
  assumes "1 \<le> length vs" "length vs \<le> 123"
  shows "bus_request b (write_request txn 0 start vs) =
    (no_answer (write_request txn 0 start vs),
     \<lambda>a. map_option (\<lambda>regs. if length regs < unat start + length vs then regs else overwrite start vs regs) (b a))"
proof -
  have "written (pdu (write_request txn 0 start vs)) =
      (\<lambda>regs. if length regs < unat start + length vs then regs else overwrite start vs regs)"
    using serve_write_request [OF assms, of _ txn 0 start] by (auto simp: written_def)
  then show ?thesis
    by (simp add: bus_request_def)
qed

section \<open>A fresh bus\<close>

definition seed_value :: "u8 \<Rightarrow> nat \<Rightarrow> u16" where
  "seed_value u i = push_bit 8 (ucast u) OR of_nat i"

lemma new_in_process_addrs: "new_in_process ids regs = Some t \<Longrightarrow> map addr (slaves t) = ids"
  by (auto simp: new_in_process_eq seeded_slave_def comp_def)

lemma new_in_process_bus:
  assumes "new_in_process ids regs = Some t"
  shows "bus_of (slaves t) u =
    (if u \<noteq> 0 \<and> u \<in> set ids then Some (map (seed_value u) [0..<unat regs]) else None)"
proof -
  have t: "slaves t = map (seeded_slave regs) ids"
    using assms by (auto simp: new_in_process_eq)
  have "map_of (map (\<lambda>s. (addr s, holding s)) (map (seeded_slave regs) ids)) u =
      (if u \<in> set ids then Some (map (seed_value u) [0..<unat regs]) else None)"
    by (induction ids) (auto simp: seeded_slave_def seed_value_def)
  then show ?thesis
    by (simp add: bus_of_def t)
qed

lemma window_seed:
  assumes "unat start + n \<le> m"
  shows "window start n (map f [0..<m]) = map f [unat start..<unat start + n]"
  using assms by (simp add: window_def drop_map take_map take_upt drop_upt)

text \<open>A request that no device answers counts as a timeout.\<close>

lemma gateway_no_responder:
  assumes "in_process_wf t" and "wf_frame req"
    and "poll_spec (slaves t) (seal_adu (unit_id req # pdu req)) = (None, ss)"
    and "gateway_handle (in_process_transact garbage) t st req = Some (f, t', st')"
  shows "timeouts st' = timeouts st + 1"
proof -
  have p: "1 \<le> length (pdu req)" "length (pdu req) \<le> 253"
    using assms(2) by (auto simp: wf_frame_def mbap_consts)
  then have "in_process_transact garbage t (seal_adu (unit_id req # pdu req)) [] =
      Some (False, [], t\<lparr>slaves := ss\<rparr>)"
    using in_process_adu [OF assms(1)] assms(3) by simp
  from inproc.handle_reliable [OF assms(1,2) this, of st] assms(4) show ?thesis
    by (auto simp: Let_def)
qed

section \<open>Properties\<close>

text \<open>C5: Over the in-process backend the gateway refines the abstract bus. For any slave states
  that satisfy the invariant and have distinct addresses, and any well-formed request,
  \<open>Gateway::handle\<close> returns the response the bus specifies (the addressed device's answer or
  Modbus exception, gateway exception \<open>0x0B\<close> for an absent unit, a malformed PDU and a
  broadcast), and the registers afterwards are those of the bus.\<close>

theorem gateway_refines_bus:
  assumes "in_process_wf t" and "distinct (map addr (slaves t))" and "wf_frame req"
  shows "\<exists>t' st'. gateway_handle (in_process_transact garbage) t st req =
      Some (fst (bus_request (bus_of (slaves t)) req), t', st') \<and>
    bus_of (slaves t') = snd (bus_request (bus_of (slaves t)) req) \<and>
    in_process_wf t' \<and> map addr (slaves t') = map addr (slaves t)"
  using assms by (rule gateway_bus_step)

text \<open>The examples: two devices, and a gateway without traffic.\<close>

definition demo_bus :: in_process where
  "demo_bus = \<lparr>slaves = [demo_slave, demo_slave\<lparr>addr := 2, holding := [5, 6, 7]\<rparr>], regs_per_slave = 3\<rparr>"

definition idle_stats :: gateway_stats where
  "idle_stats = \<lparr>requests = 0, responses = 0, timeouts = 0, crc_failures = 0, bad_unit = 0, malformed = 0\<rparr>"

lemma demo_bus_ok [simp]: "in_process_wf demo_bus" "distinct (map addr (slaves demo_bus))"
  by (simp_all add: in_process_wf_def demo_bus_def slave_wf_def demo_slave_def)

lemma demo_bus_units:
  "bus_of (slaves demo_bus) 17 = Some [10, 20, 30]" "bus_of (slaves demo_bus) 2 = Some [5, 6, 7]"
  by (simp_all add: bus_of_def demo_bus_def demo_slave_def)

theorem gateway_refines_bus_witness:
  "\<exists>t' st'. gateway_handle (in_process_transact (\<lambda>_. 0xEE)) demo_bus idle_stats
      \<lparr>transaction_id = 9, protocol_id = 0, unit_id = 2, pdu = [3, 0, 1, 0, 2]\<rparr> =
    Some (\<lparr>transaction_id = 9, protocol_id = 0, unit_id = 2, pdu = [3, 4, 0, 6, 0, 7]\<rparr>, t', st')"
proof -
  let ?req = "\<lparr>transaction_id = 9, protocol_id = 0, unit_id = 2, pdu = [3, 0, 1, 0, 2 :: u8]\<rparr>"
  have wf: "wf_frame ?req" by (simp add: wf_frame_def mbap_consts)
  have "serve_pdu [5, 6, 7] [3, 0, 1, 0, 2] = Reply [3, 4, 0, 6, 0, 7] [5, 6, 7]"
    by code_simp
  then have "fst (bus_request (bus_of (slaves demo_bus)) ?req) =
      \<lparr>transaction_id = 9, protocol_id = 0, unit_id = 2, pdu = [3, 4, 0, 6, 0, 7]\<rparr>"
    by (simp add: bus_request_def demo_bus_units)
  with gateway_refines_bus [OF demo_bus_ok wf, of "\<lambda>_. 0xEE" idle_stats]
  show ?thesis by auto
qed

text \<open>A fresh gateway serves the seeded registers. After the constructor of \<open>InProcessRtu\<close> with
  distinct unit ids, a read of at most 125 registers inside the register file of a configured
  unit returns \<open>(unit << 8) | index\<close> for every register of the window.\<close>

theorem fresh_gateway_reads_seed:
  assumes "new_in_process ids regs = Some t" and "distinct ids" and "u \<in> set ids" and "u \<noteq> 0"
    and "1 \<le> n" and "n \<le> 125" and "unat start + n \<le> unat regs"
  shows "\<exists>t' st'. gateway_handle (in_process_transact garbage) t st (read_request txn u start n) =
    Some (read_response txn u (map (seed_value u) [unat start..<unat start + n]), t', st')"
proof -
  have bus: "bus_of (slaves t) u = Some (map (seed_value u) [0..<unat regs])"
    using assms(1,3,4) by (simp add: new_in_process_bus)
  have dist: "distinct (map addr (slaves t))"
    using assms(1,2) by (simp add: new_in_process_addrs)
  have "unat start + n \<le> length (map (seed_value u) [0..<unat regs])"
    using assms(7) by simp
  then show ?thesis
    using gateway_bus_step [OF new_in_process_wf [OF assms(1)] dist wf_read_request, of garbage st txn u start n]
      bus_read [where b = "bus_of (slaves t)", OF assms(4) bus assms(5,6), of start txn] window_seed [OF assms(7)] by auto
qed

theorem fresh_gateway_reads_seed_witness:
  "\<exists>t t' st'. new_in_process [17, 2] 10 = Some t \<and>
    gateway_handle (in_process_transact (\<lambda>_. 0)) t idle_stats (read_request 1 17 4 2) =
      Some (\<lparr>transaction_id = 1, protocol_id = 0, unit_id = 17, pdu = [3, 4, 17, 4, 17, 5]\<rparr>, t', st')"
proof -
  obtain t where t: "new_in_process [17, 2] 10 = Some t"
    by (simp add: new_in_process_eq)
  have "read_response 1 17 (map (seed_value 17) [unat (4 :: u16)..<unat (4 :: u16) + 2]) =
      \<lparr>transaction_id = 1, protocol_id = 0, unit_id = 17, pdu = [3, 4, 17, 4, 17, 5]\<rparr>"
    by code_simp
  then show ?thesis
    using fresh_gateway_reads_seed [OF t, of 17 2 4 "\<lambda>_. 0" idle_stats 1] t by simp
qed

text \<open>What a master writes is what every later reader gets. A write of 1 to 123 registers inside
  the register file of a unit is acknowledged with its start and count, a read of the same window
  then returns the written values, the rest of that register file and all other units are
  unchanged.\<close>

theorem gateway_read_after_write:
  assumes "in_process_wf t" and "distinct (map addr (slaves t))" and "u \<noteq> 0"
    and "bus_of (slaves t) u = Some regs" and "unat start + length vs \<le> length regs"
    and "1 \<le> length vs" and "length vs \<le> 123"
  shows "\<exists>t1 st1 t2 st2.
    gateway_handle (in_process_transact garbage) t st (write_request txn u start vs) =
      Some (write_response txn u start (length vs), t1, st1) \<and>
    bus_of (slaves t1) = (bus_of (slaves t))
      (u \<mapsto> take (unat start) regs @ vs @ drop (unat start + length vs) regs) \<and>
    gateway_handle (in_process_transact garbage') t1 st1 (read_request txn' u start (length vs)) =
      Some (read_response txn' u vs, t2, st2) \<and> bus_of (slaves t2) = bus_of (slaves t1)"
proof -
  obtain t1 st1 where w: "gateway_handle (in_process_transact garbage) t st (write_request txn u start vs) =
      Some (write_response txn u start (length vs), t1, st1)"
    "bus_of (slaves t1) = (bus_of (slaves t))(u \<mapsto> overwrite start vs regs)"
    "in_process_wf t1" "distinct (map addr (slaves t1))"
    using gateway_bus_step [OF assms(1,2) wf_write_request [OF assms(7)], of garbage st txn u start]
      bus_write [where b = "bus_of (slaves t)", OF assms(3,4,6,7,5)] assms(2) by auto
  have "bus_of (slaves t1) u = Some (overwrite start vs regs)"
    and "unat start + length vs \<le> length (overwrite start vs regs)" and "length vs \<le> 125"
    using w(2) assms(5,7) by simp_all
  then have "bus_request (bus_of (slaves t1)) (read_request txn' u start (length vs)) =
      (read_response txn' u vs, bus_of (slaves t1))"
    using bus_read [where b = "bus_of (slaves t1)", OF assms(3)] assms(5,6) window_overwrite by simp
  then show ?thesis
    using gateway_bus_step [OF w(3,4) wf_read_request, of garbage' st1 txn' u start "length vs"] w(1,2)
    by (auto simp: overwrite_def)
qed

theorem gateway_read_after_write_witness:
  "\<exists>t1 st1 t2 st2.
    gateway_handle (in_process_transact (\<lambda>_. 0)) demo_bus idle_stats (write_request 1 17 1 [0xBEEF, 4]) =
      Some (write_response 1 17 1 2, t1, st1) \<and>
    gateway_handle (in_process_transact (\<lambda>_. 0)) t1 st1 (read_request 2 17 1 2) =
      Some (read_response 2 17 [0xBEEF, 4], t2, st2)"
proof -
  have two: "length [0xBEEF, 4 :: u16] = 2" by simp
  have "\<exists>t1 st1 t2 st2.
    gateway_handle (in_process_transact (\<lambda>_. 0)) demo_bus idle_stats (write_request 1 17 1 [0xBEEF, 4]) =
      Some (write_response 1 17 1 (length [0xBEEF, 4 :: u16]), t1, st1) \<and>
    bus_of (slaves t1) = (bus_of (slaves demo_bus)) (17 \<mapsto> take (unat (1 :: u16)) [10, 20, 30] @
      [0xBEEF, 4] @ drop (unat (1 :: u16) + length [0xBEEF, 4 :: u16]) [10, 20, 30]) \<and>
    gateway_handle (in_process_transact (\<lambda>_. 0)) t1 st1 (read_request 2 17 1 (length [0xBEEF, 4 :: u16])) =
      Some (read_response 2 17 [0xBEEF, 4], t2, st2) \<and> bus_of (slaves t2) = bus_of (slaves t1)"
    by (rule gateway_read_after_write [OF demo_bus_ok _ demo_bus_units(1)]) simp_all
  then show ?thesis
    unfolding two by blast
qed

text \<open>C36: A broadcast write reaches every device and is answered by none. A write to unit id 0
  overwrites the window in the register file of every unit that has it and leaves the others as
  they are; the master gets gateway exception \<open>0x0B\<close>, although the write was applied, and the
  gateway counts a timeout.\<close>

theorem gateway_broadcast_write:
  assumes "in_process_wf t" and "distinct (map addr (slaves t))"
    and "1 \<le> length vs" and "length vs \<le> 123"
  shows "\<exists>t' st'. gateway_handle (in_process_transact garbage) t st (write_request txn 0 start vs) =
      Some (\<lparr>transaction_id = txn, protocol_id = 0, unit_id = 0, pdu = [0x90, 0x0B]\<rparr>, t', st') \<and>
    timeouts st' = timeouts st + 1 \<and>
    (\<forall>u. bus_of (slaves t') u = (case bus_of (slaves t) u of
       None \<Rightarrow> None
     | Some regs \<Rightarrow> Some (if length regs < unat start + length vs then regs
         else take (unat start) regs @ vs @ drop (unat start + length vs) regs)))"
proof -
  let ?req = "write_request txn 0 start vs"
  obtain t' st' where h: "gateway_handle (in_process_transact garbage) t st ?req =
      Some (no_answer ?req, t', st')"
    "\<And>u. bus_of (slaves t') u = map_option (\<lambda>regs. if length regs < unat start + length vs then regs
      else overwrite start vs regs) (bus_of (slaves t) u)"
    using gateway_bus_step [OF assms(1,2) wf_write_request [OF assms(4)], of garbage st txn 0 start]
      bus_broadcast_write [OF assms(3,4), of "bus_of (slaves t)" txn start] by fastforce
  have no: "no_answer ?req = \<lparr>transaction_id = txn, protocol_id = 0, unit_id = 0, pdu = [0x90, 0x0B]\<rparr>"
    by (simp add: no_answer_def make_exception_def write_request_def mbap_consts)
  have "poll_spec (slaves t) (seal_adu (0 # pdu ?req)) =
      (None, snd (poll_spec (slaves t) (seal_adu (0 # pdu ?req))))"
    using poll_broadcast [of "pdu ?req" "slaves t"] wf_write_request [OF assms(4), of txn 0 start]
    by (simp add: wf_frame_def mbap_consts prod_eq_iff)
  then have "timeouts st' = timeouts st + 1"
    using gateway_no_responder [OF assms(1) wf_write_request [OF assms(4)], of txn 0 start] h(1) by simp
  with h show ?thesis
    by (auto simp: no overwrite_def split: option.splits)
qed

theorem gateway_broadcast_write_witness:
  "\<exists>t' st'. gateway_handle (in_process_transact (\<lambda>_. 0)) demo_bus idle_stats (write_request 1 0 2 [99]) =
      Some (\<lparr>transaction_id = 1, protocol_id = 0, unit_id = 0, pdu = [0x90, 0x0B]\<rparr>, t', st') \<and>
    bus_of (slaves t') 17 = Some [10, 20, 99] \<and> bus_of (slaves t') 2 = Some [5, 6, 99]"
proof -
  obtain t' st' where "gateway_handle (in_process_transact (\<lambda>_. 0)) demo_bus idle_stats (write_request 1 0 2 [99]) =
      Some (\<lparr>transaction_id = 1, protocol_id = 0, unit_id = 0, pdu = [0x90, 0x0B]\<rparr>, t', st')"
    and "\<And>u. bus_of (slaves t') u = (case bus_of (slaves demo_bus) u of None \<Rightarrow> None
      | Some regs \<Rightarrow> Some (if length regs < unat (2 :: u16) + length [99 :: u16] then regs
         else take (unat (2 :: u16)) regs @ [99] @ drop (unat (2 :: u16) + length [99 :: u16]) regs))"
    using gateway_broadcast_write [OF demo_bus_ok, of "[99]" "\<lambda>_. 0" idle_stats 1 2] by auto
  then show ?thesis
    by (auto simp: demo_bus_units)
qed

text \<open>C15: Injected faults are visible and never corrupt data. Over \<open>FaultyRtu\<close> around the in-process
  backend, a request either finds no fault and gets the response of the abstract bus; or it is
  dropped before the bus, leaves every register as it was, is answered with exception \<open>0x0B\<close>
  and counted as a timeout; or its response is corrupted, the request has been applied, and the
  master gets exception \<open>0x0B\<close>, counted as a CRC failure. The random generator is arbitrary;
  of its uniform distribution only the documented range is used.\<close>

theorem gateway_faults_never_silent:
  fixes t :: "(in_process, 'g, 'd) faulty"
  assumes "\<And>n g. fst (pick n g) \<le> n"
    and "in_process_wf (inner t)" and "distinct (map addr (slaves (inner t)))" and "wf_frame req"
  shows "\<exists>f t' st'.
    gateway_handle (faulty_transact below pick (in_process_transact garbage)) t st req = Some (f, t', st') \<and>
    (let bus = bus_of (slaves (inner t)); bus_after = bus_of (slaves (inner t')) in
      f = fst (bus_request bus req) \<and> bus_after = snd (bus_request bus req) \<and>
        dropped t' = dropped t \<and> corrupted t' = corrupted t \<and> crc_failures st' = crc_failures st \<or>
      f = no_answer req \<and> bus_after = bus \<and>
        dropped t' = dropped t + 1 \<and> corrupted t' = corrupted t \<and> timeouts st' = timeouts st + 1 \<or>
      f = no_answer req \<and> bus_after = snd (bus_request bus req) \<and>
        dropped t' = dropped t \<and> corrupted t' = corrupted t + 1 \<and> crc_failures st' = crc_failures st + 1)"
proof -
  let ?req = "seal_adu (unit_id req # pdu req)" and ?bus = "bus_of (slaves (inner t))"
  have req: "pdu req \<noteq> []" "tcp_to_rtu req = Some ?req"
    using assms(4) by (auto simp: wf_frame_def mbap_consts tcp_to_rtu_eq)
  obtain u su where ideal: "gateway_handle (in_process_transact garbage) (inner t) st req =
      Some (fst (bus_request ?bus req), u, su)" "bus_of (slaves u) = snd (bus_request ?bus req)"
    using gateway_bus_step [OF assms(2-4), of garbage st] by metis
  note plain = inproc.handle_reliable [OF assms(2,4), of garbage _ _ _ st]
    and handle = gateway_handle_nonempty [where transact = "faulty_transact below pick (in_process_transact garbage)", OF req]
  from assms(1,2) show ?thesis
  proof (cases rule: inproc.faulty_cases [where t = t and below = below and pick = pick and req = ?req and rsp = "[]"
        and garbage = garbage])
    case (dropped t')
    then show ?thesis
      using handle [OF dropped(1), of st] by (simp add: no_answer_def Let_def)
  next
    case (lost rsp' t' i')
    then have "fst (bus_request ?bus req) = no_answer req" "u = i'"
      using plain [OF lost(2)] ideal(1) by (auto simp: Let_def)
    then show ?thesis
      using handle [OF lost(1), of st] lost ideal(2) by (simp add: no_answer_def Let_def)
  next
    case (clean rsp' t' i')
    have intact: "intact rsp'" "length rsp' < 65536"
      using inproc.answer_intact [OF assms(2) clean(2)] by simp_all
    have "fst (bus_request ?bus req) = frame_of_adu rsp' (transaction_id req)" "u = i'"
      using plain [OF clean(2)] ideal(1) by (auto simp: Let_def)
    then show ?thesis
      using handle [OF clean(1), of st] clean ideal(2) intact by (simp add: rtu_to_tcp_eq Let_def)
  next
    case (flipped orig i rsp' t' i')
    have orig: "intact orig" "length orig < 65536"
      using inproc.answer_intact [OF assms(2) flipped(2)] by simp_all
    then have "\<not> intact rsp'" "length rsp' < 65536"
      using flipped(5,6) crc16_flip [of i orig] by (simp_all add: intact_def)
    moreover have "u = i'"
      using plain [OF flipped(2)] ideal(1) by (auto simp: Let_def)
    ultimately show ?thesis
      using handle [OF flipped(1), of st] flipped ideal(2) by (simp add: rtu_to_tcp_eq no_answer_def Let_def)
  qed
qed

text \<open>The examples draw a generator that always fires and always picks the last byte.\<close>

definition demo_faulty :: "(in_process, unit, bool) faulty" where
  "demo_faulty = \<lparr>inner = demo_bus, cfg = \<lparr>drop_rate = False, corrupt_rate = True, seed = 1\<rparr>,
     rng = (), dropped = 0, corrupted = 0\<rparr>"

theorem gateway_faults_never_silent_witness:
  "\<exists>f t' st'. gateway_handle (faulty_transact (\<lambda>r g. (r, g)) (\<lambda>n g. (n, g)) (in_process_transact (\<lambda>_. 0)))
      demo_faulty idle_stats (write_request 1 17 0 [1]) = Some (f, t', st') \<and>
    (f = write_response 1 17 0 1 \<or> f = no_answer (write_request 1 17 0 [1]))"
proof -
  have "bus_request (bus_of (slaves demo_bus)) (write_request 1 17 0 [1]) =
      (write_response 1 17 0 1, (bus_of (slaves demo_bus))(17 \<mapsto> overwrite 0 [1] [10, 20, 30]))"
    using bus_write [of 17 "bus_of (slaves demo_bus)", OF _ demo_bus_units(1), of "[1]" 0 1] by simp
  then show ?thesis
    using gateway_faults_never_silent [where pick = "\<lambda>n g. (n, g)" and below = "\<lambda>r g. (r, g)" and t = demo_faulty
      and req = "write_request 1 17 0 [1]" and garbage = "\<lambda>_. 0" and st = idle_stats]
    by (auto simp: demo_faulty_def Let_def)
qed

end
