(* ===== verification/Server.thy ===== *)
theory Server
  imports Gateway_Bus "HOL-Library.Sublist"
begin

text \<open>
  \<open>serve_client\<close> of \<open>src/main.cpp\<close>: the connection loop that assembles the TCP stream,
  handles every complete frame and sends the responses. The abstract view is
  \<open>split_stream\<close>, which cuts a byte stream into frames, and \<open>handle_all\<close>, which handles
  them in order. The loop is shown to implement it whatever the segmentation of the stream.
\<close>

section \<open>The connection loop\<close>

text \<open>
  One run of the outer loop body: \<open>g_running\<close> was found false, \<open>recv\<close> returned a chunk, or
  \<open>recv\<close> returned \<open>n <= 0\<close>.
\<close>

datatype loop_event = NotRunning | Recv "u8 list" | RecvEnd

text \<open>
  The thread's buffer, the bus and the counters it shares with the other threads, the state
  \<open>sock\<close> of the socket, the bytes the socket has accepted for sending, and whether
  \<open>serve_client\<close> has closed the socket and returned. \<open>send\<close> is the system call: the number
  of bytes it accepts from the front of its argument, 0 for a result \<open>w <= 0\<close>.
\<close>

record ('t, 'e) conn =
  buf :: "u8 list"
  bus :: 't
  stats :: gateway_stats
  sock :: 'e
  outbox :: "u8 list"
  closed :: bool

type_synonym 'e send_call = "'e \<Rightarrow> u8 list \<Rightarrow> nat \<times> 'e"

function send_all :: "'e send_call \<Rightarrow> 'e \<Rightarrow> u8 list \<Rightarrow> nat \<Rightarrow> u8 list \<Rightarrow> bool \<times> 'e \<times> u8 list" where
  "send_all send e out sent outb =
     (if sent < length out then
        case send e (drop sent out) of (w, e') \<Rightarrow>
          if w = 0 then (False, e', outb)
          else send_all send e' out (sent + w) (outb @ take w (drop sent out))
      else (True, e, outb))"
  by pat_completeness auto
termination
  by (relation "measure (\<lambda>(send, e, out, sent, outb). length out - sent)") auto

declare send_all.simps [simp del]

definition erase_front :: "nat \<Rightarrow> 'a list \<Rightarrow> 'a list option" where
  "erase_front n xs = (if n \<le> length xs then Some (drop n xs) else None)"

text \<open>The inner \<open>for (;;)\<close>: drain every complete frame.\<close>

function drain ::
    "'t transact \<Rightarrow> 'e send_call \<Rightarrow> ('t, 'e) conn \<Rightarrow> ('t, 'e) conn option" where
  "drain transact send c = do {
     r \<leftarrow> decode (buf c) (length (buf c));
     case frame r of
       None \<Rightarrow>
         if error r = NeedMoreData then Some c
         else Some (c\<lparr>stats := (stats c)\<lparr>malformed := malformed (stats c) + 1\<rparr>, closed := True\<rparr>)
     | Some f \<Rightarrow> do {
         (rsp, t, st) \<leftarrow> gateway_handle transact (bus c) (stats c) f;
         case send_all send (sock c) (encode rsp) 0 (outbox c) of (ok, e, outb) \<Rightarrow>
           if \<not> ok then
             Some (c\<lparr>bus := t, stats := st, sock := e, outbox := outb, closed := True\<rparr>)
           else do {
             rest \<leftarrow> erase_front (consumed r) (buf c);
             drain transact send
               (c\<lparr>buf := rest, bus := t, stats := st, sock := e, outbox := outb\<rparr>)
           }
       }
   }"
  by pat_completeness auto
termination
  by (relation "measure (\<lambda>(transact, send, c). length (buf c))")
    (auto simp: erase_front_def dest!: decode_frame_consumed split: if_splits)

declare drain.simps [simp del]

fun serve_client ::
    "'t transact \<Rightarrow> 'e send_call \<Rightarrow> ('t, 'e) conn \<Rightarrow> loop_event list \<Rightarrow> ('t, 'e) conn option" where
  "serve_client transact send c [] = Some c"
| "serve_client transact send c (ev # evs) =
     (if closed c then Some c
      else case ev of
        NotRunning \<Rightarrow> Some (c\<lparr>closed := True\<rparr>)
      | RecvEnd \<Rightarrow> Some (c\<lparr>closed := True\<rparr>)
      | Recv chunk \<Rightarrow> do {
          c' \<leftarrow> drain transact send (c\<lparr>buf := buf c @ chunk\<rparr>);
          serve_client transact send c' evs
        })"

section \<open>Cutting a stream into frames\<close>

function split_stream :: "u8 list \<Rightarrow> mbap_frame list \<times> decode_error \<times> u8 list" where
  "split_stream xs = (case parse_adu xs of
     More \<Rightarrow> ([], NeedMoreData, xs)
   | Bad e \<Rightarrow> ([], e, xs)
   | Got f rest \<Rightarrow> (case split_stream rest of (fs, e, r) \<Rightarrow> (f # fs, e, r)))"
  by pat_completeness auto
termination
  by (relation "measure length") (auto dest: parse_Got_length)

declare split_stream.simps [simp del]

lemma split_More: "parse_adu xs = More \<Longrightarrow> split_stream xs = ([], NeedMoreData, xs)"
  by (simp add: split_stream.simps)

lemma split_Bad: "parse_adu xs = Bad e \<Longrightarrow> split_stream xs = ([], e, xs)"
  by (simp add: split_stream.simps)

lemma split_Got: "parse_adu xs = Got f rest \<Longrightarrow>
  split_stream xs = (case split_stream rest of (fs, e, r) \<Rightarrow> (f # fs, e, r))"
  by (simp add: split_stream.simps)

lemma split_stream_append:
  "split_stream xs = (fs, NeedMoreData, r) \<Longrightarrow>
    split_stream (xs @ ys) = (case split_stream (r @ ys) of (gs, e, s) \<Rightarrow> (fs @ gs, e, s))"
proof (induction xs arbitrary: fs r rule: split_stream.induct)
  case (1 xs)
  show ?case
  proof (cases "parse_adu xs")
    case (Got f rest)
    then obtain gs where "split_stream rest = (gs, NeedMoreData, r)" "fs = f # gs"
      using 1(2) by (auto simp: split_Got split: prod.splits)
    then show ?thesis
      using 1(1) [OF Got] split_Got [OF parse_Got_append [OF Got]] by (auto split: prod.splits)
  qed (use 1(2) parse_Bad_error in \<open>auto simp: split_More split_Bad split: prod.splits\<close>)
qed

lemma split_stream_append_bad:
  "split_stream xs = (fs, e, r) \<Longrightarrow> e \<noteq> NeedMoreData \<Longrightarrow> split_stream (xs @ ys) = (fs, e, r @ ys)"
proof (induction xs arbitrary: fs r rule: split_stream.induct)
  case (1 xs)
  show ?case
  proof (cases "parse_adu xs")
    case (Got f rest)
    then show ?thesis
      using 1 split_Got [OF parse_Got_append [OF Got, of ys]]
      by (auto simp: split_Got split: prod.splits)
  next
    case (Bad e')
    then show ?thesis using 1(2) split_Bad [OF parse_Bad_append [OF Bad]] by (simp add: split_Bad)
  qed (use 1(2,3) in \<open>simp add: split_More\<close>)
qed

lemma split_stream_encode:
  "list_all wf_frame fs \<Longrightarrow> split_stream (concat (map encode fs)) = (fs, NeedMoreData, [])"
proof (induction fs)
  case Nil
  then show ?case by (simp add: split_More parse_adu_short)
next
  case (Cons f fs)
  then show ?case by (simp add: split_Got [OF parse_encode])
qed

lemma split_stream_rest: "split_stream xs = (fs, NeedMoreData, r) \<Longrightarrow> parse_adu r = More"
proof (induction xs arbitrary: fs rule: split_stream.induct)
  case (1 xs)
  show ?case
  proof (cases "parse_adu xs")
    case (Got f rest)
    then show ?thesis using 1 by (auto simp: split_Got split: prod.splits)
  qed (use 1(2) parse_Bad_error in \<open>auto simp: split_More split_Bad\<close>)
qed

section \<open>Handling the frames in order\<close>

fun handle_all :: "'t transact \<Rightarrow> 't \<Rightarrow> gateway_stats \<Rightarrow> mbap_frame list \<Rightarrow>
    (mbap_frame list \<times> 't \<times> gateway_stats) option" where
  "handle_all transact t st [] = Some ([], t, st)"
| "handle_all transact t st (f # fs) = do {
     (rsp, t, st) \<leftarrow> gateway_handle transact t st f;
     (rsps, t, st) \<leftarrow> handle_all transact t st fs;
     Some (rsp # rsps, t, st)
   }"

lemma handle_all_ConsE:
  assumes "handle_all transact t st (f # fs) = Some (rs, t', st')"
  obtains rsp u su rs' where "gateway_handle transact t st f = Some (rsp, u, su)"
    "handle_all transact u su fs = Some (rs', t', st')" "rs = rsp # rs'"
  using assms by (auto simp: bind_eq_Some_conv)

lemma handle_all_append:
  "handle_all transact t st (fs @ gs) = do {
     (rs, t, st) \<leftarrow> handle_all transact t st fs;
     (rs', t, st) \<leftarrow> handle_all transact t st gs;
     Some (rs @ rs', t, st) }"
  by (induction fs arbitrary: t st) (auto split: bind_splits)

context rtu_transport
begin

lemma handle_all_responds:
  "inv t \<Longrightarrow> \<exists>rs t' st'. handle_all transact t st fs = Some (rs, t', st') \<and> inv t' \<and>
    map transaction_id rs = map transaction_id fs"
proof (induction fs arbitrary: t st)
  case (Cons f fs)
  obtain rsp u su where h: "gateway_handle transact t st f = Some (rsp, u, su)" "inv u"
    "transaction_id rsp = transaction_id f"
    using handle_responds [OF Cons.prems] by metis
  obtain rs t' st' where "handle_all transact u su fs = Some (rs, t', st')" "inv t'"
    "map transaction_id rs = map transaction_id fs"
    using Cons.IH [OF h(2)] by metis
  with h show ?case by simp
qed simp

end

context addressed_transport
begin

lemma handle_all_addressed:
  "inv t \<Longrightarrow> list_all wf_frame fs \<Longrightarrow> handle_all transact t st fs = Some (rs, t', st') \<Longrightarrow>
    map unit_id rs = map unit_id fs \<and> list_all wf_frame rs"
proof (induction fs arbitrary: t st rs)
  case (Cons f fs)
  from Cons.prems(3) obtain rsp u su rs' where h: "gateway_handle transact t st f = Some (rsp, u, su)"
    "handle_all transact u su fs = Some (rs', t', st')" "rs = rsp # rs'"
    by (rule handle_all_ConsE)
  have "inv u"
    using handle_responds [OF Cons.prems(1), of st f] h(1) by auto
  moreover have "length (pdu f) \<le> 253"
    using Cons.prems(2) by (simp add: wf_frame_def mbap_consts)
  ultimately show ?case
    using Cons.IH [OF _ _ h(2)] handle_addressed [OF Cons.prems(1) _ h(1)] Cons.prems(2) h(3) by simp
qed simp

end

section \<open>The loop implements the stream\<close>

text \<open>A socket that accepts at least one byte of every non-empty write.\<close>

definition accepts :: "'e send_call \<Rightarrow> bool" where
  "accepts send \<longleftrightarrow> (\<forall>e out. out \<noteq> [] \<longrightarrow> 0 < fst (send e out))"

lemma send_all_prefix:
  "\<exists>ok e' d. send_all send e out sent outb = (ok, e', outb @ d) \<and> prefix d (drop sent out) \<and>
    (ok \<longrightarrow> d = drop sent out) \<and> (accepts send \<longrightarrow> ok)"
proof (induction send e out sent outb rule: send_all.induct)
  case (1 send e out sent outb)
  obtain w e' where w: "send e (drop sent out) = (w, e')" by fastforce
  consider "length out \<le> sent" | "sent < length out" "w = 0" | "sent < length out" "w \<noteq> 0"
    by linarith
  then show ?case
  proof cases
    case 2
    then have "drop sent out \<noteq> []" by simp
    then have "\<not> accepts send"
      using w 2(2) unfolding accepts_def by (metis fst_conv less_irrefl)
    then show ?thesis
      using 2 w by (auto simp: send_all.simps [of send e])
  next
    case 3
    then obtain ok e'' d where d: "send_all send e' out (sent + w) (outb @ take w (drop sent out))
        = (ok, e'', (outb @ take w (drop sent out)) @ d)"
      "prefix d (drop (sent + w) out)" "ok \<longrightarrow> d = drop (sent + w) out" "accepts send \<longrightarrow> ok"
      using 1 [OF 3(1) w [symmetric] 3(2)] by blast
    have "drop sent out = take w (drop sent out) @ drop (sent + w) out"
      by (metis append_take_drop_id drop_drop add.commute)
    then have "prefix (take w (drop sent out) @ d) (drop sent out)"
      "ok \<longrightarrow> take w (drop sent out) @ d = drop sent out"
      using d(2,3) by (metis same_prefix_prefix, metis)
    then show ?thesis
      using 3 w d(1,4) by (simp add: send_all.simps [of send e])
  qed (auto simp: send_all.simps [of send e])
qed

lemma decode_More: "parse_adu xs = More \<Longrightarrow>
  decode xs (length xs) = Some \<lparr>frame = None, error = NeedMoreData, consumed = 0\<rparr>"
  by (simp add: decode_parse)

lemma decode_Bad: "parse_adu xs = Bad e \<Longrightarrow>
  decode xs (length xs) = Some \<lparr>frame = None, error = e, consumed = 0\<rparr>"
  by (simp add: decode_parse)

lemma decode_Got: "parse_adu xs = Got f rest \<Longrightarrow> decode xs (length xs) =
    Some \<lparr>frame = Some f, error = NeedMoreData, consumed = length xs - length rest\<rparr>"
  by (simp add: decode_parse)

lemma erase_parsed: "parse_adu xs = Got f rest \<Longrightarrow>
  erase_front (length xs - length rest) xs = Some rest"
  by (auto simp: parse_Got_iff erase_front_def)

lemma drain_run:
  assumes "split_stream (buf c) = (fs, e, r)"
    and "handle_all transact (bus c) (stats c) fs = Some (rs, t, st)" and "\<not> closed c"
  shows "\<exists>c' d. drain transact send c = Some c' \<and> outbox c' = outbox c @ d \<and>
    prefix d (concat (map encode rs)) \<and>
    (closed c' \<or> e = NeedMoreData \<and> d = concat (map encode rs) \<and>
      buf c' = r \<and> bus c' = t \<and> stats c' = st) \<and>
    (accepts send \<longrightarrow> d = concat (map encode rs) \<and> buf c' = r \<and> bus c' = t \<and>
      stats c' = (if e = NeedMoreData then st else st\<lparr>malformed := malformed st + 1\<rparr>) \<and>
      closed c' = (e \<noteq> NeedMoreData))"
  using assms
proof (induction "length (buf c)" arbitrary: c fs rs rule: less_induct)
  case less
  show ?case
  proof (cases "parse_adu (buf c)")
    case More
    then have "drain transact send c = Some c"
      by (simp add: drain.simps [of transact send c] decode_More)
    then show ?thesis
      using less.prems More by (auto simp: split_More)
  next
    case (Bad e')
    then have "drain transact send c =
        Some (c\<lparr>stats := (stats c)\<lparr>malformed := malformed (stats c) + 1\<rparr>, closed := True\<rparr>)"
      using parse_Bad_error by (simp add: drain.simps [of transact send c] decode_Bad)
    then show ?thesis
      using less.prems Bad parse_Bad_error [OF Bad] by (auto simp: split_Bad)
  next
    case (Got f rest)
    then obtain gs where gs: "split_stream rest = (gs, e, r)" "fs = f # gs"
      using less.prems(1) by (auto simp: split_Got split: prod.splits)
    obtain rsp u su rs' where h: "gateway_handle transact (bus c) (stats c) f = Some (rsp, u, su)"
      "handle_all transact u su gs = Some (rs', t, st)" "rs = rsp # rs'"
      using less.prems(2) gs(2) by (auto elim: handle_all_ConsE simp del: handle_all.simps)
    obtain ok e' d1 where send: "send_all send (sock c) (encode rsp) 0 (outbox c) = (ok, e', outbox c @ d1)"
      "prefix d1 (encode rsp)" "ok \<longrightarrow> d1 = encode rsp" "accepts send \<longrightarrow> ok"
      using send_all_prefix [of send "sock c" "encode rsp" 0 "outbox c"] by auto
    let ?c = "c\<lparr>buf := rest, bus := u, stats := su, sock := e', outbox := outbox c @ d1\<rparr>"
    have step: "drain transact send c =
        (if ok then drain transact send ?c
         else Some (c\<lparr>bus := u, stats := su, sock := e', outbox := outbox c @ d1, closed := True\<rparr>))"
      by (simp add: drain.simps [of transact send c] decode_Got [OF Got] h(1) send(1) erase_parsed [OF Got])
    show ?thesis
    proof (cases ok)
      case True
      have "length (buf ?c) < length (buf c)"
        using parse_Got_length [OF Got] by simp
      from less.hyps [OF this, of gs rs'] gs(1) h(2) less.prems(3) obtain c' d where
        "drain transact send ?c = Some c'" "outbox c' = outbox c @ d1 @ d"
        "prefix d (concat (map encode rs'))"
        "closed c' \<or> e = NeedMoreData \<and> d = concat (map encode rs') \<and> buf c' = r \<and> bus c' = t \<and> stats c' = st"
        "accepts send \<longrightarrow> d = concat (map encode rs') \<and> buf c' = r \<and> bus c' = t \<and>
          stats c' = (if e = NeedMoreData then st else st\<lparr>malformed := malformed st + 1\<rparr>) \<and>
          closed c' = (e \<noteq> NeedMoreData)"
        by auto
      then show ?thesis
        using True send(3) h(3) by (intro exI [of _ c'] exI [of _ "d1 @ d"]) (simp add: step)
    next
      case False
      then show ?thesis
        using send(2,4) h(3) by (auto simp: step intro: prefix_order.trans)
    qed
  qed
qed

text \<open>The bytes received before the loop ends, and whether an event ends it.\<close>

fun received :: "loop_event list \<Rightarrow> u8 list" where
  "received (Recv chunk # evs) = chunk @ received evs"
| "received _ = []"

fun ended :: "loop_event list \<Rightarrow> bool" where
  "ended (Recv chunk # evs) = ended evs"
| "ended [] = False"
| "ended _ = True"

lemma received_Recv [simp]: "received (map Recv cs) = concat cs"
  by (induction cs) simp_all

lemma received_append: "received (map Recv cs @ evs) = concat cs @ received evs"
  by (induction cs) simp_all

lemma ended_Recv [simp]: "\<not> ended (map Recv cs)"
  by (induction cs) simp_all

lemma serve_closed: "closed c \<Longrightarrow> serve_client transact send c evs = Some c"
  by (cases evs) simp_all

lemma serve_run:
  assumes "split_stream (buf c @ received evs) = (fs, e, r)"
    and "handle_all transact (bus c) (stats c) fs = Some (rs, t, st)"
    and "\<not> closed c" and "parse_adu (buf c) = More"
  shows "\<exists>c' d. serve_client transact send c evs = Some c' \<and> outbox c' = outbox c @ d \<and>
    prefix d (concat (map encode rs)) \<and>
    (accepts send \<longrightarrow> d = concat (map encode rs) \<and> bus c' = t \<and>
      stats c' = (if e = NeedMoreData then st else st\<lparr>malformed := malformed st + 1\<rparr>) \<and>
      closed c' = (e \<noteq> NeedMoreData \<or> ended evs) \<and> (e = NeedMoreData \<longrightarrow> buf c' = r))"
  using assms
proof (induction evs arbitrary: c fs rs)
  case Nil
  then show ?case by (simp add: split_More)
next
  case (Cons ev evs)
  show ?case
  proof (cases ev)
    case (Recv chunk)
    obtain fs1 e1 r1 where split1: "split_stream (buf c @ chunk) = (fs1, e1, r1)"
      by (metis prod_cases3)
    obtain fs2 where fs: "fs = fs1 @ fs2"
      and more: "e1 = NeedMoreData \<Longrightarrow> split_stream (r1 @ received evs) = (fs2, e, r)"
      and bad: "e1 \<noteq> NeedMoreData \<Longrightarrow> fs2 = [] \<and> e = e1"
      using Cons.prems(1) Recv split_stream_append [of "buf c @ chunk" fs1 r1 "received evs"]
        split_stream_append_bad [OF split1, of "received evs"] split1
      by (cases "e1 = NeedMoreData") (auto split: prod.splits)
    obtain rs1 t1 st1 rs2 where h1: "handle_all transact (bus c) (stats c) fs1 = Some (rs1, t1, st1)"
      and h2: "handle_all transact t1 st1 fs2 = Some (rs2, t, st)" and rs: "rs = rs1 @ rs2"
      using Cons.prems(2) by (auto simp: fs handle_all_append bind_eq_Some_conv)
    obtain c1 d1 where d1: "drain transact send (c\<lparr>buf := buf c @ chunk\<rparr>) = Some c1"
      "outbox c1 = outbox c @ d1" "prefix d1 (concat (map encode rs1))"
      and open1: "closed c1 \<or> e1 = NeedMoreData \<and> d1 = concat (map encode rs1) \<and>
        buf c1 = r1 \<and> bus c1 = t1 \<and> stats c1 = st1"
      and acc1: "accepts send \<longrightarrow> d1 = concat (map encode rs1) \<and> buf c1 = r1 \<and> bus c1 = t1 \<and>
        stats c1 = (if e1 = NeedMoreData then st1 else st1\<lparr>malformed := malformed st1 + 1\<rparr>) \<and>
        closed c1 = (e1 \<noteq> NeedMoreData)"
      using drain_run [of "c\<lparr>buf := buf c @ chunk\<rparr>" fs1 e1 r1 transact rs1 t1 st1 send]
        split1 h1 Cons.prems(3) by auto
    have serve: "serve_client transact send c (ev # evs) = serve_client transact send c1 evs"
      using Recv d1(1) Cons.prems(3) by simp
    show ?thesis
    proof (cases "closed c1")
      case True
      then show ?thesis
        using d1 acc1 bad serve h2 rs
        by (auto simp: serve_closed intro: prefix_order.trans)
    next
      case False
      with open1 have st1: "e1 = NeedMoreData" "d1 = concat (map encode rs1)" "buf c1 = r1"
        "bus c1 = t1" "stats c1 = st1" by auto
      have "parse_adu r1 = More"
        using split_stream_rest split1 st1(1) by blast
      then obtain c' d where "serve_client transact send c1 evs = Some c'" "outbox c' = outbox c1 @ d"
        "prefix d (concat (map encode rs2))"
        "accepts send \<longrightarrow> d = concat (map encode rs2) \<and> bus c' = t \<and>
          stats c' = (if e = NeedMoreData then st else st\<lparr>malformed := malformed st + 1\<rparr>) \<and>
          closed c' = (e \<noteq> NeedMoreData \<or> ended evs) \<and> (e = NeedMoreData \<longrightarrow> buf c' = r)"
        using Cons.IH [of c1 fs2 rs2] more h2 st1 False by auto
      then show ?thesis
        using serve d1(2) st1(2) rs Recv
        by (intro exI [of _ c'] exI [of _ "d1 @ d"]) simp
    qed
  qed (use Cons.prems in \<open>auto simp: split_More\<close>)
qed

lemma handle_all_bus_run:
  assumes "in_process_wf t" and "distinct (map addr (slaves t))" and "list_all wf_frame fs"
  shows "\<exists>t' st'. handle_all (in_process_transact garbage) t st fs =
      Some (fst (bus_run (bus_of (slaves t)) fs), t', st') \<and>
    bus_of (slaves t') = snd (bus_run (bus_of (slaves t)) fs)"
  using assms
proof (induction fs arbitrary: t st)
  case (Cons f fs)
  obtain u su where h: "gateway_handle (in_process_transact garbage) t st f =
      Some (fst (bus_request (bus_of (slaves t)) f), u, su)"
    "bus_of (slaves u) = snd (bus_request (bus_of (slaves t)) f)" "in_process_wf u"
    "distinct (map addr (slaves u))"
    using gateway_bus_step [OF Cons.prems(1,2), of f garbage st] Cons.prems(2,3) by auto
  then show ?case
    using Cons.IH [OF h(3,4), of su] Cons.prems(3) by (auto simp: split_beta)
qed simp

text \<open>While the connection is open, the buffer holds no complete frame and no framing error.\<close>

lemma drain_waits:
  "drain transact send c = Some c' \<Longrightarrow> closed c' \<or> parse_adu (buf c') = More"
proof (induction transact send c rule: drain.induct)
  case (1 transact send c)
  show ?case
  proof (cases "parse_adu (buf c)")
    case (Got f rest)
    from 1(2) obtain rsp t st where h: "gateway_handle transact (bus c) (stats c) f = Some (rsp, t, st)"
      by (auto simp: drain.simps [of transact send c] decode_Got [OF Got] bind_eq_Some_conv)
    obtain ok e outb where s: "send_all send (sock c) (encode rsp) 0 (outbox c) = (ok, e, outb)"
      by (metis prod_cases3)
    show ?thesis
      using 1(1) [OF decode_Got [OF Got] _ h _ _ s [symmetric] refl] 1(2) erase_parsed [OF Got]
      by (auto simp: drain.simps [of transact send c] decode_Got [OF Got] h s split: if_splits)
  qed (use 1(2) parse_Bad_error in \<open>auto simp: drain.simps [of transact send c] decode_More decode_Bad
      split: if_splits\<close>)
qed

lemma serve_waits:
  "serve_client transact send c evs = Some c' \<Longrightarrow> parse_adu (buf c) = More \<Longrightarrow>
    closed c' \<or> parse_adu (buf c') = More"
proof (induction evs arbitrary: c)
  case (Cons ev evs)
  show ?case
  proof (cases "closed c")
    case False
    show ?thesis
    proof (cases ev)
      case (Recv chunk)
      then obtain d where "drain transact send (c\<lparr>buf := buf c @ chunk\<rparr>) = Some d"
        "serve_client transact send d evs = Some c'"
        using Cons.prems False by (auto simp: bind_eq_Some_conv)
      then show ?thesis
        using Cons.IH drain_waits serve_closed [of d transact send evs] by fastforce
    qed (use Cons.prems False in auto)
  qed (use Cons.prems in simp)
qed simp

text \<open>A new connection: \<open>serve_client\<close> starts with an empty buffer.\<close>

definition new_conn :: "'t \<Rightarrow> gateway_stats \<Rightarrow> 'e \<Rightarrow> ('t, 'e) conn" where
  "new_conn t st e = \<lparr>buf = [], bus = t, stats = st, sock = e, outbox = [], closed = False\<rparr>"

lemma new_conn_simps [simp]:
  "buf (new_conn t st e) = []" "bus (new_conn t st e) = t" "stats (new_conn t st e) = st"
  "sock (new_conn t st e) = e" "outbox (new_conn t st e) = []" "\<not> closed (new_conn t st e)"
  by (simp_all add: new_conn_def)

lemma parse_Nil [simp]: "parse_adu [] = More"
  by simp

lemma split_stream_frames_tail:
  "list_all wf_frame fs \<Longrightarrow> split_stream (concat (map encode fs) @ tail) =
    (case split_stream tail of (gs, e, r) \<Rightarrow> (fs @ gs, e, r))"
  using split_stream_append [OF split_stream_encode, of fs tail] by simp

lemma handle_all_malformed:
  "list_all wf_frame fs \<Longrightarrow> handle_all transact t st fs = Some (rs, t', st') \<Longrightarrow>
    malformed st' = malformed st"
proof (induction fs arbitrary: t st rs)
  case (Cons f fs)
  from Cons.prems(2) obtain rsp u su rs' where h: "gateway_handle transact t st f = Some (rsp, u, su)"
    "handle_all transact u su fs = Some (rs', t', st')"
    by (rule handle_all_ConsE)
  have "pdu f \<noteq> []"
    using Cons.prems(1) by (auto simp: wf_frame_def)
  then show ?case
    using gateway_handle_counts [OF h(1)] Cons.IH [OF _ h(2)] Cons.prems(1) by simp
qed simp

lemma bus_run_wf:
  assumes "in_process_wf t" and "distinct (map addr (slaves t))" and "list_all wf_frame fs"
  shows "list_all wf_frame (fst (bus_run (bus_of (slaves t)) fs)) \<and>
    map unit_id (fst (bus_run (bus_of (slaves t)) fs)) = map unit_id fs \<and>
    map transaction_id (fst (bus_run (bus_of (slaves t)) fs)) = map transaction_id fs"
proof -
  obtain t' st' where h: "handle_all (in_process_transact (\<lambda>_. 0)) t idle_stats fs =
      Some (fst (bus_run (bus_of (slaves t)) fs), t', st')"
    using handle_all_bus_run [OF assms] by blast
  then show ?thesis
    using inproc.handle_all_addressed [OF assms(1,3) h]
      inproc.handle_all_responds [OF assms(1), of "\<lambda>_. 0" idle_stats fs] by auto
qed

lemma serve_client_returns:
  assumes "rtu_transport transact legal" and "legal t"
  shows "\<exists>c'. serve_client transact send (new_conn t st e) evs = Some c'"
proof -
  obtain fs err r where split: "split_stream (buf (new_conn t st e) @ received evs) = (fs, err, r)"
    by (metis prod_cases3)
  obtain rs t' st' where "handle_all transact t st fs = Some (rs, t', st')"
    using rtu_transport.handle_all_responds [OF assms] by metis
  then show ?thesis
    using serve_run [OF split] by fastforce
qed

section \<open>Properties\<close>

text \<open>C4: Segmentation does not matter. However TCP cuts the byte stream of a sequence of requests
  into chunks, \<open>serve_client\<close> over the in-process backend handles exactly these requests, in
  their order, and sends exactly the responses of the abstract bus, one after the other; a master
  that decodes the bytes it received gets these responses back, each with the transaction id and
  the unit id of its request. An incomplete frame at the end stays in the buffer.\<close>

theorem serve_client_any_segmentation:
  assumes "in_process_wf t" and "distinct (map addr (slaves t))" and "accepts send"
    and "list_all wf_frame fs" and "parse_adu tail = More"
    and "concat chunks = concat (map encode fs) @ tail"
  shows "\<exists>c'. serve_client (in_process_transact garbage) send (new_conn t st e) (map Recv chunks) = Some c' \<and>
    (case bus_run (bus_of (slaves t)) fs of (rs, bus_after) \<Rightarrow>
      outbox c' = concat (map encode rs) \<and> bus_of (slaves (bus c')) = bus_after \<and>
      split_stream (outbox c') = (rs, NeedMoreData, []) \<and>
      map transaction_id rs = map transaction_id fs \<and> map unit_id rs = map unit_id fs) \<and>
    buf c' = tail \<and> \<not> closed c'"
proof -
  obtain t' st' where h: "handle_all (in_process_transact garbage) t st fs =
      Some (fst (bus_run (bus_of (slaves t)) fs), t', st')"
    "bus_of (slaves t') = snd (bus_run (bus_of (slaves t)) fs)"
    using handle_all_bus_run [OF assms(1,2,4)] by blast
  have "split_stream (buf (new_conn t st e) @ received (map Recv chunks)) = (fs, NeedMoreData, tail)"
    using split_stream_frames_tail [OF assms(4), of tail] assms(5,6) by (simp add: split_More)
  from serve_run [OF this, of "in_process_transact garbage" _ t' st' send] h assms(3) obtain c' where
    "serve_client (in_process_transact garbage) send (new_conn t st e) (map Recv chunks) = Some c'"
    "outbox c' = concat (map encode (fst (bus_run (bus_of (slaves t)) fs)))" "bus c' = t'"
    "\<not> closed c'" "buf c' = tail"
    by auto
  then show ?thesis
    using h(2) bus_run_wf [OF assms(1,2,4)] split_stream_encode by (auto simp: split_beta)
qed

lemma accepts_one_byte: "accepts (\<lambda>e out. (1, e))"
  by (simp add: accepts_def)

theorem serve_client_any_segmentation_witness:
  "\<exists>c'. serve_client (in_process_transact (\<lambda>_. 0)) (\<lambda>e out. (1, e)) (new_conn demo_bus idle_stats ())
      (map Recv [[0, 9, 0], [0, 0, 6, 17, 3, 0, 1], [0, 2, 0]]) = Some c' \<and>
    outbox c' = [0, 9, 0, 0, 0, 7, 17, 3, 4, 0, 20, 0, 30] \<and> buf c' = [0]"
proof -
  have "bus_run (bus_of (slaves demo_bus)) [read_request 9 17 1 2] =
      ([read_response 9 17 (window 1 2 [10, 20, 30])], bus_of (slaves demo_bus))"
    using bus_read [of 17 "bus_of (slaves demo_bus)", OF _ demo_bus_units(1), of 2 1 9] by simp
  moreover have "encode (read_response 9 17 (window 1 2 [10, 20, 30])) = [0, 9, 0, 0, 0, 7, 17, 3, 4, 0, 20, 0, 30]"
    by code_simp
  moreover have "concat [[0, 9, 0], [0, 0, 6, 17, 3, 0, 1], [0, 2, 0]] =
      concat (map encode [read_request 9 17 1 2]) @ [0]"
    by code_simp
  ultimately show ?thesis
    using serve_client_any_segmentation [OF demo_bus_ok accepts_one_byte, of "[read_request 9 17 1 2]" "[0]"
      "[[0, 9, 0], [0, 0, 6, 17, 3, 0, 1], [0, 2, 0]]" "\<lambda>_. 0" idle_stats "()"]
    by auto
qed

text \<open>C28: A framing error ends the connection after the requests before it. When a bad header
  follows a sequence of well-formed requests, these are handled and answered in order, then the
  connection is closed; nothing after the bad header is handled, whatever arrives later, and
  \<open>malformed\<close> goes up by exactly one.\<close>

theorem serve_client_framing_error:
  assumes "in_process_wf t" and "distinct (map addr (slaves t))" and "accepts send"
    and "list_all wf_frame fs" and "parse_adu bad = Bad e"
    and "concat chunks = concat (map encode fs) @ bad"
  shows "\<exists>c'. serve_client (in_process_transact garbage) send (new_conn t st s) (map Recv chunks @ evs) = Some c' \<and>
    outbox c' = concat (map encode (fst (bus_run (bus_of (slaves t)) fs))) \<and>
    bus_of (slaves (bus c')) = snd (bus_run (bus_of (slaves t)) fs) \<and>
    malformed (stats c') = malformed st + 1 \<and> closed c'"
proof -
  have e: "e \<noteq> NeedMoreData"
    using assms(5) by (rule parse_Bad_error)
  obtain t' st' where h: "handle_all (in_process_transact garbage) t st fs =
      Some (fst (bus_run (bus_of (slaves t)) fs), t', st')"
    "bus_of (slaves t') = snd (bus_run (bus_of (slaves t)) fs)"
    using handle_all_bus_run [OF assms(1,2,4)] by blast
  have "split_stream (buf (new_conn t st s) @ received (map Recv chunks @ evs)) = (fs, e, bad @ received evs)"
    using split_stream_frames_tail [OF assms(4), of "bad @ received evs"] assms(6)
      split_Bad [OF parse_Bad_append [OF assms(5)]] by (simp add: received_append)
  from serve_run [OF this, of "in_process_transact garbage" _ t' st' send] h assms(3) e obtain c' where
    "serve_client (in_process_transact garbage) send (new_conn t st s) (map Recv chunks @ evs) = Some c'"
    "outbox c' = concat (map encode (fst (bus_run (bus_of (slaves t)) fs)))" "bus c' = t'"
    "stats c' = st'\<lparr>malformed := malformed st' + 1\<rparr>" "closed c'"
    by auto
  then show ?thesis
    using h(2) handle_all_malformed [OF assms(4) h(1)] by auto
qed

theorem serve_client_framing_error_witness:
  "\<exists>c'. serve_client (in_process_transact (\<lambda>_. 0)) (\<lambda>e out. (1, e)) (new_conn demo_bus idle_stats ())
      (map Recv [encode (read_request 9 17 1 2) @ [0, 1, 0, 7], [0, 6, 17]] @ [Recv [1], RecvEnd]) = Some c' \<and>
    closed c' \<and> malformed (stats c') = 1"
proof -
  have "parse_adu [0, 1, 0, 7, 0, 6, 17] = Bad BadProtocolId" by code_simp
  from serve_client_framing_error [OF demo_bus_ok accepts_one_byte _ this, of "[read_request 9 17 1 2]"
      "[encode (read_request 9 17 1 2) @ [0, 1, 0, 7], [0, 6, 17]]" "\<lambda>_. 0" idle_stats "()" "[Recv [1], RecvEnd]"]
  show ?thesis by (auto simp: idle_stats_def)
qed

text \<open>The connection loop is safe over every transport and every socket. Whatever arrives and
  whatever \<open>send\<close> accepts, each run of \<open>serve_client\<close> returns without an access outside its
  buffers, and while the connection is open its buffer holds less than one maximal ADU, so a peer
  cannot make it grow.\<close>

theorem serve_client_buffer_bounded:
  assumes "rtu_transport transact legal" and "legal t"
  shows "\<exists>c'. serve_client transact send (new_conn t st e) evs = Some c' \<and>
    (closed c' \<or> parse_adu (buf c') = More \<and> length (buf c') < MAX_TCP_ADU)"
proof -
  obtain c' where c': "serve_client transact send (new_conn t st e) evs = Some c'"
    using serve_client_returns [OF assms] by metis
  then show ?thesis
    using serve_waits [OF c'] parse_More_bound by auto
qed

theorem serve_client_buffer_bounded_witness:
  "\<exists>c'. serve_client (in_process_transact (\<lambda>_. 0)) (\<lambda>e out. (1, e)) (new_conn demo_bus idle_stats ())
      (map Recv [[0, 9, 0], [0, 0, 6, 17, 3, 0, 1], [0, 2, 0]]) = Some c' \<and>
    (closed c' \<or> length (buf c') < 260)"
  using serve_client_buffer_bounded [OF inproc.rtu_transport_axioms demo_bus_ok(1), of "\<lambda>_. 0" "\<lambda>e out. (1, e)"
    idle_stats "()" "map Recv [[0, 9, 0], [0, 0, 6, 17, 3, 0, 1], [0, 2, 0]]"]
  by (auto simp: mbap_consts)

text \<open>A failing socket never garbles the response stream. Over every transport and every socket,
  also one that stops accepting bytes, what a connection sends is a prefix of its responses in
  request order, and the responses carry the transaction ids of the requests in the received
  stream, one response per request.\<close>

theorem serve_client_sends_prefix:
  assumes "rtu_transport transact legal" and "legal t"
  shows "\<exists>c' rs t' st'. serve_client transact send (new_conn t st e) evs = Some c' \<and>
    handle_all transact t st (fst (split_stream (received evs))) = Some (rs, t', st') \<and>
    map transaction_id rs = map transaction_id (fst (split_stream (received evs))) \<and>
    prefix (outbox c') (concat (map encode rs))"
proof -
  obtain fs err r where split: "split_stream (received evs) = (fs, err, r)"
    by (metis prod_cases3)
  obtain rs t' st' where h: "handle_all transact t st fs = Some (rs, t', st')"
    "map transaction_id rs = map transaction_id fs"
    using rtu_transport.handle_all_responds [OF assms] by metis
  then show ?thesis
    using serve_run [of "new_conn t st e" evs fs err r transact rs t' st' send] split by auto
qed

theorem serve_client_sends_prefix_witness:
  "\<exists>c' rs t' st'. serve_client (in_process_transact (\<lambda>_. 0)) (\<lambda>n out. (min n 2, n - 2)) (new_conn demo_bus idle_stats 3)
      [Recv (encode (read_request 9 17 1 2))] = Some c' \<and>
    handle_all (in_process_transact (\<lambda>_. 0)) demo_bus idle_stats
      (fst (split_stream (received [Recv (encode (read_request 9 17 1 2))]))) = Some (rs, t', st') \<and>
    prefix (outbox c') (concat (map encode rs))"
  using serve_client_sends_prefix [OF inproc.rtu_transport_axioms demo_bus_ok(1), of "\<lambda>_. 0" "\<lambda>n out. (min n 2, n - 2)"
    idle_stats "3::nat" "[Recv (encode (read_request 9 17 1 2))]"]
  by blast

end
