(* ===== verification/Routing.thy ===== *)
theory Routing
  imports Gateway_Bus
begin

text \<open>
  Concurrent masters. \<open>src/main.cpp\<close> starts one thread per connection and every thread calls
  \<open>Gateway::handle\<close> on one shared gateway. The threads share the atomic counters of
  \<open>GatewayStats\<close> and the transport, whose \<open>transact\<close> runs under a mutex; a request and its
  response live in the thread. \<open>gateway_handle\<close> is cut at exactly these shared accesses, and
  \<open>gw_step\<close> interleaves the pieces of all threads. The lemmas relate every interleaving to a
  sequential run: the responses are those of \<open>Gateway::handle\<close> called in the order in
  which the requests obtained the bus.
\<close>

section \<open>The handler cut at its shared accesses\<close>

definition gw_count :: "gateway_stats \<Rightarrow> gateway_stats" where
  "gw_count st = st\<lparr>requests := requests st + 1\<rparr>"

definition gw_reject :: "gateway_stats \<Rightarrow> mbap_frame \<Rightarrow> mbap_frame \<times> gateway_stats" where
  "gw_reject st req =
     (make_exception (transaction_id req) (unit_id req) 0 EX_GATEWAY_PATH_UNAVAILABLE,
      st\<lparr>malformed := malformed st + 1\<rparr>)"

definition gw_transact :: "'t transact \<Rightarrow> 't \<Rightarrow> mbap_frame \<Rightarrow> (bool \<times> u8 list \<times> 't) option" where
  "gw_transact transact t req = do { adu \<leftarrow> tcp_to_rtu req; transact t adu [] }"

definition gw_finish ::
    "gateway_stats \<Rightarrow> mbap_frame \<Rightarrow> bool \<Rightarrow> u8 list \<Rightarrow> (mbap_frame \<times> gateway_stats) option" where
  "gw_finish st req ok rtu_rsp =
     (let err = make_exception (transaction_id req) (unit_id req) (hd (pdu req))
                  EX_GATEWAY_TARGET_NO_RESPONSE in
      if \<not> ok then Some (err, st\<lparr>timeouts := timeouts st + 1\<rparr>)
      else do {
        tcp_rsp \<leftarrow> rtu_to_tcp rtu_rsp (transaction_id req);
        case tcp_rsp of
          None \<Rightarrow> Some (err, st\<lparr>crc_failures := crc_failures st + 1\<rparr>)
        | Some f \<Rightarrow> Some (f, st\<lparr>responses := responses st + 1\<rparr>)
      })"

lemma gateway_handle_pieces:
  "gateway_handle transact t st req =
     (if pdu req = [] then (case gw_reject (gw_count st) req of (f, st) \<Rightarrow> Some (f, t, st))
      else do {
        (ok, rtu_rsp, t) \<leftarrow> gw_transact transact t req;
        (f, st) \<leftarrow> gw_finish (gw_count st) req ok rtu_rsp;
        Some (f, t, st)
      })"
  by (auto simp: gateway_handle_def gw_count_def gw_reject_def gw_transact_def gw_finish_def Let_def
      split: list.splits bind_splits option.splits)

section \<open>Interleaving\<close>

text \<open>
  Where a thread is: outside \<open>handle\<close>; past \<open>stats_.requests++\<close>; back from the bus. The
  requests and responses are values of the thread.
\<close>

datatype thread_pc = Idle | Counted mbap_frame | Answered mbap_frame bool "u8 list"

text \<open>
  \<open>delivered\<close> records each return of \<open>handle\<close>: client, request, response. The ghost
  \<open>bus_log\<close> records the requests in the order in which they obtained the bus (or were
  refused without it).
\<close>

record 't system =
  threads :: "nat \<Rightarrow> thread_pc"
  bus :: 't
  stats :: gateway_stats
  delivered :: "((nat \<times> mbap_frame) \<times> mbap_frame) list"
  bus_log :: "(nat \<times> mbap_frame) list"

inductive gw_step :: "'t transact \<Rightarrow> 't system \<Rightarrow> 't system \<Rightarrow> bool" for transact where
  start: "threads s i = Idle \<Longrightarrow>
    gw_step transact s (s\<lparr>threads := (threads s)(i := Counted req), stats := gw_count (stats s)\<rparr>)"
| reject: "threads s i = Counted req \<Longrightarrow> pdu req = [] \<Longrightarrow> gw_reject (stats s) req = (f, st) \<Longrightarrow>
    gw_step transact s (s\<lparr>threads := (threads s)(i := Idle), stats := st,
      delivered := delivered s @ [((i, req), f)], bus_log := bus_log s @ [(i, req)]\<rparr>)"
| exchange: "threads s i = Counted req \<Longrightarrow> pdu req \<noteq> [] \<Longrightarrow>
    gw_transact transact (bus s) req = Some (ok, rtu_rsp, t) \<Longrightarrow>
    gw_step transact s (s\<lparr>threads := (threads s)(i := Answered req ok rtu_rsp), bus := t,
      bus_log := bus_log s @ [(i, req)]\<rparr>)"
| finish: "threads s i = Answered req ok rtu_rsp \<Longrightarrow>
    gw_finish (stats s) req ok rtu_rsp = Some (f, st) \<Longrightarrow>
    gw_step transact s (s\<lparr>threads := (threads s)(i := Idle), stats := st,
      delivered := delivered s @ [((i, req), f)]\<rparr>)"

definition zero_stats :: gateway_stats where
  "zero_stats = \<lparr>requests = 0, responses = 0, timeouts = 0, crc_failures = 0, bad_unit = 0,
     malformed = 0\<rparr>"

definition boot :: "'t \<Rightarrow> 't system" where
  "boot t = \<lparr>threads = (\<lambda>_. Idle), bus = t, stats = zero_stats, delivered = [], bus_log = []\<rparr>"

inductive gw_reach :: "'t transact \<Rightarrow> 't \<Rightarrow> 't system \<Rightarrow> bool" for transact t0 where
  reach_boot: "gw_reach transact t0 (boot t0)"
| reach_step: "gw_reach transact t0 s \<Longrightarrow> gw_step transact s s' \<Longrightarrow> gw_reach transact t0 s'"

section \<open>The sequential run\<close>

text \<open>
  The sequential gateway without its counters: the response and the next bus state. The
  counters influence neither.
\<close>

definition handle_frame :: "'t transact \<Rightarrow> 't \<Rightarrow> mbap_frame \<Rightarrow> (mbap_frame \<times> 't) option" where
  "handle_frame transact t req =
     map_option (\<lambda>(f, t, st). (f, t)) (gateway_handle transact t zero_stats req)"

fun sequential :: "'t transact \<Rightarrow> 't \<Rightarrow> mbap_frame list \<Rightarrow> (mbap_frame list \<times> 't) option" where
  "sequential transact t [] = Some ([], t)"
| "sequential transact t (q # qs) = do {
     (f, t) \<leftarrow> handle_frame transact t q;
     (fs, t) \<leftarrow> sequential transact t qs;
     Some (f # fs, t)
   }"

lemma sequential_snoc:
  "sequential transact t (qs @ [q]) = do {
     (fs, t) \<leftarrow> sequential transact t qs;
     (f, t) \<leftarrow> handle_frame transact t q;
     Some (fs @ [f], t) }"
  by (induction qs arbitrary: t) (auto split: bind_splits)

lemma sequential_length: "sequential transact t qs = Some (fs, t') \<Longrightarrow> length fs = length qs"
  by (induction qs arbitrary: t fs) (auto simp: bind_eq_Some_conv)

text \<open>The response a thread will deliver once it is back from the bus.\<close>

definition reply_frame :: "mbap_frame \<Rightarrow> bool \<Rightarrow> u8 list \<Rightarrow> mbap_frame option" where
  "reply_frame req ok rtu_rsp = map_option fst (gw_finish zero_stats req ok rtu_rsp)"

lemma gw_finish_uniform:
  "\<exists>f g. \<forall>st. gw_finish st req ok rtu_rsp = Some (f, g st) \<and> outcomes (g st) = outcomes st + 1 \<and>
    requests (g st) = requests st \<and> bad_unit (g st) = bad_unit st"
proof -
  obtain r where r: "rtu_to_tcp rtu_rsp (transaction_id req) = Some r"
    using rtu_to_tcp_total by blast
  let ?err = "make_exception (transaction_id req) (unit_id req) (hd (pdu req))
    EX_GATEWAY_TARGET_NO_RESPONSE"
  consider "\<not> ok" | "ok" "r = None" | f where "ok" "r = Some f" by blast
  then show ?thesis
  proof cases
    case 1
    then show ?thesis
      by (intro exI [of _ ?err] exI [of _ "\<lambda>st. st\<lparr>timeouts := timeouts st + 1\<rparr>"])
        (simp add: gw_finish_def outcomes_def Let_def)
  next
    case 2
    then show ?thesis
      by (intro exI [of _ ?err] exI [of _ "\<lambda>st. st\<lparr>crc_failures := crc_failures st + 1\<rparr>"])
        (simp add: gw_finish_def outcomes_def Let_def r)
  next
    case 3
    then show ?thesis
      by (intro exI [of _ f] exI [of _ "\<lambda>st. st\<lparr>responses := responses st + 1\<rparr>"])
        (simp add: gw_finish_def outcomes_def Let_def r)
  qed
qed

lemma gw_finish_frame:
  assumes "gw_finish st req ok rtu_rsp = Some (f, st')"
  shows "reply_frame req ok rtu_rsp = Some f"
proof -
  obtain f' g where "\<And>st. gw_finish st req ok rtu_rsp = Some (f', g st)"
    using gw_finish_uniform by metis
  with assms show ?thesis by (simp add: reply_frame_def)
qed

lemma reply_frame_total: "\<exists>f. reply_frame req ok rtu_rsp = Some f"
  using gw_finish_uniform [of req ok rtu_rsp] by (auto simp: reply_frame_def)

lemma handle_frame_exchange:
  assumes "pdu req \<noteq> []" and "gw_transact transact t req = Some (ok, rtu_rsp, t')"
    and "reply_frame req ok rtu_rsp = Some f"
  shows "handle_frame transact t req = Some (f, t')"
proof -
  obtain f' g where "\<And>st. gw_finish st req ok rtu_rsp = Some (f', g st)"
    using gw_finish_uniform by metis
  with assms show ?thesis
    by (simp add: handle_frame_def gateway_handle_pieces reply_frame_def)
qed

lemma handle_frame_reject:
  "pdu req = [] \<Longrightarrow> gw_reject st req = (f, st') \<Longrightarrow> handle_frame transact t req = Some (f, t)"
  by (auto simp: handle_frame_def gateway_handle_pieces gw_reject_def)

section \<open>Every interleaving is a sequential run\<close>

definition of_client :: "nat \<Rightarrow> ((nat \<times> mbap_frame) \<times> mbap_frame) list \<Rightarrow>
    ((nat \<times> mbap_frame) \<times> mbap_frame) list" where
  "of_client i ds = filter (\<lambda>((j, q), f). j = i) ds"

definition pending :: "nat \<Rightarrow> thread_pc \<Rightarrow> ((nat \<times> mbap_frame) \<times> mbap_frame) list" where
  "pending i p = (case p of
     Answered q ok r \<Rightarrow> (case reply_frame q ok r of Some f \<Rightarrow> [((i, q), f)] | None \<Rightarrow> [])
   | _ \<Rightarrow> [])"

definition linear :: "'t transact \<Rightarrow> 't \<Rightarrow> 't system \<Rightarrow> mbap_frame list \<Rightarrow> bool" where
  "linear transact t0 s fs \<longleftrightarrow>
     sequential transact t0 (map snd (bus_log s)) = Some (fs, bus s) \<and>
     (\<forall>i. of_client i (zip (bus_log s) fs) = of_client i (delivered s) @ pending i (threads s i))"

lemma of_client_simps [simp]:
  "of_client i [] = []" "of_client i (ds @ es) = of_client i ds @ of_client i es"
  "of_client i [((j, q), f)] = (if j = i then [((j, q), f)] else [])"
  by (simp_all add: of_client_def)

lemma pending_simps [simp]:
  "pending i Idle = []" "pending i (Counted q) = []"
  by (simp_all add: pending_def)

lemma gw_step_linear:
  assumes "gw_step transact s s'" and "linear transact t0 s fs"
  shows "\<exists>fs'. linear transact t0 s' fs'"
  using assms
proof (induction rule: gw_step.induct)
  case (start s i req)
  then show ?case by (auto simp: linear_def)
next
  case (reject s i req f st)
  have "length fs = length (bus_log s)"
    using reject.prems sequential_length by (fastforce simp: linear_def)
  then show ?case
    using reject handle_frame_reject [OF reject(2,3), of transact "bus s"]
    by (intro exI [of _ "fs @ [f]"]) (auto simp: linear_def sequential_snoc)
next
  case (exchange s i req ok rtu_rsp t)
  obtain f where f: "reply_frame req ok rtu_rsp = Some f"
    using reply_frame_total by blast
  have "length fs = length (bus_log s)"
    using exchange.prems sequential_length by (fastforce simp: linear_def)
  then show ?case
    using exchange handle_frame_exchange [OF exchange(2,3) f]
    by (intro exI [of _ "fs @ [f]"]) (auto simp: linear_def sequential_snoc pending_def [of _ "Answered _ _ _"] f)
next
  case (finish s i req ok rtu_rsp f st)
  have "pending i (threads s i) = [((i, req), f)]"
    using gw_finish_frame [OF finish(2)] finish(1) by (simp add: pending_def)
  then show ?case
    using finish by (auto simp: linear_def)
qed

lemma gw_reach_linear: "gw_reach transact t0 s \<Longrightarrow> \<exists>fs. linear transact t0 s fs"
proof (induction rule: gw_reach.induct)
  case reach_boot
  show ?case by (rule exI [of _ "[]"]) (simp add: linear_def boot_def)
next
  case (reach_step s s')
  then obtain fs where "linear transact t0 s fs" by (elim exE)
  with reach_step.hyps(2) show ?case by (rule gw_step_linear)
qed

lemma delivered_in_log:
  assumes "linear transact t0 s fs" and "((i, q), f) \<in> set (delivered s)"
  shows "((i, q), f) \<in> set (zip (bus_log s) fs)"
proof -
  have "((i, q), f) \<in> set (of_client i (delivered s))"
    using assms(2) by (auto simp: of_client_def)
  then have "((i, q), f) \<in> set (of_client i (zip (bus_log s) fs))"
    using assms(1) by (simp add: linear_def)
  then show ?thesis by (auto simp: of_client_def)
qed

lemma delivered_pair:
  assumes "linear transact t0 s fs" and "((i, q), f) \<in> set (delivered s)"
  shows "(q, f) \<in> set (zip (map snd (bus_log s)) fs)"
  using delivered_in_log [OF assms] by (force simp: zip_map1)

section \<open>Counters\<close>

definition busy :: "'t system \<Rightarrow> nat set" where
  "busy s = {i. threads s i \<noteq> Idle}"

definition accounted :: "'t system \<Rightarrow> bool" where
  "accounted s \<longleftrightarrow> finite (busy s) \<and> outcomes (stats s) = of_nat (length (delivered s)) \<and>
     requests (stats s) = outcomes (stats s) + of_nat (card (busy s)) \<and> bad_unit (stats s) = 0"

lemma gw_finish_counts:
  assumes "gw_finish st req ok rtu_rsp = Some (f, st')"
  shows "outcomes st' = outcomes st + 1 \<and> requests st' = requests st \<and> bad_unit st' = bad_unit st"
proof -
  obtain f' g where "gw_finish st req ok rtu_rsp = Some (f', g st)" "outcomes (g st) = outcomes st + 1"
    "requests (g st) = requests st" "bad_unit (g st) = bad_unit st"
    using gw_finish_uniform by metis
  with assms show ?thesis by simp
qed

lemma busy_enter:
  "threads s i = Idle \<Longrightarrow> p \<noteq> Idle \<Longrightarrow> {j. ((threads s)(i := p)) j \<noteq> Idle} = insert i (busy s)"
  by (auto simp: busy_def)

lemma busy_leave: "{j. ((threads s)(i := Idle)) j \<noteq> Idle} = busy s - {i}"
  by (auto simp: busy_def)

lemma busy_stay:
  "threads s i \<noteq> Idle \<Longrightarrow> p \<noteq> Idle \<Longrightarrow> {j. ((threads s)(i := p)) j \<noteq> Idle} = busy s"
  by (auto simp: busy_def)

lemma card_leave:
  "finite (busy s) \<Longrightarrow> threads s i \<noteq> Idle \<Longrightarrow>
    (of_nat (card (busy s)) :: u64) = of_nat (card (busy s - {i})) + 1"
  by (subst card.remove [of _ i]) (auto simp: busy_def)

lemma busy_update:
  "busy (s\<lparr>threads := th, stats := st, delivered := ds, bus_log := lg\<rparr>) = {j. th j \<noteq> Idle}"
  "busy (s\<lparr>threads := th, stats := st, delivered := ds\<rparr>) = {j. th j \<noteq> Idle}"
  "busy (s\<lparr>threads := th, stats := st\<rparr>) = {j. th j \<noteq> Idle}"
  "busy (s\<lparr>threads := th, bus := t, bus_log := lg\<rparr>) = {j. th j \<noteq> Idle}"
  by (simp_all add: busy_def)

lemma gw_step_accounted: "gw_step transact s s' \<Longrightarrow> accounted s \<Longrightarrow> accounted s'"
proof (induction rule: gw_step.induct)
  case (start s i req)
  then show ?case
    unfolding accounted_def busy_update busy_enter [OF start(1) thread_pc.distinct(2)]
    by (auto simp: busy_def gw_count_def outcomes_def)
next
  case (reject s i req f st)
  then have "threads s i \<noteq> Idle" by simp
  with reject card_leave [of s i] show ?case
    unfolding accounted_def busy_update busy_leave
    by (auto simp: gw_reject_def outcomes_def algebra_simps)
next
  case (exchange s i req ok rtu_rsp t)
  then have "threads s i \<noteq> Idle" by simp
  then have "{j. ((threads s)(i := Answered req ok rtu_rsp)) j \<noteq> Idle} = busy s"
    by (rule busy_stay) simp
  with exchange show ?case
    unfolding accounted_def busy_update by simp
next
  case (finish s i req ok rtu_rsp f st)
  then have "threads s i \<noteq> Idle" by simp
  with finish gw_finish_counts [OF finish(2)] card_leave [of s i] show ?case
    unfolding accounted_def busy_update busy_leave
    by (auto simp: algebra_simps)
qed

lemma gw_reach_accounted: "gw_reach transact t0 s \<Longrightarrow> accounted s"
proof (induction rule: gw_reach.induct)
  case reach_boot
  show ?case by (simp add: accounted_def busy_def boot_def zero_stats_def outcomes_def)
qed (rule gw_step_accounted)

section \<open>Routing and progress over a transport\<close>

fun pc_rank :: "thread_pc \<Rightarrow> nat" where
  "pc_rank Idle = 0"
| "pc_rank (Answered q ok r) = 1"
| "pc_rank (Counted q) = 2"

context rtu_transport
begin

lemma gw_transact_returns:
  assumes "inv t"
  shows "\<exists>ok r t'. gw_transact transact t req = Some (ok, r, t') \<and> inv t'"
proof -
  obtain adu where "tcp_to_rtu req = Some adu"
    using tcp_to_rtu_total by blast
  then show ?thesis
    using transact_returns [OF assms, of adu "[]"] by (simp add: gw_transact_def)
qed

lemma gw_reach_inv:
  assumes "gw_reach transact t0 s" and "inv t0"
  shows "inv (bus s)"
  using assms(1)
proof (induction rule: gw_reach.induct)
  case reach_boot
  then show ?case using assms(2) by (simp add: boot_def)
next
  case (reach_step s s')
  from reach_step.hyps(2) reach_step.IH show ?case
  proof (induction rule: gw_step.induct)
    case (exchange s i req ok rtu_rsp t)
    then show ?case using gw_transact_returns [of "bus s" req] by auto
  qed simp_all
qed

lemma gw_thread_advances:
  assumes "gw_reach transact t0 s" and "inv t0" and "threads s i \<noteq> Idle"
  shows "\<exists>s'. gw_step transact s s' \<and> pc_rank (threads s' i) < pc_rank (threads s i) \<and>
    (\<forall>j. j \<noteq> i \<longrightarrow> threads s' j = threads s j)"
proof (cases "threads s i")
  case (Counted req)
  show ?thesis
  proof (cases "pdu req = []")
    case True
    obtain f st where "gw_reject (stats s) req = (f, st)" by fastforce
    from gw_step.reject [OF Counted True this, of transact] show ?thesis
      using Counted by fastforce
  next
    case False
    obtain ok r t where "gw_transact transact (bus s) req = Some (ok, r, t)"
      using gw_transact_returns [OF gw_reach_inv [OF assms(1,2)]] by metis
    from gw_step.exchange [OF Counted False this] show ?thesis
      using Counted by fastforce
  qed
next
  case (Answered req ok r)
  obtain f st where "gw_finish (stats s) req ok r = Some (f, st)"
    using gw_finish_uniform [of req ok r] by blast
  from gw_step.finish [OF Answered this, of transact] show ?thesis
    using Answered by fastforce
qed (use assms(3) in simp)

text \<open>One client, one request: a reachable state with its response.\<close>

lemma reach_one:
  assumes "inv t0" and "pdu req \<noteq> []"
  shows "\<exists>s f. gw_reach transact t0 s \<and> delivered s = [((i, req), f)] \<and> bus_log s = [(i, req)]"
proof -
  obtain ok r t where tr: "gw_transact transact t0 req = Some (ok, r, t)"
    using gw_transact_returns [OF assms(1)] by metis
  obtain f st where fin: "gw_finish (gw_count zero_stats) req ok r = Some (f, st)"
    using gw_finish_uniform [of req ok r] by blast
  define s1 where "s1 = (boot t0)\<lparr>threads := (threads (boot t0))(i := Counted req), stats := gw_count (stats (boot t0))\<rparr>"
  define s2 where "s2 = s1\<lparr>threads := (threads s1)(i := Answered req ok r), bus := t, bus_log := bus_log s1 @ [(i, req)]\<rparr>"
  define s3 where "s3 = s2\<lparr>threads := (threads s2)(i := Idle), stats := st, delivered := delivered s2 @ [((i, req), f)]\<rparr>"
  have "gw_step transact (boot t0) s1"
    unfolding s1_def by (rule gw_step.start) (simp add: boot_def)
  moreover have "gw_step transact s1 s2"
    unfolding s2_def by (rule gw_step.exchange) (use assms(2) tr in \<open>simp_all add: s1_def boot_def\<close>)
  moreover have "gw_step transact s2 s3"
    unfolding s3_def by (rule gw_step.finish) (use fin in \<open>simp_all add: s2_def s1_def boot_def\<close>)
  ultimately have "gw_reach transact t0 s3"
    by (blast intro: gw_reach.intros)
  moreover have "delivered s3 = [((i, req), f)]" "bus_log s3 = [(i, req)]"
    by (simp_all add: s3_def s2_def s1_def boot_def)
  ultimately show ?thesis by blast
qed

lemma handle_frame_responds:
  assumes "inv t"
  shows "\<exists>f t'. handle_frame transact t req = Some (f, t') \<and> inv t' \<and>
    transaction_id f = transaction_id req"
  using handle_responds [OF assms, of zero_stats req] by (auto simp: handle_frame_def)

lemma sequential_transaction_ids:
  assumes "inv t" and "sequential transact t qs = Some (fs, t')"
  shows "map transaction_id fs = map transaction_id qs"
  using assms
proof (induction qs arbitrary: t fs)
  case (Cons q qs)
  then show ?case
    using handle_frame_responds [OF Cons.prems(1), of q] by (auto simp: bind_eq_Some_conv)
qed simp

lemma delivered_transaction_id:
  assumes "gw_reach transact t0 s" and "inv t0" and "((i, q), f) \<in> set (delivered s)"
  shows "transaction_id f = transaction_id q"
proof -
  obtain fs where fs: "linear transact t0 s fs"
    using gw_reach_linear [OF assms(1)] by (elim exE)
  then have "map transaction_id fs = map transaction_id (map snd (bus_log s))"
    using sequential_transaction_ids [OF assms(2)] unfolding linear_def by blast
  moreover obtain k where "k < length fs" "fs ! k = f" "map snd (bus_log s) ! k = q"
    "k < length (map snd (bus_log s))"
    using delivered_pair [OF fs assms(3)] by (auto simp: set_zip)
  ultimately show ?thesis
    by (metis nth_map)
qed

end

context addressed_transport
begin

lemma sequential_unit_ids:
  assumes "inv t" and "sequential transact t qs = Some (fs, t')"
    and "k < length qs" and "length (pdu (qs ! k)) \<le> 253"
  shows "unit_id (fs ! k) = unit_id (qs ! k)"
  using assms
proof (induction qs arbitrary: t fs k)
  case (Cons q qs)
  obtain f u where h: "handle_frame transact t q = Some (f, u)" "inv u"
    using handle_frame_responds [OF Cons.prems(1)] by metis
  then obtain gs where gs: "sequential transact u qs = Some (gs, t')" "fs = f # gs"
    using Cons.prems(2) by (auto simp: bind_eq_Some_conv)
  obtain st where "gateway_handle transact t zero_stats q = Some (f, u, st)"
    using h(1) by (auto simp: handle_frame_def)
  then show ?case
    using Cons.IH [OF h(2) gs(1), of "k - 1"] handle_addressed [OF Cons.prems(1), of q zero_stats f u st]
      Cons.prems(3,4) gs(2)
    by (cases k) auto
qed simp

lemma delivered_unit_id:
  assumes "gw_reach transact t0 s" and "inv t0" and "((i, q), f) \<in> set (delivered s)"
    and "length (pdu q) \<le> 253"
  shows "unit_id f = unit_id q"
proof -
  obtain fs where fs: "linear transact t0 s fs"
    using gw_reach_linear [OF assms(1)] by (elim exE)
  obtain k where k: "fs ! k = f" "map snd (bus_log s) ! k = q" "k < length (map snd (bus_log s))"
    using delivered_pair [OF fs assms(3)] by (auto simp: set_zip)
  then show ?thesis
    using fs sequential_unit_ids [OF assms(2), of "map snd (bus_log s)" fs "bus s" k] assms(4)
    unfolding linear_def by metis
qed

end

section \<open>Concurrent masters on the in-process bus\<close>

lemma sequential_bus_run:
  assumes "in_process_wf t" and "distinct (map addr (slaves t))" and "list_all wf_frame qs"
    and "sequential (in_process_transact garbage) t qs = Some (fs, t')"
  shows "fs = fst (bus_run (bus_of (slaves t)) qs) \<and> bus_of (slaves t') = snd (bus_run (bus_of (slaves t)) qs)"
  using assms
proof (induction qs arbitrary: t fs)
  case (Cons q qs)
  obtain u st where h: "gateway_handle (in_process_transact garbage) t zero_stats q =
      Some (fst (bus_request (bus_of (slaves t)) q), u, st)"
    and u: "bus_of (slaves u) = snd (bus_request (bus_of (slaves t)) q)" "in_process_wf u"
      "map addr (slaves u) = map addr (slaves t)"
    using gateway_bus_step [OF Cons.prems(1,2), of q garbage zero_stats] Cons.prems(3) by auto
  then obtain gs where gs: "sequential (in_process_transact garbage) u qs = Some (gs, t')"
    "fs = fst (bus_request (bus_of (slaves t)) q) # gs"
    using Cons.prems(4) by (auto simp: handle_frame_def bind_eq_Some_conv)
  then show ?case
    using Cons.IH [OF u(2) _ _ gs(1)] Cons.prems(2,3) u
    by (simp add: split_beta)
qed simp

section \<open>The faulty in-process bus is addressed\<close>

lemma faulty_in_process:
  fixes below :: "'d \<Rightarrow> 'g \<Rightarrow> bool \<times> 'g"
  assumes "\<And>n g. fst (pick n g) \<le> n"
  shows "addressed_transport (faulty_transact below pick (in_process_transact garbage)) (\<lambda>t. in_process_wf (inner t))"
    and "rtu_transport (faulty_transact below pick (in_process_transact garbage)) (\<lambda>t. in_process_wf (inner t))"
proof -
  show "addressed_transport (faulty_transact below pick (in_process_transact garbage)) (\<lambda>t. in_process_wf (inner t))"
    by (rule inproc.faulty_addressed [OF assms])
  then show "rtu_transport (faulty_transact below pick (in_process_transact garbage)) (\<lambda>t. in_process_wf (inner t))"
    by (rule addressed_transport.axioms)
qed

section \<open>Properties\<close>

text \<open>No response is misrouted. Whatever the interleaving of any number of masters on a gateway
  over the in-process backend, every response that \<open>Gateway::handle\<close> returns to a client carries
  the transaction id and the unit id of the request that client made. The unit ids may even
  repeat in the configuration.\<close>

theorem no_misrouted_response:
  assumes "new_in_process ids regs = Some t0" and "gw_reach (in_process_transact garbage) t0 s"
    and "((client, req), rsp) \<in> set (delivered s)" and "length (pdu req) \<le> MAX_PDU"
  shows "transaction_id rsp = transaction_id req \<and> unit_id rsp = unit_id req"
  using inproc.delivered_transaction_id [OF assms(2) new_in_process_wf [OF assms(1)] assms(3)]
    inproc.delivered_unit_id [OF assms(2) new_in_process_wf [OF assms(1)] assms(3)] assms(4)
  by (simp add: mbap_consts)

text \<open>The requests of the examples.\<close>

definition demo_request :: mbap_frame where
  "demo_request = \<lparr>transaction_id = 7, protocol_id = 0, unit_id = 17, pdu = [3, 0, 1, 0, 2]\<rparr>"

lemma demo_request_ok [simp]:
  "pdu demo_request \<noteq> []" "length (pdu demo_request) \<le> MAX_PDU" "wf_frame demo_request"
  "transaction_id demo_request = 7" "unit_id demo_request = 17"
  by (simp_all add: demo_request_def mbap_consts wf_frame_def)

lemma demo_boot: "\<exists>t0. new_in_process [17, 2] 10 = Some t0 \<and> in_process_wf t0"
  using new_in_process_wf [of "[17, 2]" 10] by (simp add: new_in_process_eq)

theorem no_misrouted_response_witness:
  "\<exists>t0 s rsp. new_in_process [17, 2] 10 = Some t0 \<and> gw_reach (in_process_transact (\<lambda>_. 0)) t0 s \<and>
    delivered s = [((4, demo_request), rsp)] \<and> transaction_id rsp = 7 \<and> unit_id rsp = 17"
proof -
  obtain t0 where t0: "new_in_process [17, 2] 10 = Some t0" "in_process_wf t0"
    using demo_boot by blast
  obtain s rsp where s: "gw_reach (in_process_transact (\<lambda>_. 0)) t0 s" "delivered s = [((4, demo_request), rsp)]"
    using inproc.reach_one [OF t0(2) demo_request_ok(1)] by blast
  then show ?thesis
    using t0(1) no_misrouted_response [OF t0(1) s(1), of 4 demo_request rsp] by auto
qed

text \<open>Faults do not misroute either. The same holds over \<open>FaultyRtu\<close>, for any generator and any
  drop and corruption rates: a dropped request and a corrupted answer give a response with the
  ids of the request, and a corrupted answer never passes as another unit's.\<close>

theorem no_misrouted_response_under_faults:
  fixes cfg :: "'d fault_config"
  assumes "new_in_process ids regs = Some t0" and "\<And>n g. fst (pick n g) \<le> n"
    and "gw_reach (faulty_transact below pick (in_process_transact garbage)) (new_faulty mt19937 t0 cfg) s"
    and "((client, req), rsp) \<in> set (delivered s)" and "length (pdu req) \<le> MAX_PDU"
  shows "transaction_id rsp = transaction_id req \<and> unit_id rsp = unit_id req"
proof -
  let ?t = "faulty_transact below pick (in_process_transact garbage)" and ?ok = "\<lambda>t. in_process_wf (inner t)"
  have ok: "?ok (new_faulty mt19937 t0 cfg)"
    using new_in_process_wf [OF assms(1)] by (simp add: new_faulty_def)
  show ?thesis
    using rtu_transport.delivered_transaction_id [OF faulty_in_process(2) [OF assms(2)] assms(3) ok assms(4)]
      addressed_transport.delivered_unit_id [OF faulty_in_process(1) [OF assms(2)] assms(3) ok assms(4)] assms(5)
    by (simp add: mbap_consts)
qed

theorem no_misrouted_response_under_faults_witness:
  "\<exists>t0 s rsp. new_in_process [17, 2] 10 = Some t0 \<and>
    gw_reach (faulty_transact Pair Pair (in_process_transact (\<lambda>_. 0)))
      (new_faulty (\<lambda>_. ()) t0 \<lparr>drop_rate = False, corrupt_rate = True, seed = 1\<rparr>) s \<and>
    delivered s = [((4, demo_request), rsp)] \<and> transaction_id rsp = 7 \<and> unit_id rsp = 17"
proof -
  let ?t = "faulty_transact Pair Pair (in_process_transact (\<lambda>_. 0))"
    and ?cfg = "\<lparr>drop_rate = False, corrupt_rate = True, seed = 1\<rparr>"
  obtain t0 where t0: "new_in_process [17, 2] 10 = Some t0" "in_process_wf t0"
    using demo_boot by blast
  have pick: "fst (n, g) \<le> n" for n :: nat and g :: unit by simp
  have tr: "rtu_transport ?t (\<lambda>t. in_process_wf (inner t))"
    by (rule faulty_in_process(2)) simp
  have ok: "in_process_wf (inner (new_faulty (\<lambda>_. ()) t0 ?cfg))"
    using t0(2) by (simp add: new_faulty_def)
  obtain s rsp where s: "gw_reach ?t (new_faulty (\<lambda>_. ()) t0 ?cfg) s"
    "delivered s = [((4, demo_request), rsp)]"
    using rtu_transport.reach_one [OF tr ok demo_request_ok(1), of 4] by blast
  then show ?thesis
    using t0(1) no_misrouted_response_under_faults [OF t0(1) pick s(1), of 4 demo_request rsp] by auto
qed

text \<open>Every interleaving is linearizable. Whatever the interleaving of the masters, there is one
  order of the requests that reached the bus in which the abstract bus, run sequentially from the
  initial registers, gives the current registers, and in which each client's delivered responses
  are, in order, the bus's responses to its own requests; at most the last of them is still on
  its way.\<close>

theorem gateway_linearizable:
  assumes "in_process_wf t0" and "distinct (map addr (slaves t0))"
    and "gw_reach (in_process_transact garbage) t0 s"
    and "\<And>client req. (client, req) \<in> set (bus_log s) \<Longrightarrow> wf_frame req"
  shows "case bus_run (bus_of (slaves t0)) (map snd (bus_log s)) of (rsps, bus_now) \<Rightarrow>
    bus_of (slaves (bus s)) = bus_now \<and>
    (\<forall>client. \<exists>rest. of_client client (zip (bus_log s) rsps) = of_client client (delivered s) @ rest \<and>
      length rest \<le> 1 \<and> (threads s client = Idle \<longrightarrow> rest = []))"
proof -
  obtain fs where lin: "linear (in_process_transact garbage) t0 s fs"
    using gw_reach_linear [OF assms(3)] by (elim exE)
  have "list_all wf_frame (map snd (bus_log s))"
    using assms(4) by (force simp: list_all_iff)
  then have "fs = fst (bus_run (bus_of (slaves t0)) (map snd (bus_log s)))"
    and "bus_of (slaves (bus s)) = snd (bus_run (bus_of (slaves t0)) (map snd (bus_log s)))"
    using sequential_bus_run [OF assms(1,2)] lin by (auto simp: linear_def)
  moreover have "length (pending i p) \<le> 1" for i p
    by (simp add: pending_def split: thread_pc.splits option.splits)
  ultimately show ?thesis
    using lin by (auto simp: linear_def split_beta)
qed

theorem gateway_linearizable_witness:
  "\<exists>s. gw_reach (in_process_transact (\<lambda>_. 0)) demo_bus s \<and> bus_log s = [(4, demo_request)] \<and>
    bus_of (slaves (bus s)) = snd (bus_run (bus_of (slaves demo_bus)) [demo_request])"
proof -
  obtain s f where s: "gw_reach (in_process_transact (\<lambda>_. 0)) demo_bus s" "bus_log s = [(4, demo_request)]"
    using inproc.reach_one [OF demo_bus_ok(1) demo_request_ok(1)] by blast
  then show ?thesis
    using gateway_linearizable [OF demo_bus_ok s(1)] by (fastforce simp: split_beta)
qed

text \<open>No master blocks the others for ever. Over every transport whose \<open>transact\<close> returns, in
  every reachable state each thread that is inside \<open>Gateway::handle\<close> can take its next step, and
  that step brings it nearer to its return; no thread waits for another one's.\<close>

theorem gateway_thread_progress:
  assumes "rtu_transport transact legal" and "legal t0" and "gw_reach transact t0 s"
    and "threads s client \<noteq> Idle"
  shows "\<exists>s'. gw_step transact s s' \<and> pc_rank (threads s' client) < pc_rank (threads s client) \<and>
    (\<forall>other. other \<noteq> client \<longrightarrow> threads s' other = threads s other)"
  using assms(4) by (rule rtu_transport.gw_thread_advances [OF assms(1,3,2)])

theorem gateway_thread_progress_witness:
  "\<exists>s s'. gw_reach (in_process_transact (\<lambda>_. 0)) demo_bus s \<and> threads s 4 = Counted demo_request \<and>
    gw_step (in_process_transact (\<lambda>_. 0)) s s' \<and> pc_rank (threads s' 4) < 2"
proof -
  let ?s = "(boot demo_bus)\<lparr>threads := (threads (boot demo_bus))(4 := Counted demo_request),
    stats := gw_count (stats (boot demo_bus))\<rparr>"
  have "gw_step (in_process_transact (\<lambda>_. 0)) (boot demo_bus) ?s"
    by (rule gw_step.start) (simp add: boot_def)
  then have reach: "gw_reach (in_process_transact (\<lambda>_. 0)) demo_bus ?s"
    by (blast intro: gw_reach.intros)
  have "threads ?s 4 \<noteq> Idle" by simp
  from gateway_thread_progress [OF inproc.rtu_transport_axioms demo_bus_ok(1) reach this]
  obtain s' where "gw_step (in_process_transact (\<lambda>_. 0)) ?s s'" "pc_rank (threads s' 4) < 2"
    by auto
  with reach show ?thesis by (intro exI [of _ ?s] exI [of _ s']) simp
qed

text \<open>The counters account for every request. In every reachable state, over any transport,
  \<open>requests\<close> is the number of returned calls of \<open>Gateway::handle\<close> plus the number of calls in
  progress, and \<open>responses + timeouts + crc_failures + malformed\<close> is the number of returned
  calls, both modulo \<open>2^64\<close>; \<open>bad_unit\<close> stays 0.\<close>

theorem gateway_counters_account:
  assumes "gw_reach transact t0 s"
  shows "responses (stats s) + timeouts (stats s) + crc_failures (stats s) + malformed (stats s)
      = of_nat (length (delivered s)) \<and>
    requests (stats s) = of_nat (length (delivered s) + card {client. threads s client \<noteq> Idle}) \<and>
    bad_unit (stats s) = 0"
  using gw_reach_accounted [OF assms] by (simp add: accounted_def outcomes_def busy_def)

theorem gateway_counters_account_witness:
  "\<exists>s. gw_reach (in_process_transact (\<lambda>_. 0)) demo_bus s \<and> length (delivered s) = 1 \<and>
    responses (stats s) + timeouts (stats s) + crc_failures (stats s) + malformed (stats s) = 1"
proof -
  obtain s f where s: "gw_reach (in_process_transact (\<lambda>_. 0)) demo_bus s" "delivered s = [((4, demo_request), f)]"
    using inproc.reach_one [OF demo_bus_ok(1) demo_request_ok(1)] by blast
  then show ?thesis
    using gateway_counters_account [OF s(1)] by auto
qed

end
