(* ===== verification/Connections.thy ===== *)
theory Connections
  imports Server Routing
begin

text \<open>
  One connection thread of \<open>src/main.cpp\<close> as a state machine. \<open>Server\<close> runs \<open>serve_client\<close> of
  a single connection as a function; here the same code is cut at its system calls and at its
  accesses to shared state, so that the threads of all connections can be interleaved
  (\<open>Process\<close>). Shown are the invariant that ties the bytes received and sent to the requests
  and responses of the thread, and a rank that every step of the thread decreases once
  \<open>g_running\<close> is false.
\<close>

section \<open>The thread\<close>

text \<open>
  Where the thread is: not started; before \<open>while (g_running)\<close>; in \<open>recv\<close>; before \<open>decode\<close>;
  inside \<open>Gateway::handle\<close>, with \<open>r.consumed\<close>; in the send loop, with \<open>r.consumed\<close>, \<open>out\<close> and
  \<open>sent\<close>; returned, the socket closed, with the place in the code that closed it.
\<close>

datatype close_reason = Stopped | Peer_closed | Framing_error | Send_failed

datatype worker_pc =
    Absent
  | At_loop
  | At_recv
  | At_decode
  | In_handle nat thread_pc
  | At_send nat "u8 list" nat
  | Returned close_reason

text \<open>
  \<open>w_buf\<close> is the local \<open>buf\<close>. The bytes \<open>recv\<close> has returned, the bytes \<open>send\<close> has accepted and
  the returned calls of \<open>Gateway::handle\<close> are the history of the connection.
\<close>

record worker =
  w_pc :: worker_pc
  w_buf :: "u8 list"
  w_in :: "u8 list"
  w_out :: "u8 list"
  w_answers :: "(mbap_frame \<times> mbap_frame) list"

definition idle_worker :: worker where
  "idle_worker = \<lparr>w_pc = Absent, w_buf = [], w_in = [], w_out = [], w_answers = []\<rparr>"

definition start_worker :: worker where
  "start_worker = idle_worker\<lparr>w_pc := At_loop\<rparr>"

text \<open>
  The steps the thread makes by itself, on its own state, the shared transport and the shared
  counters; \<open>run\<close> is the value of \<open>g_running\<close>.
\<close>

inductive worker_step :: "'t transact \<Rightarrow> bool \<Rightarrow>
    worker \<times> 't \<times> gateway_stats \<Rightarrow> worker \<times> 't \<times> gateway_stats \<Rightarrow> bool" for transact run where
  stop: "w_pc w = At_loop \<Longrightarrow> \<not> run \<Longrightarrow>
    worker_step transact run (w, t, st) (w\<lparr>w_pc := Returned Stopped\<rparr>, t, st)"
| enter: "w_pc w = At_loop \<Longrightarrow> run \<Longrightarrow>
    worker_step transact run (w, t, st) (w\<lparr>w_pc := At_recv\<rparr>, t, st)"
| drained: "w_pc w = At_decode \<Longrightarrow> decode (w_buf w) (length (w_buf w)) = Some r \<Longrightarrow>
    frame r = None \<Longrightarrow> error r = NeedMoreData \<Longrightarrow>
    worker_step transact run (w, t, st) (w\<lparr>w_pc := At_loop\<rparr>, t, st)"
| framing: "w_pc w = At_decode \<Longrightarrow> decode (w_buf w) (length (w_buf w)) = Some r \<Longrightarrow>
    frame r = None \<Longrightarrow> error r \<noteq> NeedMoreData \<Longrightarrow>
    worker_step transact run (w, t, st)
      (w\<lparr>w_pc := Returned Framing_error\<rparr>, t, st\<lparr>malformed := malformed st + 1\<rparr>)"
| call: "w_pc w = At_decode \<Longrightarrow> decode (w_buf w) (length (w_buf w)) = Some r \<Longrightarrow>
    frame r = Some req \<Longrightarrow>
    worker_step transact run (w, t, st)
      (w\<lparr>w_pc := In_handle (consumed r) (Counted req)\<rparr>, t, gw_count st)"
| reject: "w_pc w = In_handle n (Counted req) \<Longrightarrow> pdu req = [] \<Longrightarrow> gw_reject st req = (f, st') \<Longrightarrow>
    worker_step transact run (w, t, st)
      (w\<lparr>w_pc := At_send n (encode f) 0, w_answers := w_answers w @ [(req, f)]\<rparr>, t, st')"
| exchange: "w_pc w = In_handle n (Counted req) \<Longrightarrow> pdu req \<noteq> [] \<Longrightarrow>
    gw_transact transact t req = Some (ok, rtu_rsp, t') \<Longrightarrow>
    worker_step transact run (w, t, st) (w\<lparr>w_pc := In_handle n (Answered req ok rtu_rsp)\<rparr>, t', st)"
| finish: "w_pc w = In_handle n (Answered req ok rtu_rsp) \<Longrightarrow>
    gw_finish st req ok rtu_rsp = Some (f, st') \<Longrightarrow>
    worker_step transact run (w, t, st)
      (w\<lparr>w_pc := At_send n (encode f) 0, w_answers := w_answers w @ [(req, f)]\<rparr>, t, st')"
| sent: "w_pc w = At_send n out k \<Longrightarrow> \<not> k < length out \<Longrightarrow> erase_front n (w_buf w) = Some rest \<Longrightarrow>
    worker_step transact run (w, t, st) (w\<lparr>w_pc := At_decode, w_buf := rest\<rparr>, t, st)"

text \<open>The steps that are the return of a blocking call on the socket: the peer decides on them.\<close>

inductive socket_step :: "worker \<Rightarrow> worker \<Rightarrow> bool" where
  recv: "w_pc w = At_recv \<Longrightarrow> chunk \<noteq> [] \<Longrightarrow> length chunk \<le> 1024 \<Longrightarrow>
    socket_step w (w\<lparr>w_pc := At_decode, w_buf := w_buf w @ chunk, w_in := w_in w @ chunk\<rparr>)"
| recv_end: "w_pc w = At_recv \<Longrightarrow> socket_step w (w\<lparr>w_pc := Returned Peer_closed\<rparr>)"
| send: "w_pc w = At_send n out k \<Longrightarrow> k < length out \<Longrightarrow> 0 < m \<Longrightarrow> m \<le> length out - k \<Longrightarrow>
    socket_step w (w\<lparr>w_pc := At_send n out (k + m), w_out := w_out w @ take m (drop k out)\<rparr>)"
| send_fail: "w_pc w = At_send n out k \<Longrightarrow> k < length out \<Longrightarrow>
    socket_step w (w\<lparr>w_pc := Returned Send_failed\<rparr>)"

inductive_cases worker_stepE: "worker_step transact run (w, t, st) (w', t', st')"
inductive_cases socket_stepE: "socket_step w w'"

lemmas worker_step_cases [consumes 1, case_names stop enter drained framing call reject exchange finish sent] =
  worker_stepE
lemmas socket_step_cases [consumes 1, case_names recv recv_end send send_fail] = socket_stepE

section \<open>The history of a connection\<close>

abbreviation requests_of :: "worker \<Rightarrow> mbap_frame list" where
  "requests_of w \<equiv> map fst (w_answers w)"

abbreviation responses_of :: "worker \<Rightarrow> mbap_frame list" where
  "responses_of w \<equiv> map snd (w_answers w)"

definition wire :: "mbap_frame list \<Rightarrow> u8 list" where
  "wire fs = concat (map encode fs)"

lemma wire_simps [simp]:
  "wire [] = []" "wire (fs @ gs) = wire fs @ wire gs" "wire (f # fs) = encode f @ wire fs"
  by (simp_all add: wire_def)

text \<open>The thread as \<open>Routing\<close> sees it.\<close>

fun thread_of :: "worker_pc \<Rightarrow> thread_pc" where
  "thread_of (In_handle n p) = p"
| "thread_of _ = Idle"

text \<open>The request a thread inside \<open>Gateway::handle\<close> works on.\<close>

fun current :: "thread_pc \<Rightarrow> mbap_frame option" where
  "current Idle = None"
| "current (Counted q) = Some q"
| "current (Answered q ok r) = Some q"

fun worker_at :: "worker_pc \<Rightarrow> worker \<Rightarrow> bool" where
  "worker_at Absent w \<longleftrightarrow> w = idle_worker"
| "worker_at At_loop w \<longleftrightarrow> parse_adu (w_buf w) = More \<and> w_in w = wire (requests_of w) @ w_buf w \<and>
     w_out w = wire (responses_of w)"
| "worker_at At_recv w \<longleftrightarrow> parse_adu (w_buf w) = More \<and> w_in w = wire (requests_of w) @ w_buf w \<and>
     w_out w = wire (responses_of w)"
| "worker_at At_decode w \<longleftrightarrow> w_in w = wire (requests_of w) @ w_buf w \<and> w_out w = wire (responses_of w)"
| "worker_at (In_handle n p) w \<longleftrightarrow> (\<exists>q rest. current p = Some q \<and> wf_frame q \<and>
     w_buf w = encode q @ rest \<and> n = length (encode q) \<and>
     w_in w = wire (requests_of w) @ w_buf w \<and> w_out w = wire (responses_of w))"
| "worker_at (At_send n out k) w \<longleftrightarrow> (\<exists>before q f rest. w_answers w = before @ [(q, f)] \<and>
     w_buf w = encode q @ rest \<and> n = length (encode q) \<and> out = encode f \<and> k \<le> length out \<and>
     w_in w = wire (map fst before) @ w_buf w \<and> w_out w = wire (map snd before) @ take k out)"
| "worker_at (Returned why) w \<longleftrightarrow> (\<exists>rest. w_in w = wire (requests_of w) @ rest \<and>
     (why = Framing_error \<longrightarrow> (\<exists>e. parse_adu rest = Bad e)) \<and>
     (why \<noteq> Framing_error \<longrightarrow> why \<noteq> Send_failed \<longrightarrow> parse_adu rest = More)) \<and>
     prefix (w_out w) (wire (responses_of w)) \<and>
     (why \<noteq> Send_failed \<longrightarrow> w_out w = wire (responses_of w))"

definition worker_ok :: "worker \<Rightarrow> bool" where
  "worker_ok w \<longleftrightarrow> worker_at (w_pc w) w \<and> list_all wf_frame (requests_of w) \<and>
     length (w_buf w) < MAX_TCP_ADU + 1024"

lemma worker_ok_new [simp]: "worker_ok idle_worker" "worker_ok start_worker"
  by (simp_all add: worker_ok_def idle_worker_def start_worker_def mbap_consts)

text \<open>What \<open>decode\<close> found, in terms of the parser.\<close>

lemma decode_frameD:
  assumes "decode xs (length xs) = Some r" and "frame r = Some f"
  obtains rest where "wf_frame f" "xs = encode f @ rest" "consumed r = length (encode f)"
    "parse_adu xs = Got f rest"
proof -
  obtain rest where "parse_adu xs = Got f rest" "consumed r = length xs - length rest"
    using decode_frame_consumed [OF assms] by blast
  with that [of rest] show thesis by (auto simp: parse_Got_iff)
qed

lemma decode_no_frameD:
  assumes "decode xs (length xs) = Some r" and "frame r = None"
  shows "parse_adu xs = (if error r = NeedMoreData then More else Bad (error r))"
  using assms parse_Bad_error [of xs] by (cases "parse_adu xs") (auto simp: decode_parse)

lemma encode_nonempty [simp]: "encode f \<noteq> []" "0 < length (encode f)"
  by (simp_all add: encode_def Let_def)

lemma erase_encode: "erase_front (length (encode q)) (encode q @ rest) = Some rest"
  by (simp add: erase_front_def)

lemmas erase_encode_length [simp] = erase_encode [unfolded length_encode]

lemma worker_step_ok:
  assumes "worker_step transact run (w, t, st) (w', t', st')" and "worker_ok w"
  shows "worker_ok w'"
  using assms(1)
proof (cases rule: worker_step_cases)
  case (drained r)
  then show ?thesis
    using assms(2) decode_no_frameD [OF drained(2,3)] by (simp add: worker_ok_def)
next
  case (framing r)
  then show ?thesis
    using assms(2) decode_no_frameD [OF framing(2,3)] by (auto simp: worker_ok_def)
next
  case (call r req)
  obtain rest where "wf_frame req" "w_buf w = encode req @ rest" "consumed r = length (encode req)"
    using decode_frameD [OF call(2,3)] by metis
  then show ?thesis
    using assms(2) call by (simp add: worker_ok_def)
qed (use assms(2) in \<open>auto simp: worker_ok_def erase_front_def split: if_splits\<close>)

lemma socket_step_ok:
  assumes "socket_step w w'" and "worker_ok w"
  shows "worker_ok w'"
  using assms(1)
proof (cases rule: socket_step_cases)
  case (recv chunk)
  then show ?thesis
    using assms(2) parse_More_bound [of "w_buf w"] by (simp add: worker_ok_def)
next
  case recv_end
  then show ?thesis
    using assms(2) by (simp add: worker_ok_def)
next
  case (send n out k m)
  then have "take (k + m) out = take k out @ take m (drop k out)"
    by (simp add: take_add)
  then show ?thesis
    using assms(2) send by (auto simp: worker_ok_def)
next
  case (send_fail n out k)
  then obtain before q f rest where "w_answers w = before @ [(q, f)]" "w_out w = wire (map snd before) @ take k (encode f)"
    "w_in w = wire (map fst before) @ encode q @ rest"
    using assms(2) by (auto simp: worker_ok_def)
  then have "worker_at (Returned Send_failed) w'"
    unfolding send_fail(1) by (simp add: take_is_prefix)
  moreover have "list_all wf_frame (requests_of w)" "length (w_buf w) < MAX_TCP_ADU + 1024"
    using assms(2) by (simp_all only: worker_ok_def)
  ultimately show ?thesis
    unfolding send_fail(1) by (simp add: worker_ok_def del: worker_at.simps)
qed

text \<open>The histories only grow, and a thread that has returned does nothing.\<close>

lemma returned_final:
  assumes "w_pc w = Returned why"
  shows "\<not> worker_step transact run (w, t, st) (w', t', st')" and "\<not> socket_step w w'"
  using assms by (auto elim: worker_stepE socket_stepE)

lemma absent_final:
  assumes "w_pc w = Absent"
  shows "\<not> worker_step transact run (w, t, st) (w', t', st')" and "\<not> socket_step w w'"
  using assms by (auto elim: worker_stepE socket_stepE)

text \<open>
  A step of the thread is a step of \<open>handle\<close> in \<open>Routing\<close> or is invisible there. A decoded
  request is never empty, so that \<open>handle\<close> does not reject it: \<open>malformed\<close> counts framing
  errors only.
\<close>

lemma gw_finish_malformed:
  "gw_finish (st\<lparr>malformed := m\<rparr>) req ok r =
     map_option (\<lambda>(f, st'). (f, st'\<lparr>malformed := m\<rparr>)) (gw_finish st req ok r)"
  by (auto simp: gw_finish_def Let_def split: bind_splits option.splits)

lemma gw_finish_keeps_malformed: "gw_finish st req ok r = Some (f, st') \<Longrightarrow> malformed st' = malformed st"
  by (auto simp: gw_finish_def Let_def split: bind_splits option.splits if_splits)

lemma worker_handles_nonempty:
  "worker_ok w \<Longrightarrow> w_pc w = In_handle n (Counted req) \<Longrightarrow> pdu req \<noteq> [] \<and> wf_frame req"
  by (auto simp: worker_ok_def wf_frame_def)

lemma worker_step_visible:
  assumes "worker_step transact run (w, t, st) (w', t', st')" and "worker_ok w"
  obtains (silent) "thread_of (w_pc w) = Idle" "thread_of (w_pc w') = Idle" "t' = t"
      "st'\<lparr>malformed := 0\<rparr> = st\<lparr>malformed := 0\<rparr>" "w_answers w' = w_answers w"
  | (enter) req where "thread_of (w_pc w) = Idle" "thread_of (w_pc w') = Counted req" "t' = t"
      "st' = gw_count st" "w_answers w' = w_answers w" "wf_frame req"
  | (exchange) req ok r where "thread_of (w_pc w) = Counted req" "pdu req \<noteq> []" "wf_frame req"
      "gw_transact transact t req = Some (ok, r, t')" "thread_of (w_pc w') = Answered req ok r"
      "st' = st" "w_answers w' = w_answers w"
  | (finish) req ok r f where "thread_of (w_pc w) = Answered req ok r" "thread_of (w_pc w') = Idle"
      "gw_finish st req ok r = Some (f, st')" "t' = t" "w_answers w' = w_answers w @ [(req, f)]"
  using assms(1)
proof (cases rule: worker_step_cases)
  case (call r req)
  then show ?thesis using enter [of req] decode_frameD [OF call(2,3)] by auto
next
  case (reject n req f)
  then show ?thesis using worker_handles_nonempty [OF assms(2)] by blast
next
  case (exchange n req ok rtu_rsp)
  then show ?thesis using that(3) [of req ok rtu_rsp] worker_handles_nonempty [OF assms(2)] by auto
next
  case (finish n req ok rtu_rsp f)
  then show ?thesis using that(4) [of req ok rtu_rsp f] by simp
qed (use silent in auto)

lemma worker_step_malformed:
  assumes "worker_step transact run (w, t, st) (w', t', st')" and "worker_ok w"
  shows "w_pc w \<noteq> Returned Framing_error \<and>
    malformed st' = malformed st + (if w_pc w' = Returned Framing_error then 1 else 0)"
  using assms(1)
proof (cases rule: worker_step_cases)
  case (reject n req f)
  then show ?thesis using worker_handles_nonempty [OF assms(2)] by blast
next
  case (finish n req ok rtu_rsp f)
  then show ?thesis using gw_finish_keeps_malformed by simp
qed (auto simp: gw_count_def)

section \<open>What the peer sees\<close>

text \<open>
  In every position the requests handled so far are the first frames of the stream received,
  and the bytes sent are a prefix of the encoded responses.
\<close>

lemma split_stream_wire:
  "list_all wf_frame fs \<Longrightarrow> split_stream (wire fs @ tail) =
    (case split_stream tail of (gs, e, r) \<Rightarrow> (fs @ gs, e, r))"
  using split_stream_frames_tail by (simp add: wire_def)

lemma requests_in_stream:
  assumes "worker_ok w"
  shows "prefix (requests_of w) (fst (split_stream (w_in w)))"
proof -
  have "\<exists>tail. w_in w = wire (requests_of w) @ tail"
    using assms by (cases "w_pc w") (auto simp: worker_ok_def idle_worker_def)
  then show ?thesis
    using assms split_stream_wire [of "requests_of w"]
    by (auto simp: worker_ok_def split: prod.splits)
qed

lemma current_in_stream:
  assumes "worker_ok w" and "thread_of (w_pc w) = p" and "current p = Some q"
  shows "prefix (requests_of w @ [q]) (fst (split_stream (w_in w)))"
proof -
  obtain n rest where "w_pc w = In_handle n p" "wf_frame q" "w_in w = wire (requests_of w @ [q]) @ rest"
    using assms by (cases "w_pc w") (auto simp: worker_ok_def)
  then show ?thesis
    using assms(1) split_stream_wire [of "requests_of w @ [q]" rest]
    by (auto simp: worker_ok_def split: prod.splits)
qed

text \<open>A thread that returned has handled every complete request, and sent every response unless \<open>send\<close> failed.\<close>

lemma returned_complete:
  assumes "worker_ok w" and "w_pc w = Returned why" and "why \<noteq> Send_failed"
  shows "fst (split_stream (w_in w)) = requests_of w \<and> w_out w = wire (responses_of w)"
proof -
  obtain rest where rest: "w_in w = wire (requests_of w) @ rest" "w_out w = wire (responses_of w)"
    "parse_adu rest = More \<or> (\<exists>e. parse_adu rest = Bad e)"
    using assms by (auto simp: worker_ok_def)
  then have "fst (split_stream rest) = []"
    by (auto simp: split_More split_Bad)
  then show ?thesis
    using rest(1,2) assms(1) split_stream_wire [of "requests_of w" rest]
    by (auto simp: worker_ok_def split: prod.splits)
qed

lemma sent_prefix:
  assumes "worker_ok w"
  shows "prefix (w_out w) (wire (responses_of w))"
  using assms by (cases "w_pc w") (auto simp: worker_ok_def idle_worker_def take_is_prefix)

text \<open>A prefix of encoded frames decodes to a prefix of these frames.\<close>

lemma parse_strict_prefix:
  assumes "wf_frame f" and "prefix xs (encode f)" and "xs \<noteq> encode f"
  shows "parse_adu xs = More"
proof -
  obtain ys where ys: "encode f = xs @ ys" "ys \<noteq> []"
    using assms(2,3) by (auto simp: prefix_def)
  have got: "parse_adu (xs @ ys) = Got f []"
    using parse_encode [OF assms(1), of "[]"] ys(1) by simp
  show ?thesis
  proof (cases "parse_adu xs")
    case (Got g rest)
    then show ?thesis using parse_Got_append [OF Got, of ys] got ys(2) by simp
  next
    case (Bad e)
    then show ?thesis using parse_Bad_append [OF Bad, of ys] got by simp
  qed
qed

lemma split_stream_prefix:
  assumes "list_all wf_frame fs" and "prefix xs (wire fs)"
  shows "\<exists>rs rest. split_stream xs = (rs, NeedMoreData, rest) \<and> prefix rs fs"
  using assms
proof (induction fs arbitrary: xs)
  case Nil
  then show ?case by (simp add: split_More)
next
  case (Cons f fs)
  consider ys where "xs = encode f @ ys" "prefix ys (wire fs)" | "prefix xs (encode f)" "xs \<noteq> encode f"
    using Cons.prems(2) prefix_order.refl [of "[]"] by (metis append_Nil2 prefix_append wire_simps(3) Nil_prefix)
  then show ?case
  proof cases
    case 1
    moreover have "list_all wf_frame fs"
      using Cons.prems(1) by simp
    ultimately obtain rs rest where "split_stream ys = (rs, NeedMoreData, rest)" "prefix rs fs"
      using Cons.IH by blast
    then show ?thesis
      using 1(1) Cons.prems(1) split_Got [OF parse_encode, of f ys] by simp
  next
    case 2
    then have "parse_adu xs = More"
      using Cons.prems(1) parse_strict_prefix [of f xs] by simp
    then show ?thesis by (simp add: split_More)
  qed
qed

section \<open>A thread that is told to stop\<close>

text \<open>
  The rank of a thread: what is left in its buffer, then its position, then the bytes to send.
  A thread in \<open>recv\<close> may still receive one chunk on a buffer shorter than one ADU.
\<close>

fun worker_rank :: "worker \<Rightarrow> nat \<times> nat \<times> nat" where
  "worker_rank w = (case w_pc w of
     Absent \<Rightarrow> (0, 0, 0)
   | Returned why \<Rightarrow> (0, 0, 0)
   | At_loop \<Rightarrow> (0, 1, 0)
   | At_recv \<Rightarrow> (MAX_TCP_ADU + 1024 + 1, 0, 0)
   | At_decode \<Rightarrow> (length (w_buf w) + 1, 3, 0)
   | In_handle n p \<Rightarrow> (length (w_buf w) + 1, pc_rank p, 0)
   | At_send n out k \<Rightarrow> (length (w_buf w) + 1, 0, length out - k))"

definition rank_less :: "((nat \<times> nat \<times> nat) \<times> (nat \<times> nat \<times> nat)) set" where
  "rank_less = less_than <*lex*> less_than <*lex*> less_than"

lemma wf_rank_less: "wf rank_less"
  by (simp add: rank_less_def wf_lex_prod)

lemma rank_less_simps [simp]:
  "((a, b, c), (a', b', c')) \<in> rank_less \<longleftrightarrow> a < a' \<or> a = a' \<and> (b < b' \<or> b = b' \<and> c < c')"
  by (simp add: rank_less_def)

lemma worker_step_rank:
  assumes "worker_step transact False (w, t, st) (w', t', st')" and "worker_ok w"
  shows "(worker_rank w', worker_rank w) \<in> rank_less"
  using assms(1)
proof (cases rule: worker_step_cases)
  case (sent n out k rest)
  then obtain q r where "w_buf w = encode q @ r" "n = length (encode q)"
    using assms(2) by (auto simp: worker_ok_def)
  then have "length rest < length (w_buf w)"
    using sent(3) by (simp add: erase_encode del: length_encode)
  then show ?thesis
    using sent by simp
qed auto

lemma socket_step_rank:
  assumes "socket_step w w'" and "worker_ok w"
  shows "(worker_rank w', worker_rank w) \<in> rank_less"
  using assms(1)
proof (cases rule: socket_step_cases)
  case (recv chunk)
  then show ?thesis
    using assms(2) parse_More_bound [of "w_buf w"] by (auto simp: worker_ok_def)
qed auto

text \<open>A thread that has started and not returned can step, unless it is in a call on its socket.\<close>

context rtu_transport
begin

lemma handling_can_step:
  assumes "w_pc w = In_handle n p" and "worker_ok w" and "inv t"
  shows "\<exists>w' t' st'. worker_step transact run (w, t, st) (w', t', st')"
proof (cases p)
  case Idle
  then show ?thesis using assms(1,2) by (simp add: worker_ok_def)
next
  case (Counted q)
  then have "pdu q \<noteq> []"
    using assms(1,2) by (auto simp: worker_ok_def wf_frame_def)
  moreover obtain ok r t' where "gw_transact transact t q = Some (ok, r, t')"
    using gw_transact_returns [OF assms(3)] by metis
  ultimately show ?thesis
    using worker_step.exchange [of w n q transact t ok r t' run st] assms(1) Counted by blast
next
  case (Answered q ok r)
  obtain f st' where "gw_finish st q ok r = Some (f, st')"
    using gw_finish_uniform [of q ok r] by blast
  then show ?thesis
    using worker_step.finish [of w n q ok r st f st' transact run t] assms(1) Answered by blast
qed

lemma worker_can_step:
  assumes "worker_ok w" and "inv t"
  shows "w_pc w = Absent \<or> (\<exists>why. w_pc w = Returned why) \<or> w_pc w = At_recv \<or>
    (\<exists>n out k. w_pc w = At_send n out k \<and> k < length out) \<or>
    (\<exists>w' t' st'. worker_step transact run (w, t, st) (w', t', st'))"
proof (cases "w_pc w")
  case At_loop
  then show ?thesis
    using worker_step.stop [of w run transact t st] worker_step.enter [of w run transact t st] by blast
next
  case At_decode
  obtain r where r: "decode (w_buf w) (length (w_buf w)) = Some r"
    using decode_parse by blast
  show ?thesis
    using worker_step.drained [OF At_decode r, of transact run t st] worker_step.call [OF At_decode r, of _ transact run t st]
      worker_step.framing [OF At_decode r, of transact run t st] by (cases "frame r") blast+
next
  case (In_handle n p)
  then show ?thesis using handling_can_step assms by blast
next
  case (At_send n out k)
  then obtain rest where "erase_front n (w_buf w) = Some rest"
    using assms(1) by (auto simp: worker_ok_def)
  then show ?thesis
    using worker_step.sent [OF At_send, of rest transact run t st] At_send by blast
qed blast+

end

end
