(* ===== verification/Solo_Connection.thy ===== *)
theory Solo_Connection
  imports Connections
begin

text \<open>
  The two models of \<open>serve_client\<close> agree: what the function of \<open>Server\<close> computes from the
  segments that arrive and the answers of \<open>send\<close> is a run of the state machine of
  \<open>Connections\<close> in which no other thread interferes.
\<close>

section \<open>A thread by itself\<close>

inductive solo_step :: "'t transact \<Rightarrow> worker \<times> 't \<times> gateway_stats \<Rightarrow> worker \<times> 't \<times> gateway_stats \<Rightarrow> bool"
  for transact where
  own: "worker_step transact run (w, t, st) (w', t', st') \<Longrightarrow> solo_step transact (w, t, st) (w', t', st')"
| peer: "socket_step w w' \<Longrightarrow> solo_step transact (w, t, st) (w', t, st)"

definition solo_run :: "'t transact \<Rightarrow> worker \<times> 't \<times> gateway_stats \<Rightarrow> worker \<times> 't \<times> gateway_stats \<Rightarrow> bool" where
  "solo_run transact = (solo_step transact)\<^sup>*\<^sup>*"

lemma solo_refl [simp]: "solo_run transact x x"
  by (simp add: solo_run_def)

lemma solo_trans: "solo_run transact x y \<Longrightarrow> solo_run transact y z \<Longrightarrow> solo_run transact x z"
  unfolding solo_run_def by (rule rtranclp_trans)

lemma solo_own:
  "worker_step transact run (w, t, st) (w', t', st') \<Longrightarrow> solo_run transact (w', t', st') z \<Longrightarrow>
    solo_run transact (w, t, st) z"
  unfolding solo_run_def by (metis converse_rtranclp_into_rtranclp solo_step.own)

lemma solo_peer:
  "socket_step w w' \<Longrightarrow> solo_run transact (w', t, st) z \<Longrightarrow> solo_run transact (w, t, st) z"
  unfolding solo_run_def by (metis converse_rtranclp_into_rtranclp solo_step.peer)

section \<open>The loops are runs\<close>

lemma send_all_solo:
  assumes "send_all send e out sent outb = (ok, e', outb')"
    and "w_pc w = At_send n out (min sent (length out))" and "w_out w = outb"
  shows "solo_run transact (w, t, st)
    (w\<lparr>w_pc := if ok then At_send n out (length out) else Returned Send_failed, w_out := outb'\<rparr>, t, st)"
  using assms
proof (induction send e out sent outb arbitrary: w rule: send_all.induct)
  case (1 send e out sent outb)
  show ?case
  proof (cases "sent < length out")
    case False
    then have "ok" "outb' = outb"
      using 1(2) by (simp_all add: send_all.simps [of send e out])
    moreover have "w\<lparr>w_pc := At_send n out (length out), w_out := outb\<rparr> = w"
      using 1(3,4) False by (simp add: min_def)
    ultimately show ?thesis by simp
  next
    case True
    obtain m f where m: "send e (drop sent out) = (m, f)" by fastforce
    show ?thesis
    proof (cases "m = 0")
      case True
      then have "\<not> ok" "outb' = outb"
        using 1(2) m \<open>sent < length out\<close> by (simp_all add: send_all.simps [of send e out])
      moreover have "socket_step w (w\<lparr>w_pc := Returned Send_failed\<rparr>)"
        using 1(3) \<open>sent < length out\<close> by (intro socket_step.send_fail [of w n out sent]) simp_all
      moreover have "w\<lparr>w_pc := Returned Send_failed, w_out := outb\<rparr> = w\<lparr>w_pc := Returned Send_failed\<rparr>"
        using 1(4) by (cases w) simp
      ultimately show ?thesis
        by (simp add: solo_peer)
    next
      case False
      let ?m = "min m (length out - sent)"
      let ?w = "w\<lparr>w_pc := At_send n out (sent + ?m), w_out := w_out w @ take ?m (drop sent out)\<rparr>"
      have step: "socket_step w ?w"
        using 1(3) \<open>sent < length out\<close> False by (intro socket_step.send) simp_all
      have rest: "send_all send f out (sent + m) (outb @ take m (drop sent out)) = (ok, e', outb')"
        using 1(2) m False \<open>sent < length out\<close> by (simp add: send_all.simps [of send e out])
      have "w_pc ?w = At_send n out (min (sent + m) (length out))"
        and "w_out ?w = outb @ take m (drop sent out)"
        using 1(4) \<open>sent < length out\<close> by (auto simp: min_def)
      from 1(1) [OF \<open>sent < length out\<close> m [symmetric] False rest this] step show ?thesis
        by (auto intro: solo_peer)
    qed
  qed
qed

lemma handle_solo:
  assumes "gateway_handle transact t st req = Some (f, t', st')" and "w_pc w = In_handle n (Counted req)"
    and "pdu req \<noteq> []"
  shows "solo_run transact (w, t, gw_count st)
    (w\<lparr>w_pc := At_send n (encode f) 0, w_answers := w_answers w @ [(req, f)]\<rparr>, t', st')"
proof -
  obtain ok r where tr: "gw_transact transact t req = Some (ok, r, t')"
    and fin: "gw_finish (gw_count st) req ok r = Some (f, st')"
    using assms(1,3) by (auto simp: gateway_handle_pieces bind_eq_Some_conv)
  let ?w = "w\<lparr>w_pc := In_handle n (Answered req ok r)\<rparr>"
  have "worker_step transact True (w, t, gw_count st) (?w, t', gw_count st)"
    by (rule worker_step.exchange [OF assms(2,3) tr])
  moreover have "worker_step transact True (?w, t', gw_count st)
      (?w\<lparr>w_pc := At_send n (encode f) 0, w_answers := w_answers ?w @ [(req, f)]\<rparr>, t', st')"
    by (rule worker_step.finish [OF _ fin]) simp
  ultimately show ?thesis
    by (intro solo_own [OF _ solo_own [OF _ solo_refl]]) simp_all
qed

text \<open>
  The position after the inner loop: back at \<open>while (g_running)\<close>, or returned.
\<close>

definition follows :: "worker \<Rightarrow> ('t, 'e) conn \<Rightarrow> bool" where
  "follows w c \<longleftrightarrow> w_buf w = buf c \<and> w_out w = outbox c \<and>
     (if closed c then \<exists>why. w_pc w = Returned why else w_pc w = At_loop)"

lemma drain_solo:
  assumes "drain transact send c = Some c'" and "w_pc w = At_decode" and "w_buf w = buf c"
    and "w_out w = outbox c" and "\<not> closed c"
  shows "\<exists>w'. solo_run transact (w, Server.bus c, Server.stats c) (w', Server.bus c', Server.stats c') \<and>
    follows w' c' \<and> w_in w' = w_in w"
  using assms
proof (induction "length (buf c)" arbitrary: c w rule: less_induct)
  case less
  let ?t = "Server.bus c" and ?st = "Server.stats c"
  show ?case
  proof (cases "parse_adu (buf c)")
    case More
    let ?w = "w\<lparr>w_pc := At_loop\<rparr>"
    have "worker_step transact True (w, ?t, ?st) (?w, ?t, ?st)"
      by (rule worker_step.drained [OF less.prems(2), of "\<lparr>frame = None, error = NeedMoreData, consumed = 0\<rparr>"])
        (simp_all add: less.prems(3) decode_More [OF More])
    moreover have "c' = c"
      using less.prems(1) More by (simp add: drain.simps [of transact send c] decode_More)
    ultimately show ?thesis
      using less.prems by (intro exI [of _ ?w]) (auto simp: follows_def intro: solo_own)
  next
    case (Bad e)
    let ?w = "w\<lparr>w_pc := Returned Framing_error\<rparr>"
    have "worker_step transact True (w, ?t, ?st) (?w, ?t, ?st\<lparr>malformed := malformed ?st + 1\<rparr>)"
      by (rule worker_step.framing [OF less.prems(2), of "\<lparr>frame = None, error = e, consumed = 0\<rparr>"])
        (simp_all add: less.prems(3) decode_Bad [OF Bad] parse_Bad_error [OF Bad])
    moreover have "c' = c\<lparr>conn.stats := ?st\<lparr>malformed := malformed ?st + 1\<rparr>, closed := True\<rparr>"
      using less.prems(1) Bad parse_Bad_error by (simp add: drain.simps [of transact send c] decode_Bad)
    ultimately show ?thesis
      using less.prems by (intro exI [of _ ?w]) (auto simp: follows_def intro: solo_own)
  next
    case (Got q rest)
    have q: "wf_frame q" "buf c = encode q @ rest"
      using Got by (simp_all add: parse_Got_iff)
    then have "pdu q \<noteq> []" by (auto simp: wf_frame_def)
    let ?n = "length (buf c) - length rest"
    obtain f t st where h: "gateway_handle transact ?t ?st q = Some (f, t, st)"
      using less.prems(1) by (auto simp: drain.simps [of transact send c] decode_Got [OF Got] bind_eq_Some_conv)
    obtain ok e out where s: "send_all send (sock c) (encode f) 0 (outbox c) = (ok, e, out)"
      by (metis prod_cases3)
    let ?call = "w\<lparr>w_pc := In_handle ?n (Counted q)\<rparr>"
    let ?reply = "w\<lparr>w_pc := At_send ?n (encode f) 0, w_answers := w_answers w @ [(q, f)]\<rparr>"
    let ?done = "?reply\<lparr>w_pc := if ok then At_send ?n (encode f) (length (encode f)) else Returned Send_failed, w_out := out\<rparr>"
    have "worker_step transact True (w, ?t, ?st) (?call, ?t, gw_count ?st)"
      using decode_Got [OF Got] less.prems(2,3)
        worker_step.call [of w "\<lparr>frame = Some q, error = NeedMoreData, consumed = ?n\<rparr>" q] by simp
    moreover have "solo_run transact (?call, ?t, gw_count ?st) (?reply, t, st)"
      using handle_solo [OF h, of ?call ?n] \<open>pdu q \<noteq> []\<close> by simp
    moreover have "solo_run transact (?reply, t, st) (?done, t, st)"
      by (rule send_all_solo [OF s]) (simp_all add: less.prems(4))
    ultimately have sent: "solo_run transact (w, ?t, ?st) (?done, t, st)"
      by (blast intro: solo_own solo_trans)
    show ?thesis
    proof (cases ok)
      case False
      then have "c' = c\<lparr>conn.bus := t, conn.stats := st, sock := e, outbox := out, closed := True\<rparr>"
        using less.prems(1) by (simp add: drain.simps [of transact send c] decode_Got [OF Got] h s)
      then show ?thesis
        using sent False less.prems by (intro exI [of _ ?done]) (auto simp: follows_def)
    next
      case True
      let ?c = "c\<lparr>buf := rest, conn.bus := t, conn.stats := st, sock := e, outbox := out\<rparr>"
      let ?w = "?done\<lparr>w_pc := At_decode, w_buf := rest\<rparr>"
      have more: "drain transact send ?c = Some c'"
        using less.prems(1) True erase_parsed [OF Got]
        by (simp add: drain.simps [of transact send c] decode_Got [OF Got] h s)
      have "worker_step transact True (?done, t, st) (?w, t, st)"
        using True erase_parsed [OF Got] less.prems(3) by (intro worker_step.sent [of _ ?n "encode f" "length (encode f)"]) simp_all
      then have run: "solo_run transact (w, ?t, ?st) (?w, t, st)"
        by (blast intro: sent solo_own solo_trans solo_refl)
      have "length (buf ?c) < length (buf c)"
        using parse_Got_length [OF Got] by simp
      from less.hyps [OF this more, of ?w] less.prems obtain w' where
        "solo_run transact (?w, t, st) (w', Server.bus c', Server.stats c')" "follows w' c'" "w_in w' = w_in w"
        by auto
      then show ?thesis
        using run solo_trans by blast
    qed
  qed
qed

text \<open>A segment is what one \<open>recv\<close> can return: not empty, at most the size of \<open>chunk\<close>.\<close>

fun segment_ok :: "loop_event \<Rightarrow> bool" where
  "segment_ok (Recv chunk) \<longleftrightarrow> chunk \<noteq> [] \<and> length chunk \<le> 1024"
| "segment_ok _ \<longleftrightarrow> True"

lemma enter_solo:
  assumes "w_pc w = At_loop" and "solo_run transact (w\<lparr>w_pc := At_recv\<rparr>, t, st) z"
  shows "solo_run transact (w, t, st) z"
  by (rule solo_own [OF worker_step.enter [OF assms(1), of True] assms(2)]) simp

lemma serve_solo:
  assumes "serve_client transact send c evs = Some c'" and "follows w c" and "list_all segment_ok evs"
  shows "\<exists>w'. solo_run transact (w, Server.bus c, Server.stats c) (w', Server.bus c', Server.stats c') \<and>
    follows w' c' \<and> prefix (w_in w') (w_in w @ received evs) \<and> (\<not> closed c' \<longrightarrow> w_in w' = w_in w @ received evs)"
  using assms
proof (induction evs arbitrary: c w)
  case Nil
  then show ?case by (intro exI [of _ w]) simp
next
  case (Cons ev evs)
  let ?t = "Server.bus c" and ?st = "Server.stats c"
  show ?case
  proof (cases "closed c")
    case True
    then show ?thesis
      using Cons.prems by (intro exI [of _ w]) simp
  next
    case False
    then have w: "w_pc w = At_loop" "w_buf w = buf c" "w_out w = outbox c"
      using Cons.prems(2) by (simp_all add: follows_def)
    show ?thesis
    proof (cases ev)
      case NotRunning
      let ?w = "w\<lparr>w_pc := Returned Stopped\<rparr>"
      have "solo_run transact (w, ?t, ?st) (?w, ?t, ?st)"
        by (rule solo_own [OF worker_step.stop [OF w(1), of False] solo_refl]) simp
      then show ?thesis
        using Cons.prems(1) False NotRunning w by (intro exI [of _ ?w]) (auto simp: follows_def)
    next
      case RecvEnd
      let ?w = "w\<lparr>w_pc := Returned Peer_closed\<rparr>"
      have "socket_step (w\<lparr>w_pc := At_recv\<rparr>) (w\<lparr>w_pc := At_recv\<rparr>\<lparr>w_pc := Returned Peer_closed\<rparr>)"
        by (rule socket_step.recv_end) simp
      then have "solo_run transact (w, ?t, ?st) (?w, ?t, ?st)"
        using enter_solo [OF w(1)] solo_peer [OF _ solo_refl] by fastforce
      then show ?thesis
        using Cons.prems(1) False RecvEnd w by (intro exI [of _ ?w]) (auto simp: follows_def)
    next
      case (Recv chunk)
      obtain c1 where c1: "drain transact send (c\<lparr>buf := buf c @ chunk\<rparr>) = Some c1"
        "serve_client transact send c1 evs = Some c'"
        using Cons.prems(1) False Recv by (auto simp: bind_eq_Some_conv)
      let ?recv = "w\<lparr>w_pc := At_recv\<rparr>"
      let ?w = "?recv\<lparr>w_pc := At_decode, w_buf := w_buf ?recv @ chunk, w_in := w_in ?recv @ chunk\<rparr>"
      have recv: "socket_step ?recv ?w"
        using Cons.prems(3) Recv by (intro socket_step.recv) simp_all
      obtain w1 where w1: "solo_run transact (?w, ?t, ?st) (w1, Server.bus c1, Server.stats c1)"
        "follows w1 c1" "w_in w1 = w_in w @ chunk"
        using drain_solo [OF c1(1), of ?w] w False by auto
      have run: "solo_run transact (w, ?t, ?st) (w1, Server.bus c1, Server.stats c1)"
        by (rule enter_solo [OF w(1) solo_peer [OF recv w1(1)]])
      have "list_all segment_ok evs"
        using Cons.prems(3) by simp
      from Cons.IH [OF c1(2) w1(2) this] obtain w2 where rest:
        "solo_run transact (w1, Server.bus c1, Server.stats c1) (w2, Server.bus c', Server.stats c')"
        "follows w2 c'" "prefix (w_in w2) (w_in w1 @ received evs)"
        "\<not> closed c' \<longrightarrow> w_in w2 = w_in w1 @ received evs"
        by blast
      show ?thesis
        using solo_trans [OF run rest(1)] rest(2-4) w1(3) Recv by (intro exI [of _ w2]) simp
    qed
  qed
qed

section \<open>Property\<close>

text \<open>C21: The connection loop as a function is the thread by itself. Over every transport, whatever
  segments arrive and whatever \<open>send\<close> accepts, the result of \<open>serve_client\<close> is reached by the
  steps of a new connection thread with which no other thread interferes: the same bytes
  accepted by the socket, the same buffer, transport and counters, and the thread has returned
  exactly if the function has closed the connection.\<close>

theorem serve_client_is_thread_run:
  assumes "serve_client transact send (new_conn t st e) evs = Some c'" and "list_all segment_ok evs"
  shows "\<exists>w. solo_run transact (start_worker, t, st) (w, Server.bus c', Server.stats c') \<and>
    w_out w = outbox c' \<and> w_buf w = buf c' \<and> prefix (w_in w) (received evs) \<and>
    (if closed c' then \<exists>why. w_pc w = Returned why else w_pc w = At_loop \<and> w_in w = received evs)"
proof -
  have "follows start_worker (new_conn t st e)"
    by (simp add: follows_def start_worker_def idle_worker_def)
  from serve_solo [OF assms(1) this assms(2)] show ?thesis
    by (auto simp: follows_def start_worker_def idle_worker_def)
qed

theorem serve_client_is_thread_run_witness:
  "\<exists>c' w. serve_client (in_process_transact (\<lambda>_. 0)) (\<lambda>e out. (1, e)) (new_conn demo_bus idle_stats ())
      [Recv [0, 9, 0], RecvEnd] = Some c' \<and>
    solo_run (in_process_transact (\<lambda>_. 0)) (start_worker, demo_bus, idle_stats) (w, Server.bus c', Server.stats c') \<and>
    w_out w = outbox c' \<and> w_buf w = buf c'"
proof -
  obtain c' where c': "serve_client (in_process_transact (\<lambda>_. 0)) (\<lambda>e out. (1, e)) (new_conn demo_bus idle_stats ())
      [Recv [0, 9, 0], RecvEnd] = Some c'"
    by (rule exE [OF serve_client_returns [OF inproc.rtu_transport_axioms demo_bus_ok(1)]])
  from serve_client_is_thread_run [OF this] c' show ?thesis
    by auto
qed

end
