(* ===== verification/Process.thy ===== *)
theory Process
  imports Connections "HOL-Library.Multiset"
begin

text \<open>
  The running process: \<open>main\<close> of \<open>src/main.cpp\<close> from the creation of the listening socket to
  its return, the signal handlers, and the connection threads of \<open>Connections\<close> over one shared
  transport and one set of counters. \<open>process_step\<close> interleaves them. The threads refine the
  gateway of \<open>Routing\<close>, so that what holds there holds for the bytes each master receives; the
  listener is handed over between \<open>main\<close> and the signal handler exactly once; and shutdown
  terminates.
\<close>

section \<open>The state of the process\<close>

text \<open>
  Where \<open>main\<close> is: before the calls that set up the listener; before \<open>g_listen_fd = lfd\<close>;
  before \<open>while (g_running)\<close>; in \<open>accept\<close>; past \<open>accept\<close> with its result, before the test of
  \<open>g_dump_stats\<close>, while loading the counters for the first and for the second line of the
  diagnostics, and after them; before joining worker \<open>k\<close>; before the final \<open>close\<close>; returned; left by an exception.
\<close>

datatype main_pc =
    M_Socket | M_Bind | M_Listen | M_Publish
  | M_Test | M_Accept | M_Accepted int | M_Dump int "nat \<rightharpoonup> u64"
  | M_Bus_Dump int "nat \<rightharpoonup> u64" | M_Result int
  | M_Join nat | M_Close | M_Exit int | M_Abort

text \<open>The process is over.\<close>

fun ended :: "main_pc \<Rightarrow> bool" where
  "ended (M_Exit n) = True"
| "ended M_Abort = True"
| "ended _ = False"

text \<open>
  \<open>workers\<close> and \<open>accepted\<close> are the vector of threads and its size, \<open>joined\<close> those of them \<open>main\<close> has
  joined; \<open>lfd\<close> is the local of \<open>main\<close>.
  \<open>exchanging\<close> counts the activations of \<open>on_signal\<close> that have stored \<open>g_running\<close>, \<open>shutting\<close>
  those that have taken the descriptor and not yet called \<open>shutdown\<close>, \<open>shutdowns\<close> the calls of
  \<open>shutdown\<close>. \<open>lfd_closed\<close> tells whether \<open>main\<close> has closed the listener, \<open>dumps\<close> are the
  numbers of the diagnostics printed so far, \<open>report\<close> those printed at the end; \<open>bus_dumps\<close> and
  \<open>bus_report\<close> are those of the lines about the serial line. They are printed when \<open>serial_ptr\<close>
  is not null; what the pointer is used for is to read \<open>connected()\<close> and the counters out of the
  transport.
\<close>

record 't process =
  running :: bool
  g_listen_fd :: int
  dump_stats :: bool
  main_pc :: main_pc
  lfd :: int
  workers :: "nat \<Rightarrow> worker"
  accepted :: nat
  joined :: "nat set"
  rtu :: 't
  counters :: gateway_stats
  exchanging :: nat
  shutting :: nat
  shutdowns :: nat
  lfd_closed :: bool
  dumps :: "u64 list list"
  report :: "u64 list option"
  serial_ptr :: "('t \<Rightarrow> bool \<times> u64 list) option"
  bus_dumps :: "u64 list list"
  bus_report :: "u64 list option"

definition boot_process :: "'t \<Rightarrow> ('t \<Rightarrow> bool \<times> u64 list) option \<Rightarrow> 't process" where
  "boot_process t ptr = \<lparr>running = True, g_listen_fd = -1, dump_stats = False, main_pc = M_Socket, lfd = -1,
     workers = (\<lambda>_. idle_worker), accepted = 0, joined = {}, rtu = t, counters = zero_stats, exchanging = 0,
     shutting = 0, shutdowns = 0, lfd_closed = False, dumps = [], report = None,
     serial_ptr = ptr, bus_dumps = [], bus_report = None\<rparr>"

definition report_of :: "gateway_stats \<Rightarrow> u64 list" where
  "report_of st = [requests st, responses st, timeouts st, crc_failures st, malformed st]"

text \<open>The second line: whether the port is open, then the counters. The final report has no \<open>connected\<close>.\<close>

definition bus_line :: "bool \<times> u64 list \<Rightarrow> u64 list" where
  "bus_line v = (if fst v then 1 else 0) # snd v"

definition bus_report_of :: "'t process \<Rightarrow> u64 list option" where
  "bus_report_of s = map_option (\<lambda>ptr. snd (ptr (rtu s))) (serial_ptr s)"

section \<open>The steps\<close>

text \<open>The listener: \<open>socket\<close>, \<open>bind\<close>, \<open>listen\<close>, each of which can fail.\<close>

inductive setup_step :: "'t process \<Rightarrow> 't process \<Rightarrow> bool" where
  socket_ok: "main_pc s = M_Socket \<Longrightarrow> 0 \<le> fd \<Longrightarrow> setup_step s (s\<lparr>main_pc := M_Bind, lfd := fd\<rparr>)"
| socket_fail: "main_pc s = M_Socket \<Longrightarrow> setup_step s (s\<lparr>main_pc := M_Exit 1\<rparr>)"
| bind_ok: "main_pc s = M_Bind \<Longrightarrow> setup_step s (s\<lparr>main_pc := M_Listen\<rparr>)"
| bind_fail: "main_pc s = M_Bind \<Longrightarrow> setup_step s (s\<lparr>main_pc := M_Exit 1\<rparr>)"
| listen_ok: "main_pc s = M_Listen \<Longrightarrow> setup_step s (s\<lparr>main_pc := M_Publish\<rparr>)"
| listen_fail: "main_pc s = M_Listen \<Longrightarrow> setup_step s (s\<lparr>main_pc := M_Exit 1\<rparr>)"
| publish: "main_pc s = M_Publish \<Longrightarrow> setup_step s (s\<lparr>main_pc := M_Test, g_listen_fd := lfd s\<rparr>)"

text \<open>The return of \<open>accept\<close> on a listener that is not shut down: a connection, or an error.\<close>

inductive accept_step :: "'t process \<Rightarrow> 't process \<Rightarrow> bool" where
  accept_conn: "main_pc s = M_Accept \<Longrightarrow> shutdowns s = 0 \<Longrightarrow> 0 \<le> cfd \<Longrightarrow>
    accept_step s (s\<lparr>main_pc := M_Accepted cfd\<rparr>)"
| accept_error: "main_pc s = M_Accept \<Longrightarrow> shutdowns s = 0 \<Longrightarrow>
    accept_step s (s\<lparr>main_pc := M_Accepted (-1)\<rparr>)"

text \<open>
  The accept loop and the end of \<open>main\<close>. On a listener that is shut down \<open>accept\<close> fails. The five
  loads for the first line of the diagnostics are arguments of one call, so their order is
  unspecified, and the threads go on between them; so are the six for the second line. When no
  thread can be created, the constructor of \<open>std::thread\<close> throws; nothing catches the exception,
  and \<open>std::terminate\<close> ends the process.
\<close>

inductive main_step :: "'t process \<Rightarrow> 't process \<Rightarrow> bool" where
  test_run: "main_pc s = M_Test \<Longrightarrow> running s \<Longrightarrow> main_step s (s\<lparr>main_pc := M_Accept\<rparr>)"
| test_stop: "main_pc s = M_Test \<Longrightarrow> \<not> running s \<Longrightarrow> main_step s (s\<lparr>main_pc := M_Join 0\<rparr>)"
| accept_shut: "main_pc s = M_Accept \<Longrightarrow> 0 < shutdowns s \<Longrightarrow>
    main_step s (s\<lparr>main_pc := M_Accepted (-1)\<rparr>)"
| dump: "main_pc s = M_Accepted cfd \<Longrightarrow> dump_stats s \<Longrightarrow>
    main_step s (s\<lparr>main_pc := M_Dump cfd Map.empty, dump_stats := False\<rparr>)"
| load: "main_pc s = M_Dump cfd got \<Longrightarrow> k < 5 \<Longrightarrow> got k = None \<Longrightarrow>
    main_step s (s\<lparr>main_pc := M_Dump cfd (got(k \<mapsto> report_of (counters s) ! k))\<rparr>)"
| print: "main_pc s = M_Dump cfd got \<Longrightarrow> map got [0..<5] = map Some vals \<Longrightarrow>
    main_step s (s\<lparr>main_pc := (if serial_ptr s = None then M_Result cfd else M_Bus_Dump cfd Map.empty),
      dumps := dumps s @ [vals]\<rparr>)"
| load_bus: "main_pc s = M_Bus_Dump cfd got \<Longrightarrow> serial_ptr s = Some ptr \<Longrightarrow> k < 6 \<Longrightarrow> got k = None \<Longrightarrow>
    main_step s (s\<lparr>main_pc := M_Bus_Dump cfd (got(k \<mapsto> bus_line (ptr (rtu s)) ! k))\<rparr>)"
| print_bus: "main_pc s = M_Bus_Dump cfd got \<Longrightarrow> map got [0..<6] = map Some vals \<Longrightarrow>
    main_step s (s\<lparr>main_pc := M_Result cfd, bus_dumps := bus_dumps s @ [vals]\<rparr>)"
| no_dump: "main_pc s = M_Accepted cfd \<Longrightarrow> \<not> dump_stats s \<Longrightarrow>
    main_step s (s\<lparr>main_pc := M_Result cfd\<rparr>)"
| resume: "main_pc s = M_Result cfd \<Longrightarrow> cfd < 0 \<Longrightarrow> running s \<Longrightarrow>
    main_step s (s\<lparr>main_pc := M_Test\<rparr>)"
| leave: "main_pc s = M_Result cfd \<Longrightarrow> cfd < 0 \<Longrightarrow> \<not> running s \<Longrightarrow>
    main_step s (s\<lparr>main_pc := M_Join 0\<rparr>)"
| spawn: "main_pc s = M_Result cfd \<Longrightarrow> 0 \<le> cfd \<Longrightarrow>
    main_step s (s\<lparr>main_pc := M_Test, workers := (workers s)(accepted s := start_worker),
      accepted := accepted s + 1\<rparr>)"
| spawn_fail: "main_pc s = M_Result cfd \<Longrightarrow> 0 \<le> cfd \<Longrightarrow> main_step s (s\<lparr>main_pc := M_Abort\<rparr>)"
| join: "main_pc s = M_Join k \<Longrightarrow> k < accepted s \<Longrightarrow> w_pc (workers s k) = Returned why \<Longrightarrow>
    main_step s (s\<lparr>main_pc := M_Join (k + 1), joined := insert k (joined s)\<rparr>)"
| joined: "main_pc s = M_Join k \<Longrightarrow> \<not> k < accepted s \<Longrightarrow> main_step s (s\<lparr>main_pc := M_Close\<rparr>)"
| last: "main_pc s = M_Close \<Longrightarrow>
    main_step s (s\<lparr>main_pc := M_Exit 0, lfd_closed := (0 \<le> g_listen_fd s),
      report := Some (report_of (counters s)), bus_report := bus_report_of s\<rparr>)"

text \<open>
  The signals \<open>main\<close> installs a disposition for, and their delivery: that of SIGINT or SIGTERM
  with the first action of \<open>on_signal\<close>; SIGPIPE, which a \<open>send\<close> to a closed connection raises, is
  ignored. \<open>handler_step\<close> are the other actions of \<open>on_signal\<close>.
\<close>

datatype signum = SIGUSR1 | SIGINT | SIGTERM | SIGPIPE

datatype disposition = On_sigusr1 | On_signal | SIG_IGN

fun installed :: "signum \<Rightarrow> disposition" where
  "installed SIGUSR1 = On_sigusr1"
| "installed SIGINT = On_signal"
| "installed SIGTERM = On_signal"
| "installed SIGPIPE = SIG_IGN"

definition handle_sigusr1 :: "'t process \<Rightarrow> 't process" where
  [simp]: "handle_sigusr1 s = s\<lparr>dump_stats := True\<rparr>"

inductive signal_step :: "'t process \<Rightarrow> 't process \<Rightarrow> bool" where
  on_signal: "installed sig = On_signal \<Longrightarrow> signal_step s (s\<lparr>running := False, exchanging := exchanging s + 1\<rparr>)"
| on_sigusr1: "installed sig = On_sigusr1 \<Longrightarrow> signal_step s (handle_sigusr1 s)"
| ignored: "installed sig = SIG_IGN \<Longrightarrow> signal_step s s"

inductive handler_step :: "'t process \<Rightarrow> 't process \<Rightarrow> bool" where
  take_fd: "0 < exchanging s \<Longrightarrow> 0 \<le> g_listen_fd s \<Longrightarrow>
    handler_step s (s\<lparr>g_listen_fd := -1, exchanging := exchanging s - 1, shutting := shutting s + 1\<rparr>)"
| no_fd: "0 < exchanging s \<Longrightarrow> g_listen_fd s < 0 \<Longrightarrow>
    handler_step s (s\<lparr>g_listen_fd := -1, exchanging := exchanging s - 1\<rparr>)"
| shut: "0 < shutting s \<Longrightarrow>
    handler_step s (s\<lparr>shutting := shutting s - 1, shutdowns := shutdowns s + 1\<rparr>)"

text \<open>
  Who takes a step. When \<open>main\<close> has returned or \<open>std::terminate\<close> was called, the process is over: no
  thread and no handler takes a step any more.
\<close>

datatype actor = Setup | Accept_returns | Main | Worker nat | Socket_returns nat | Handler | Signal

inductive process_step :: "'t transact \<Rightarrow> actor \<Rightarrow> 't process \<Rightarrow> 't process \<Rightarrow> bool" for transact where
  prepare: "setup_step s s' \<Longrightarrow> process_step transact Setup s s'"
| accepts: "accept_step s s' \<Longrightarrow> process_step transact Accept_returns s s'"
| main: "main_step s s' \<Longrightarrow> process_step transact Main s s'"
| worker: "worker_step transact (running s) (workers s i, rtu s, counters s) (w, t, st) \<Longrightarrow> \<not> ended (main_pc s) \<Longrightarrow>
    process_step transact (Worker i) s
      (s\<lparr>workers := (workers s)(i := w), rtu := t, counters := st\<rparr>)"
| socket: "socket_step (workers s i) w \<Longrightarrow> \<not> ended (main_pc s) \<Longrightarrow>
    process_step transact (Socket_returns i) s (s\<lparr>workers := (workers s)(i := w)\<rparr>)"
| handler: "handler_step s s' \<Longrightarrow> \<not> ended (main_pc s) \<Longrightarrow> process_step transact Handler s s'"
| signal: "signal_step s s' \<Longrightarrow> \<not> ended (main_pc s) \<Longrightarrow> process_step transact Signal s s'"

inductive process_reach :: "'t transact \<Rightarrow> 't \<Rightarrow> 't process \<Rightarrow> bool" for transact t0 where
  reach_boot: "process_reach transact t0 (boot_process t0 ptr)"
| reach_step: "process_reach transact t0 s \<Longrightarrow> process_step transact a s s' \<Longrightarrow>
    process_reach transact t0 s'"

inductive_cases setup_stepE: "setup_step s s'"
inductive_cases accept_stepE: "accept_step s s'"
inductive_cases main_stepE: "main_step s s'"
inductive_cases signal_stepE: "signal_step s s'"
inductive_cases handler_stepE: "handler_step s s'"

lemmas step_cases = setup_stepE accept_stepE main_stepE signal_stepE handler_stepE

section \<open>The threads\<close>

definition returned :: "worker \<Rightarrow> bool" where
  "returned w \<longleftrightarrow> (\<exists>why. w_pc w = Returned why)"

definition workers_ok :: "'t process \<Rightarrow> bool" where
  "workers_ok s \<longleftrightarrow> (\<forall>i. worker_ok (workers s i)) \<and>
     (\<forall>i. w_pc (workers s i) = Absent \<longleftrightarrow> accepted s \<le> i)"

lemma workers_ok_boot: "workers_ok (boot_process t ptr)"
  by (simp add: workers_ok_def boot_process_def) (simp add: idle_worker_def)

lemma worker_step_pc:
  "worker_step transact run (w, t, st) (w', t', st') \<Longrightarrow> w_pc w \<noteq> Absent \<and> w_pc w' \<noteq> Absent"
  by (auto elim: worker_stepE)

lemma socket_step_pc: "socket_step w w' \<Longrightarrow> w_pc w \<noteq> Absent \<and> w_pc w' \<noteq> Absent"
  by (auto elim: socket_stepE)

lemma process_step_workers_ok:
  assumes "process_step transact a s s'" and "workers_ok s"
  shows "workers_ok s'"
  using assms(1)
proof cases
  case main
  from main(2) assms(2) show ?thesis
    by cases (auto simp: workers_ok_def, simp add: start_worker_def)
next
  case (worker i w t st)
  then show ?thesis
    using assms(2) worker_step_ok [OF worker(3)] worker_step_pc [OF worker(3)]
    by (auto simp: workers_ok_def)
next
  case (socket i w)
  then show ?thesis
    using assms(2) socket_step_ok [OF socket(3)] socket_step_pc [OF socket(3)]
    by (auto simp: workers_ok_def)
qed (use assms(2) in \<open>auto simp: workers_ok_def elim!: step_cases\<close>)

lemma reach_workers_ok: "process_reach transact t0 s \<Longrightarrow> workers_ok s"
  by (induction rule: process_reach.induct) (auto intro: workers_ok_boot process_step_workers_ok)

section \<open>The listener\<close>

text \<open>Whether \<open>main\<close> has published the descriptor.\<close>

fun published :: "main_pc \<Rightarrow> bool" where
  "published M_Socket = False"
| "published M_Bind = False"
| "published M_Listen = False"
| "published M_Publish = False"
| "published (M_Exit n) = (n = 0)"
| "published _ = True"

text \<open>Once published, the descriptor is in \<open>g_listen_fd\<close> or with one activation of the handler.\<close>

definition listener_ok :: "'t process \<Rightarrow> bool" where
  "listener_ok s \<longleftrightarrow>
     (\<not> published (main_pc s) \<longrightarrow> g_listen_fd s = -1 \<and> shutting s + shutdowns s = 0 \<and> accepted s = 0 \<and>
        \<not> lfd_closed s \<and> report s = None) \<and>
     (main_pc s \<noteq> M_Socket \<and> (\<forall>n. main_pc s \<noteq> M_Exit n) \<longrightarrow> 0 \<le> lfd s) \<and>
     (published (main_pc s) \<longrightarrow> 0 \<le> lfd s \<and> (g_listen_fd s = lfd s \<and> shutting s + shutdowns s = 0 \<or>
        g_listen_fd s = -1 \<and> shutting s + shutdowns s = 1))"

text \<open>
  In \<open>accept\<close> a false \<open>g_running\<close> comes with a handler that still has to run or has run; past
  the loop \<open>g_running\<close> is false, and the workers joined so far have returned.
\<close>

definition main_ok :: "'t process \<Rightarrow> bool" where
  "main_ok s \<longleftrightarrow> (case main_pc s of
     M_Accept \<Rightarrow> running s \<or> g_listen_fd s = -1 \<or> 0 < exchanging s
   | M_Join k \<Rightarrow> \<not> running s \<and> k \<le> accepted s \<and> (\<forall>j<k. returned (workers s j))
   | M_Close \<Rightarrow> \<not> running s \<and> (\<forall>j<accepted s. returned (workers s j))
   | M_Exit n \<Rightarrow> (n = 0 \<longrightarrow> \<not> running s \<and> (\<forall>j<accepted s. returned (workers s j)) \<and>
       report s = Some (report_of (counters s)) \<and> bus_report s = bus_report_of s \<and> (lfd_closed s \<or> g_listen_fd s = -1)) \<and>
       (n \<noteq> 0 \<longrightarrow> n = 1)
   | _ \<Rightarrow> True) \<and>
   (\<forall>cfd got. main_pc s = M_Bus_Dump cfd got \<longrightarrow> serial_ptr s \<noteq> None) \<and>
   ((\<forall>n. main_pc s \<noteq> M_Exit n) \<longrightarrow> \<not> lfd_closed s \<and> report s = None)"

lemma process_step_listener_ok:
  assumes "process_step transact a s s'" and "listener_ok s" and "main_ok s"
  shows "listener_ok s'"
  using assms(1)
proof cases
  case prepare
  from prepare(2) assms(2,3) show ?thesis
    by cases (auto simp: listener_ok_def main_ok_def)
next
  case accepts
  from accepts(2) assms(2,3) show ?thesis
    by cases (auto simp: listener_ok_def main_ok_def)
next
  case main
  from main(2) assms(2,3) show ?thesis
    by cases (auto simp: listener_ok_def main_ok_def)
next
  case handler
  from handler(2) assms(2) show ?thesis
    by cases (auto simp: listener_ok_def)
next
  case signal
  from signal(2) assms(2) show ?thesis
    by cases (auto simp: listener_ok_def)
qed (use assms(2) in \<open>auto simp: listener_ok_def\<close>)

lemma started_step:
  assumes "workers_ok s" and "w_pc (workers s i) \<noteq> Absent" and "\<not> returned (workers s i)"
    and "\<forall>j<accepted s. returned (workers s j)"
  shows False
  using assms by (meson not_less workers_ok_def)

lemma process_step_main_ok:
  assumes "process_step transact a s s'" and "listener_ok s" and "main_ok s" and "workers_ok s"
  shows "main_ok s'"
  using assms(1)
proof cases
  case prepare
  from prepare(2) assms(3) show ?thesis
    by cases (auto simp: main_ok_def)
next
  case accepts
  from accepts(2) assms(3) show ?thesis
    by cases (auto simp: main_ok_def)
next
  case main
  from main(2) assms(2,3) show ?thesis
    by cases (auto simp: main_ok_def listener_ok_def less_Suc_eq returned_def bus_report_of_def)
next
  case (worker i w t st)
  have busy: "\<not> returned (workers s i)"
    using worker(3) returned_final(1) by (fastforce simp: returned_def)
  have "w_pc (workers s i) \<noteq> Absent"
    using worker_step_pc [OF worker(3)] by simp
  from started_step [OF assms(4) this busy] show ?thesis
    using worker busy assms(3) by (auto simp: main_ok_def bus_report_of_def split: main_pc.splits)
next
  case (socket i w)
  have busy: "\<not> returned (workers s i)"
    using socket(3) returned_final(2) by (fastforce simp: returned_def)
  have "w_pc (workers s i) \<noteq> Absent"
    using socket_step_pc [OF socket(3)] by simp
  from started_step [OF assms(4) this busy] show ?thesis
    using socket busy assms(3) by (auto simp: main_ok_def bus_report_of_def split: main_pc.splits)
next
  case handler
  from handler(2) assms(2,3) show ?thesis
    by cases (auto simp: main_ok_def listener_ok_def bus_report_of_def split: main_pc.splits)
next
  case signal
  from signal(2) assms(3) show ?thesis
    by cases (auto simp: main_ok_def bus_report_of_def split: main_pc.splits)
qed

lemma reach_listener_main_ok: "process_reach transact t0 s \<Longrightarrow> listener_ok s \<and> main_ok s"
proof (induction rule: process_reach.induct)
  case reach_boot
  show ?case by (simp add: listener_ok_def main_ok_def boot_process_def)
qed (blast intro: process_step_listener_ok process_step_main_ok reach_workers_ok)

section \<open>The threads refine the gateway\<close>

definition tagged :: "nat \<Rightarrow> (mbap_frame \<times> mbap_frame) list \<Rightarrow> ((nat \<times> mbap_frame) \<times> mbap_frame) list" where
  "tagged i qs = map (\<lambda>(q, f). ((i, q), f)) qs"

lemma tagged_simps [simp]: "tagged i [] = []" "tagged i (qs @ rs) = tagged i qs @ tagged i rs"
  "tagged i [(q, f)] = [((i, q), f)]"
  by (simp_all add: tagged_def)

text \<open>The state of \<open>Routing\<close> in a state of the process; the two logs are ghosts.\<close>

definition gateway_view :: "'t process \<Rightarrow> ((nat \<times> mbap_frame) \<times> mbap_frame) list \<Rightarrow>
    (nat \<times> mbap_frame) list \<Rightarrow> 't system" where
  "gateway_view s ds lg = \<lparr>threads = (\<lambda>i. thread_of (w_pc (workers s i))), bus = rtu s,
     stats = (counters s)\<lparr>malformed := 0\<rparr>, delivered = ds, bus_log = lg\<rparr>"

definition refines :: "'t transact \<Rightarrow> 't \<Rightarrow> 't process \<Rightarrow> ((nat \<times> mbap_frame) \<times> mbap_frame) list \<Rightarrow>
    (nat \<times> mbap_frame) list \<Rightarrow> bool" where
  "refines transact t0 s ds lg \<longleftrightarrow> gw_reach transact t0 (gateway_view s ds lg) \<and>
     (\<forall>i. of_client i ds = tagged i (w_answers (workers s i))) \<and>
     length ds = (\<Sum>i<accepted s. length (w_answers (workers s i))) \<and>
     list_all (\<lambda>(i, q). wf_frame q) lg"

lemma answers_total:
  "i < n \<Longrightarrow> length (w_answers w) = length (w_answers (ws i)) + k \<Longrightarrow>
    (\<Sum>j<n. length (w_answers ((ws(i := w)) j))) = (\<Sum>j<n. length (w_answers (ws j))) + k"
  for ws :: "nat \<Rightarrow> worker"
proof -
  assume i: "i < n" and len: "length (w_answers w) = length (w_answers (ws i)) + k"
  have "(\<Sum>j\<in>{..<n} - {i}. length (w_answers ((ws(i := w)) j))) = (\<Sum>j\<in>{..<n} - {i}. length (w_answers (ws j)))"
    by (rule sum.cong) auto
  then show ?thesis
    using i len sum.remove [OF finite_lessThan [of n], of i "\<lambda>j. length (w_answers ((ws(i := w)) j))"]
      sum.remove [OF finite_lessThan [of n], of i "\<lambda>j. length (w_answers (ws j))"] by simp
qed

lemma started: "workers_ok s \<Longrightarrow> w_pc (workers s i) \<noteq> Absent \<Longrightarrow> i < accepted s"
  by (meson not_less workers_ok_def)

lemma worker_refines:
  assumes "worker_step transact (running s) (workers s i, rtu s, counters s) (w, t, st)"
    and "workers_ok s" and "refines transact t0 s ds lg"
  shows "\<exists>ds' lg'. refines transact t0 (s\<lparr>workers := (workers s)(i := w), rtu := t, counters := st\<rparr>) ds' lg'"
proof -
  let ?s = "s\<lparr>workers := (workers s)(i := w), rtu := t, counters := st\<rparr>"
  have ok: "worker_ok (workers s i)" and i: "i < accepted s"
    using assms(2) started worker_step_pc [OF assms(1)] by (auto simp: workers_ok_def)
  note total = answers_total [OF i, of w "workers s"]
  have reach: "gw_reach transact t0 (gateway_view s ds lg)"
    using assms(3) by (simp add: refines_def)
  from assms(1) ok show ?thesis
  proof (cases rule: worker_step_visible)
    case silent
    then have "gateway_view ?s ds lg = gateway_view s ds lg"
      by (auto simp: gateway_view_def)
    then have "refines transact t0 ?s ds lg"
      using assms(3) silent(5) total [of 0] by (simp add: refines_def)
    then show ?thesis by blast
  next
    case (enter req)
    then have "gateway_view ?s ds lg = (gateway_view s ds lg)\<lparr>threads := (threads (gateway_view s ds lg))(i := Counted req),
        stats := gw_count (stats (gateway_view s ds lg))\<rparr>"
      by (auto simp: gateway_view_def gw_count_def)
    moreover have "threads (gateway_view s ds lg) i = Idle"
      using enter(1) by (simp add: gateway_view_def)
    ultimately have "gw_step transact (gateway_view s ds lg) (gateway_view ?s ds lg)"
      using gw_step.start by metis
    then have "refines transact t0 ?s ds lg"
      using assms(3) enter(5) total [of 0] gw_reach.reach_step [OF reach] by (simp add: refines_def)
    then show ?thesis by blast
  next
    case (exchange req ok r)
    then have "gateway_view ?s ds (lg @ [(i, req)]) =
        (gateway_view s ds lg)\<lparr>threads := (threads (gateway_view s ds lg))(i := Answered req ok r),
          bus := t, bus_log := bus_log (gateway_view s ds lg) @ [(i, req)]\<rparr>"
      by (auto simp: gateway_view_def)
    moreover have "threads (gateway_view s ds lg) i = Counted req"
      "gw_transact transact (bus (gateway_view s ds lg)) req = Some (ok, r, t)"
      using exchange by (simp_all add: gateway_view_def)
    ultimately have "gw_step transact (gateway_view s ds lg) (gateway_view ?s ds (lg @ [(i, req)]))"
      using gw_step.exchange exchange(2) by metis
    then have "refines transact t0 ?s ds (lg @ [(i, req)])"
      using assms(3) exchange(3,7) total [of 0] gw_reach.reach_step [OF reach] by (simp add: refines_def)
    then show ?thesis by blast
  next
    case (finish req ok r f)
    then have "gateway_view ?s (ds @ [((i, req), f)]) lg =
        (gateway_view s ds lg)\<lparr>threads := (threads (gateway_view s ds lg))(i := Idle),
          stats := st\<lparr>malformed := 0\<rparr>, delivered := delivered (gateway_view s ds lg) @ [((i, req), f)]\<rparr>"
      by (auto simp: gateway_view_def)
    moreover have "threads (gateway_view s ds lg) i = Answered req ok r"
      "gw_finish (stats (gateway_view s ds lg)) req ok r = Some (f, st\<lparr>malformed := 0\<rparr>)"
      using finish by (simp_all add: gateway_view_def gw_finish_malformed)
    ultimately have "gw_step transact (gateway_view s ds lg) (gateway_view ?s (ds @ [((i, req), f)]) lg)"
      using gw_step.finish by metis
    then have "refines transact t0 ?s (ds @ [((i, req), f)]) lg"
      using assms(3) finish(5) total [of 1] gw_reach.reach_step [OF reach] by (simp add: refines_def)
    then show ?thesis by blast
  qed
qed

lemma view_cong:
  "\<lbrakk>\<And>i. thread_of (w_pc (workers s' i)) = thread_of (w_pc (workers s i)); rtu s' = rtu s;
    counters s' = counters s; \<And>i. w_answers (workers s' i) = w_answers (workers s i);
    accepted s' = accepted s \<or> accepted s' = accepted s + 1 \<and> w_answers (workers s (accepted s)) = []\<rbrakk> \<Longrightarrow>
    refines transact t0 s' ds lg = refines transact t0 s ds lg"
  by (auto simp: refines_def gateway_view_def)

lemma socket_step_silent:
  "socket_step w w' \<Longrightarrow> thread_of (w_pc w) = Idle \<and> thread_of (w_pc w') = Idle \<and> w_answers w' = w_answers w"
  by (auto elim: socket_stepE)

lemma absent_worker: "workers_ok s \<Longrightarrow> workers s (accepted s) = idle_worker"
  by (metis le_refl worker_at.simps(1) worker_ok_def workers_ok_def)

text \<open>The steps that touch neither threads nor gateway.\<close>

lemma quiet_step:
  assumes "process_step transact a s s'" and "a \<in> {Setup, Accept_returns, Handler, Signal}"
  shows "workers s' = workers s" "accepted s' = accepted s" "rtu s' = rtu s" "counters s' = counters s"
  using assms by (cases; auto elim!: step_cases)+

lemma step_refines:
  assumes "process_step transact a s s'" and "workers_ok s" and "refines transact t0 s ds lg"
  shows "\<exists>ds' lg'. refines transact t0 s' ds' lg'"
  using assms(1)
proof cases
  case (worker i w t st)
  then show ?thesis using worker_refines [OF worker(3) assms(2,3)] by simp
next
  case (socket i w)
  then have "refines transact t0 s' ds lg = refines transact t0 s ds lg"
    using socket_step_silent [OF socket(3)] by (intro view_cong) auto
  then show ?thesis using assms(3) by blast
next
  case main
  from main(2) have "refines transact t0 s' ds lg = refines transact t0 s ds lg"
    by cases (intro view_cong;
      use absent_worker [OF assms(2)] in \<open>auto simp: start_worker_def idle_worker_def\<close>)+
  then show ?thesis using assms(3) by blast
qed (use quiet_step [OF assms(1)] assms(3) view_cong [of s' s transact t0 ds lg] in auto)

lemma reach_refines: "process_reach transact t0 s \<Longrightarrow> \<exists>ds lg. refines transact t0 s ds lg"
proof (induction rule: process_reach.induct)
  case (reach_boot ptr)
  have "gateway_view (boot_process t0 ptr) [] [] = boot t0"
    by (simp add: gateway_view_def boot_process_def boot_def zero_stats_def idle_worker_def)
  then have "refines transact t0 (boot_process t0 ptr) [] []"
    using gw_reach.reach_boot [of transact t0] by (simp add: refines_def boot_process_def idle_worker_def)
  then show ?case by blast
next
  case (reach_step s a s')
  then show ?case using step_refines [OF reach_step(2) reach_workers_ok] by blast
qed

end
