(* ===== verification/End_To_End.thy ===== *)
theory End_To_End
  imports Process
begin

text \<open>
  What the masters of a running process observe: the bytes each of them receives, the counters,
  and the state in which \<open>main\<close> returns. The properties of \<open>Routing\<close> carry over along the
  refinement of \<open>Process\<close>.
\<close>

section \<open>Responses\<close>

lemma answer_delivered:
  assumes "process_reach transact t0 s" and "(q, f) \<in> set (w_answers (workers s i))"
  obtains g where "gw_reach transact t0 g" "((i, q), f) \<in> set (delivered g)"
    "list_all wf_frame (map snd (bus_log g))"
proof -
  obtain ds lg where ref: "refines transact t0 s ds lg"
    using reach_refines [OF assms(1)] by blast
  then have "((i, q), f) \<in> set (of_client i ds)"
    using assms(2) by (auto simp: refines_def tagged_def)
  then show thesis
    using that [of "gateway_view s ds lg"] ref
    by (force simp: refines_def of_client_def gateway_view_def list_all_iff)
qed

context rtu_transport
begin

lemma worker_transaction_ids:
  assumes "process_reach transact t0 s" and "inv t0"
  shows "map transaction_id (responses_of (workers s i)) = map transaction_id (requests_of (workers s i))"
proof -
  have "transaction_id f = transaction_id q" if "(q, f) \<in> set (w_answers (workers s i))" for q f
    using answer_delivered [OF assms(1) that] delivered_transaction_id [OF _ assms(2)] by metis
  then show ?thesis by force
qed

end


context addressed_transport
begin

lemma sequential_answers:
  "inv t \<Longrightarrow> list_all wf_frame qs \<Longrightarrow> sequential transact t qs = Some (fs, t') \<Longrightarrow>
    list_all wf_frame fs \<and> map unit_id fs = map unit_id qs \<and> map transaction_id fs = map transaction_id qs"
proof (induction qs arbitrary: t fs)
  case (Cons q qs)
  obtain f u where h: "handle_frame transact t q = Some (f, u)" "inv u" "transaction_id f = transaction_id q"
    using handle_frame_responds [OF Cons.prems(1)] by metis
  then obtain gs where gs: "sequential transact u qs = Some (gs, t')" "fs = f # gs"
    using Cons.prems(3) by (auto simp: bind_eq_Some_conv)
  obtain st where "gateway_handle transact t zero_stats q = Some (f, u, st)"
    using h(1) by (auto simp: handle_frame_def)
  then have "unit_id f = unit_id q \<and> wf_frame f"
    using handle_addressed [OF Cons.prems(1), of q zero_stats f u st] Cons.prems(2)
    by (simp add: wf_frame_def [of q] mbap_consts)
  then show ?case
    using Cons.IH [OF h(2) _ gs(1)] Cons.prems(2) gs(2) h(3) by simp
qed simp

lemma worker_answer:
  assumes "process_reach transact t0 s" and "inv t0" and "(q, f) \<in> set (w_answers (workers s i))"
  shows "wf_frame f \<and> unit_id f = unit_id q \<and> transaction_id f = transaction_id q"
proof -
  obtain g where g: "gw_reach transact t0 g" "((i, q), f) \<in> set (delivered g)" "list_all wf_frame (map snd (bus_log g))"
    using answer_delivered [OF assms(1,3)] by metis
  obtain fs where lin: "linear transact t0 g fs"
    using g(1) by (elim gw_reach_linear [THEN exE])
  obtain k where k: "k < length fs" "fs ! k = f" "k < length (map snd (bus_log g))" "map snd (bus_log g) ! k = q"
    using delivered_pair [OF lin g(2)] by (auto simp: set_zip)
  have all: "list_all wf_frame fs \<and> map unit_id fs = map unit_id (map snd (bus_log g)) \<and>
      map transaction_id fs = map transaction_id (map snd (bus_log g))"
    using sequential_answers [OF assms(2) g(3)] lin by (simp add: linear_def)
  then have "wf_frame f"
    using k(1,2) by (auto simp: list_all_length)
  with all k show ?thesis
    by (metis nth_map)
qed

lemma worker_answers:
  assumes "process_reach transact t0 s" and "inv t0"
  shows "list_all wf_frame (responses_of (workers s i))"
    and "map unit_id (responses_of (workers s i)) = map unit_id (requests_of (workers s i))"
    and "map transaction_id (responses_of (workers s i)) = map transaction_id (requests_of (workers s i))"
  using worker_answer [OF assms] by (force simp: list_all_iff)+

end

section \<open>A run with one connection\<close>

text \<open>The listener is set up and a master is connected; its thread is \<open>w\<close>.\<close>

definition one_master :: "('t \<Rightarrow> bool \<times> u64 list) option \<Rightarrow> 't \<Rightarrow> worker \<Rightarrow> 't \<Rightarrow> gateway_stats \<Rightarrow> 't process" where
  "one_master ptr t0 w t st = (boot_process t0 ptr)\<lparr>g_listen_fd := 3, main_pc := M_Test, lfd := 3,
     workers := (\<lambda>_. idle_worker)(0 := w), accepted := 1, rtu := t, counters := st\<rparr>"

lemma one_master_simps [simp]:
  "workers (one_master ptr t0 w t st) = (\<lambda>_. idle_worker)(0 := w)" "accepted (one_master ptr t0 w t st) = 1"
  "rtu (one_master ptr t0 w t st) = t" "counters (one_master ptr t0 w t st) = st" "running (one_master ptr t0 w t st)"
  "main_pc (one_master ptr t0 w t st) = M_Test" "g_listen_fd (one_master ptr t0 w t st) = 3"
  "shutdowns (one_master ptr t0 w t st) = 0" "exchanging (one_master ptr t0 w t st) = 0"
  by (simp_all add: one_master_def boot_process_def)

lemma reach_listening:
  "process_reach transact t0 ((boot_process t0 ptr)\<lparr>g_listen_fd := 3, main_pc := M_Test, lfd := 3\<rparr>)"
proof -
  let ?b = "boot_process t0 ptr"
  note reach = reach_step [of transact t0]
  from reach [OF reach_boot process_step.prepare [OF setup_step.socket_ok [of _ 3]]]
  have "process_reach transact t0 (?b\<lparr>main_pc := M_Bind, lfd := 3\<rparr>)"
    by (simp add: boot_process_def)
  from reach [OF this process_step.prepare [OF setup_step.bind_ok]]
  have "process_reach transact t0 (?b\<lparr>main_pc := M_Listen, lfd := 3\<rparr>)"
    by (simp add: boot_process_def)
  from reach [OF this process_step.prepare [OF setup_step.listen_ok]]
  have "process_reach transact t0 (?b\<lparr>main_pc := M_Publish, lfd := 3\<rparr>)"
    by (simp add: boot_process_def)
  from reach [OF this process_step.prepare [OF setup_step.publish]]
  show ?thesis
    by (simp add: boot_process_def)
qed

lemma reach_one_master: "process_reach transact t0 (one_master ptr t0 start_worker t0 zero_stats)"
proof -
  let ?b = "boot_process t0 ptr"
  note reach = reach_step [of transact t0]
  from reach [OF reach_listening process_step.main [OF main_step.test_run]]
  have "process_reach transact t0 (?b\<lparr>g_listen_fd := 3, main_pc := M_Accept, lfd := 3\<rparr>)"
    by (simp add: boot_process_def)
  from reach [OF this process_step.accepts [OF accept_step.accept_conn [of _ 4]]]
  have "process_reach transact t0 (?b\<lparr>g_listen_fd := 3, main_pc := M_Accepted 4, lfd := 3\<rparr>)"
    by (simp add: boot_process_def)
  from reach [OF this process_step.main [OF main_step.no_dump [of _ 4]]]
  have "process_reach transact t0 (?b\<lparr>g_listen_fd := 3, main_pc := M_Result 4, lfd := 3\<rparr>)"
    by (simp add: boot_process_def)
  from reach [OF this process_step.main [OF main_step.spawn [of _ 4]]]
  show ?thesis
    by (simp add: boot_process_def one_master_def)
qed

lemma one_master_worker:
  assumes "process_reach transact t0 (one_master ptr t0 w t st)"
    and "worker_step transact True (w, t, st) (w', t', st')"
  shows "process_reach transact t0 (one_master ptr t0 w' t' st')"
  using reach_step [OF assms(1) process_step.worker [of transact _ 0 w' t' st']] assms(2)
  by (simp add: one_master_def boot_process_def)

lemma one_master_socket:
  assumes "process_reach transact t0 (one_master ptr t0 w t st)" and "socket_step w w'"
  shows "process_reach transact t0 (one_master ptr t0 w' t st)"
  using reach_step [OF assms(1) process_step.socket [of _ 0 w']] assms(2)
  by (simp add: one_master_def boot_process_def)

text \<open>The master sends one request, receives the response and is back in \<open>recv\<close>.\<close>

definition answered_worker :: "mbap_frame \<Rightarrow> mbap_frame \<Rightarrow> worker" where
  "answered_worker q f = \<lparr>w_pc = At_recv, w_buf = [], w_in = encode q, w_out = encode f,
     w_answers = [(q, f)]\<rparr>"

text \<open>The master has sent a request, and its thread is about to enter the exchange.\<close>

definition counted_worker :: "mbap_frame \<Rightarrow> worker" where
  "counted_worker q = \<lparr>w_pc = In_handle (length (encode q)) (Counted q), w_buf = encode q, w_in = encode q,
     w_out = [], w_answers = []\<rparr>"

lemma reach_counted:
  assumes "wf_frame q"
  shows "process_reach transact t0 (one_master ptr t0 (counted_worker q) t0 (gw_count zero_stats))"
proof -
  have len: "length (encode q) \<le> 1024"
    using assms by (auto simp: wf_frame_def mbap_consts)
  have dec: "decode (encode q) (length (encode q)) = Some \<lparr>frame = Some q, error = NeedMoreData, consumed = length (encode q)\<rparr>"
    using decode_Got [OF parse_encode [OF assms, of "[]"]] by simp
  let ?w = "\<lambda>pc b i. \<lparr>w_pc = pc, w_buf = b, w_in = i, w_out = [], w_answers = []\<rparr>"
  note worker = one_master_worker [of transact t0] and socket = one_master_socket [of transact t0]
  from worker [OF reach_one_master worker_step.enter]
  have "process_reach transact t0 (one_master ptr t0 (?w At_recv [] []) t0 zero_stats)"
    by (simp add: start_worker_def idle_worker_def)
  from socket [OF this socket_step.recv [of _ "encode q"]] len
  have "process_reach transact t0 (one_master ptr t0 (?w At_decode (encode q) (encode q)) t0 zero_stats)"
    by simp
  from worker [OF this worker_step.call [of _ _ q]] dec show ?thesis
    by (simp add: counted_worker_def)
qed

context rtu_transport
begin

lemma reach_legal:
  assumes "process_reach transact t0 s" and "inv t0"
  shows "inv (rtu s)"
proof -
  obtain ds lg where "refines transact t0 s ds lg"
    using reach_refines [OF assms(1)] by blast
  then have "gw_reach transact t0 (gateway_view s ds lg)"
    by (simp add: refines_def)
  from gw_reach_inv [OF this assms(2)] show ?thesis
    by (simp add: gateway_view_def)
qed

lemma reach_answered:
  assumes "inv t0" and "wf_frame q"
  shows "\<exists>f t st. process_reach transact t0 (one_master ptr t0 (answered_worker q f) t st)"
proof -
  have "pdu q \<noteq> []"
    using assms(2) by (auto simp: wf_frame_def mbap_consts)
  obtain ok r t where tr: "gw_transact transact t0 q = Some (ok, r, t)"
    using gw_transact_returns [OF assms(1)] by metis
  obtain f st where fin: "gw_finish (gw_count zero_stats) q ok r = Some (f, st)"
    using gw_finish_uniform [of q ok r] by blast
  let ?w = "\<lambda>pc b i out as. \<lparr>w_pc = pc, w_buf = b, w_in = i, w_out = out, w_answers = as\<rparr>"
  note worker = one_master_worker [of transact t0] and socket = one_master_socket [of transact t0]
  have "process_reach transact t0 (one_master ptr t0 (?w (In_handle (length (encode q)) (Counted q)) (encode q) (encode q) [] [])
      t0 (gw_count zero_stats))"
    using reach_counted [OF assms(2)] by (simp add: counted_worker_def)
  from worker [OF this worker_step.exchange] tr \<open>pdu q \<noteq> []\<close>
  have "process_reach transact t0 (one_master ptr t0 (?w (In_handle (length (encode q)) (Answered q ok r)) (encode q) (encode q) [] [])
      t (gw_count zero_stats))"
    by simp
  from worker [OF this worker_step.finish] fin
  have "process_reach transact t0 (one_master ptr t0 (?w (At_send (length (encode q)) (encode f) 0) (encode q) (encode q) [] [(q, f)]) t st)"
    by simp
  from socket [OF this socket_step.send [of _ _ "encode f" 0 "length (encode f)"]]
  have "process_reach transact t0 (one_master ptr t0 (?w (At_send (length (encode q)) (encode f) (length (encode f)))
      (encode q) (encode q) (encode f) [(q, f)]) t st)"
    by simp
  from worker [OF this worker_step.sent [of _ _ _ _ "[]"]] erase_encode [of q "[]"]
  have "process_reach transact t0 (one_master ptr t0 (?w At_decode [] (encode q) (encode f) [(q, f)]) t st)"
    by simp
  from worker [OF this worker_step.drained] decode_More [OF parse_Nil]
  have "process_reach transact t0 (one_master ptr t0 (?w At_loop [] (encode q) (encode f) [(q, f)]) t st)"
    by simp
  from worker [OF this worker_step.enter]
  show ?thesis
    by (auto simp: answered_worker_def)
qed

end

section \<open>Counters\<close>

text \<open>The requests handled and answered so far, those inside \<open>Gateway::handle\<close>, and the connections closed for a framing error.\<close>

definition answered :: "'t process \<Rightarrow> nat" where
  "answered s = (\<Sum>i<accepted s. length (w_answers (workers s i)))"

definition in_progress :: "'t process \<Rightarrow> nat set" where
  "in_progress s = {i. thread_of (w_pc (workers s i)) \<noteq> Idle}"

definition framing_closed :: "'t process \<Rightarrow> nat set" where
  "framing_closed s = {i. w_pc (workers s i) = Returned Framing_error}"

lemma framing_closed_finite: "workers_ok s \<Longrightarrow> finite (framing_closed s)"
  by (rule finite_subset [of _ "{..<accepted s}"]) (auto simp: framing_closed_def intro!: started)

lemma framing_closed_insert:
  assumes "workers_ok s" and "w_pc (workers s i) \<noteq> Returned Framing_error"
  shows "of_nat (card {j. w_pc (((workers s)(i := w)) j) = Returned Framing_error}) =
    (of_nat (card (framing_closed s)) + (if w_pc w = Returned Framing_error then 1 else 0) :: u64)"
proof -
  have "{j. w_pc (((workers s)(i := w)) j) = Returned Framing_error} =
      (if w_pc w = Returned Framing_error then insert i (framing_closed s) else framing_closed s)"
    using assms(2) by (auto simp: framing_closed_def)
  then show ?thesis
    using assms(2) framing_closed_finite [OF assms(1)] by (simp add: framing_closed_def)
qed

lemma reach_malformed:
  "process_reach transact t0 s \<Longrightarrow> malformed (counters s) = of_nat (card (framing_closed s))"
proof (induction rule: process_reach.induct)
  case reach_boot
  show ?case by (simp add: framing_closed_def boot_process_def zero_stats_def idle_worker_def)
next
  case (reach_step s a s')
  note ok = reach_workers_ok [OF reach_step(1)]
  from reach_step(2) show ?case
  proof cases
    case (worker i w t st)
    have step: "w_pc (workers s i) \<noteq> Returned Framing_error \<and>
        malformed st = malformed (counters s) + (if w_pc w = Returned Framing_error then 1 else 0)"
      using worker_step_malformed [OF worker(3)] ok by (simp add: workers_ok_def)
    then show ?thesis
      using worker framing_closed_insert [OF ok, of i w] reach_step.IH by (simp add: framing_closed_def)
  next
    case (socket i w)
    have "w_pc (workers s i) \<noteq> Returned Framing_error" and "w_pc w \<noteq> Returned Framing_error"
      using socket(3) by (auto elim: socket_stepE)
    then show ?thesis
      using socket framing_closed_insert [OF ok, of i w] reach_step.IH by (simp add: framing_closed_def)
  next
    case main
    then show ?thesis
      using framing_closed_insert [OF ok, of "accepted s" start_worker] reach_step.IH absent_worker [OF ok]
      by (auto simp: framing_closed_def start_worker_def idle_worker_def elim!: main_stepE)
  qed (use quiet_step [OF reach_step(2)] reach_step.IH in \<open>auto simp: framing_closed_def\<close>)
qed

lemma reach_counters:
  assumes "process_reach transact t0 s"
  shows "requests (counters s) = of_nat (answered s + card (in_progress s))"
    and "responses (counters s) + timeouts (counters s) + crc_failures (counters s) = of_nat (answered s)"
    and "bad_unit (counters s) = 0"
proof -
  obtain ds lg where ref: "refines transact t0 s ds lg"
    using reach_refines [OF assms] by blast
  then have "accounted (gateway_view s ds lg)"
    using gw_reach_accounted by (auto simp: refines_def)
  then show "requests (counters s) = of_nat (answered s + card (in_progress s))"
    and "responses (counters s) + timeouts (counters s) + crc_failures (counters s) = of_nat (answered s)"
    and "bad_unit (counters s) = 0"
    using ref by (auto simp: accounted_def outcomes_def gateway_view_def busy_def in_progress_def
        answered_def refines_def)
qed

text \<open>The master hangs up, a signal arrives, and \<open>main\<close> returns.\<close>

lemma reach_exit:
  assumes "process_reach transact t0 (one_master ptr t0 (answered_worker q f) t st)"
  shows "\<exists>s. process_reach transact t0 s \<and> main_pc s = M_Exit 0 \<and> accepted s = 1 \<and> lfd_closed s \<and>
    workers s 0 = (answered_worker q f)\<lparr>w_pc := Returned Peer_closed\<rparr> \<and> counters s = st \<and>
    serial_ptr s = ptr \<and> rtu s = t"
proof -
  note reach = reach_step [of transact t0]
  let ?w = "(answered_worker q f)\<lparr>w_pc := Returned Peer_closed\<rparr>"
  have "w_pc (answered_worker q f) = At_recv" by (simp add: answered_worker_def)
  from one_master_socket [OF assms socket_step.recv_end [OF this]]
  have "process_reach transact t0 (one_master ptr t0 ?w t st)" .
  from reach [OF this process_step.signal [OF signal_step.on_signal [of SIGTERM]]]
  have "process_reach transact t0 ((one_master ptr t0 ?w t st)\<lparr>running := False, exchanging := 1\<rparr>)"
    by simp
  from reach [OF this process_step.main [OF main_step.test_stop]]
  have "process_reach transact t0 ((one_master ptr t0 ?w t st)\<lparr>running := False, main_pc := M_Join 0, exchanging := 1\<rparr>)"
    by (simp add: one_master_def boot_process_def)
  from reach [OF this process_step.main [OF main_step.join [of _ 0 Peer_closed]]]
  have "process_reach transact t0 ((one_master ptr t0 ?w t st)\<lparr>running := False, main_pc := M_Join 1, joined := {0}, exchanging := 1\<rparr>)"
    by (simp add: one_master_def boot_process_def)
  from reach [OF this process_step.main [OF main_step.joined [of _ 1]]]
  have "process_reach transact t0 ((one_master ptr t0 ?w t st)\<lparr>running := False, main_pc := M_Close, joined := {0}, exchanging := 1\<rparr>)"
    by (simp add: one_master_def boot_process_def)
  from reach [OF this process_step.main [OF main_step.last]]
  have "process_reach transact t0 ((one_master ptr t0 ?w t st)\<lparr>running := False, main_pc := M_Exit 0, joined := {0}, exchanging := 1,
      lfd_closed := True, report := Some (report_of st), bus_report := map_option (\<lambda>p. snd (p t)) ptr\<rparr>)"
    by (simp add: one_master_def boot_process_def bus_report_of_def)
  then show ?thesis
    by (intro exI [of _ "(one_master ptr t0 ?w t st)\<lparr>running := False, main_pc := M_Exit 0, joined := {0}, exchanging := 1,
      lfd_closed := True, report := Some (report_of st), bus_report := map_option (\<lambda>p. snd (p t)) ptr\<rparr>"]) (simp add: one_master_def boot_process_def)
qed

section \<open>The streams of a master\<close>

text \<open>What a master that decodes its byte stream gets, and what the gateway gets from the master.\<close>

definition frames_in :: "u8 list \<Rightarrow> mbap_frame list" where
  "frames_in xs = fst (split_stream xs)"

lemma wire_frames: "list_all wf_frame fs \<Longrightarrow> frames_in (wire fs) = fs"
  using split_stream_encode by (simp add: frames_in_def wire_def)

lemma sent_frames:
  assumes "worker_ok w" and "list_all wf_frame (responses_of w)"
  shows "prefix (frames_in (w_out w)) (responses_of w)"
  using split_stream_prefix [OF assms(2) sent_prefix [OF assms(1)]] by (auto simp: frames_in_def)

lemma prefix_map_take: "prefix xs ys \<Longrightarrow> map g ys = map g zs \<Longrightarrow> map g xs = map g (take (length xs) zs)"
  by (auto simp: prefix_def) (metis append_eq_conv_conj length_map map_append take_map)

context addressed_transport
begin

lemma own_answers:
  assumes "process_reach transact t0 s" and "inv t0"
  shows "\<exists>got rest. split_stream (w_out (workers s i)) = (got, NeedMoreData, rest) \<and>
    length got \<le> length (frames_in (w_in (workers s i))) \<and>
    map transaction_id got = map transaction_id (take (length got) (frames_in (w_in (workers s i)))) \<and>
    map unit_id got = map unit_id (take (length got) (frames_in (w_in (workers s i))))"
proof -
  let ?w = "workers s i"
  have ok: "worker_ok ?w"
    using reach_workers_ok [OF assms(1)] by (simp add: workers_ok_def)
  note answers = worker_answers [OF assms, of i]
  obtain got rest where got: "split_stream (w_out ?w) = (got, NeedMoreData, rest)" "prefix got (responses_of ?w)"
    using split_stream_prefix [OF answers(1) sent_prefix [OF ok]] by blast
  have "prefix (requests_of ?w) (frames_in (w_in ?w))"
    using requests_in_stream [OF ok] by (simp add: frames_in_def)
  then have req: "take (length got) (frames_in (w_in ?w)) = take (length got) (requests_of ?w)"
    "length (requests_of ?w) \<le> length (frames_in (w_in ?w))"
    using prefix_length_le [OF got(2)] by (auto simp: prefix_def)
  then show ?thesis
    using got prefix_length_le [OF got(2)] prefix_map_take [OF got(2) answers(2)]
      prefix_map_take [OF got(2) answers(3)] by auto
qed

text \<open>
  The sequential run behind a state: its requests are, for each master, the first of the
  stream received from it, and what the master has received are the first of their responses.
\<close>

lemma process_sequential:
  assumes "process_reach transact t0 s" and "inv t0"
  obtains lg fs where "sequential transact t0 (map snd lg) = Some (fs, rtu s)" "list_all wf_frame (map snd lg)"
    "\<And>i. prefix (map (snd \<circ> fst) (of_client i (zip lg fs))) (frames_in (w_in (workers s i))) \<and>
      prefix (frames_in (w_out (workers s i))) (map snd (of_client i (zip lg fs)))"
proof -
  obtain ds lg where ref: "refines transact t0 s ds lg"
    using reach_refines [OF assms(1)] by blast
  then have "gw_reach transact t0 (gateway_view s ds lg)"
    by (simp add: refines_def)
  then obtain fs where lin: "linear transact t0 (gateway_view s ds lg) fs"
    by (elim gw_reach_linear [THEN exE])
  show thesis
  proof (rule that)
    show "sequential transact t0 (map snd lg) = Some (fs, rtu s)"
      using lin by (simp add: linear_def gateway_view_def)
    show "list_all wf_frame (map snd lg)"
      using ref by (auto simp: refines_def list_all_iff)
    fix i
    let ?w = "workers s i"
    have ok: "worker_ok ?w"
      using reach_workers_ok [OF assms(1)] by (simp add: workers_ok_def)
    have log: "of_client i (zip lg fs) = tagged i (w_answers ?w) @ pending i (thread_of (w_pc ?w))"
      using lin ref by (simp add: linear_def gateway_view_def refines_def)
    have tag: "map (snd \<circ> fst) (tagged i as) = map fst as" "map snd (tagged i as) = map snd as" for as
      by (simp_all add: tagged_def case_prod_beta)
    have "prefix (requests_of ?w @ map (snd \<circ> fst) (pending i (thread_of (w_pc ?w)))) (frames_in (w_in ?w))"
      using requests_in_stream [OF ok] current_in_stream [OF ok refl]
      by (cases "thread_of (w_pc ?w)") (auto simp: frames_in_def pending_def split: option.splits)
    moreover have "prefix (frames_in (w_out ?w)) (responses_of ?w @ map snd (pending i (thread_of (w_pc ?w))))"
      using sent_frames [OF ok worker_answers(1) [OF assms]] prefix_prefix by blast
    ultimately show "prefix (map (snd \<circ> fst) (of_client i (zip lg fs))) (frames_in (w_in ?w)) \<and>
        prefix (frames_in (w_out ?w)) (map snd (of_client i (zip lg fs)))"
      by (simp add: log tag)
  qed
qed

end

section \<open>Properties\<close>

text \<open>C1: Masters read only their own answers. In every state the running process can reach, with any
  number of connections, any interleaving of their threads, any segmentation and any failure of
  their sockets, the bytes a master has received decode to at most as many frames as it sent
  requests; the \<open>k\<close>-th of them carries the transaction id and the unit id of its \<open>k\<close>-th
  request, and no framing error is among them.\<close>

theorem master_reads_own_answers:
  assumes "addressed_transport transact legal" and "legal t0" and "process_reach transact t0 s"
  shows "\<exists>got rest. split_stream (w_out (workers s i)) = (got, NeedMoreData, rest) \<and>
    length got \<le> length (frames_in (w_in (workers s i))) \<and>
    map transaction_id got = map transaction_id (take (length got) (frames_in (w_in (workers s i)))) \<and>
    map unit_id got = map unit_id (take (length got) (frames_in (w_in (workers s i))))"
  by (rule addressed_transport.own_answers [OF assms(1,3,2)])

theorem master_reads_own_answers_witness:
  "\<exists>s got rest. process_reach (in_process_transact (\<lambda>_. 0)) demo_bus s \<and>
    w_in (workers s 0) = encode demo_request \<and> split_stream (w_out (workers s 0)) = (got, NeedMoreData, rest) \<and>
    map transaction_id got = take (length got) [7] \<and> map unit_id got = take (length got) [17]"
proof -
  obtain f t st where r: "process_reach (in_process_transact (\<lambda>_. 0)) demo_bus (one_master None demo_bus (answered_worker demo_request f) t st)"
    using inproc.reach_answered [OF demo_bus_ok(1) demo_request_ok(3)] by blast
  have "frames_in (encode demo_request) = [demo_request]"
    using wire_frames [of "[demo_request]"] by simp
  then show ?thesis
    using master_reads_own_answers [OF inproc.addressed_transport_axioms demo_bus_ok(1) r, of 0] r
    by (intro exI [of _ "one_master None demo_bus (answered_worker demo_request f) t st"])
      (auto simp: answered_worker_def simp flip: take_map)
qed

text \<open>C3: The whole process is linearizable. In every reachable state over the in-process backend there
  is one order of the requests that reached the bus in which the abstract bus, run sequentially
  from the initial registers, gives the current registers; the requests of each master in this
  order are the first frames of its byte stream, and the frames it has received are the first of
  the bus's responses to them.\<close>

theorem process_linearizable:
  assumes "in_process_wf t0" and "distinct (map addr (slaves t0))"
    and "process_reach (in_process_transact garbage) t0 s"
  shows "\<exists>log. case bus_run (bus_of (slaves t0)) (map snd log) of (rsps, bus_now) \<Rightarrow>
    bus_of (slaves (rtu s)) = bus_now \<and>
    (\<forall>i. prefix (map (snd \<circ> fst) (of_client i (zip log rsps))) (frames_in (w_in (workers s i))) \<and>
      prefix (frames_in (w_out (workers s i))) (map snd (of_client i (zip log rsps))))"
proof -
  obtain lg fs where lin: "sequential (in_process_transact garbage) t0 (map snd lg) = Some (fs, rtu s)"
    "list_all wf_frame (map snd lg)"
    "\<And>i. prefix (map (snd \<circ> fst) (of_client i (zip lg fs))) (frames_in (w_in (workers s i))) \<and>
      prefix (frames_in (w_out (workers s i))) (map snd (of_client i (zip lg fs)))"
    using inproc.process_sequential [OF assms(3,1)] by blast
  then show ?thesis
    using sequential_bus_run [OF assms(1,2) lin(2,1)]
    by (intro exI [of _ lg]) (simp add: split_beta)
qed

theorem process_linearizable_witness:
  "\<exists>s log. process_reach (in_process_transact (\<lambda>_. 0)) demo_bus s \<and> w_in (workers s 0) = encode demo_request \<and>
    bus_of (slaves (rtu s)) = snd (bus_run (bus_of (slaves demo_bus)) (map snd log)) \<and>
    prefix (map (snd \<circ> fst) (of_client 0 (zip log (fst (bus_run (bus_of (slaves demo_bus)) (map snd log))))))
      (frames_in (encode demo_request))"
proof -
  obtain f t st where r: "process_reach (in_process_transact (\<lambda>_. 0)) demo_bus (one_master None demo_bus (answered_worker demo_request f) t st)"
    using inproc.reach_answered [OF demo_bus_ok(1) demo_request_ok(3)] by blast
  let ?s = "one_master None demo_bus (answered_worker demo_request f) t st"
  have "w_in (workers ?s 0) = encode demo_request"
    by (simp add: answered_worker_def)
  moreover obtain log where "bus_of (slaves (rtu ?s)) = snd (bus_run (bus_of (slaves demo_bus)) (map snd log))"
    "prefix (map (snd \<circ> fst) (of_client 0 (zip log (fst (bus_run (bus_of (slaves demo_bus)) (map snd log))))))
      (frames_in (w_in (workers ?s 0)))"
    using process_linearizable [OF demo_bus_ok r] unfolding split_beta by blast
  ultimately show ?thesis
    using r by (intro exI [of _ ?s] exI [of _ log]) simp
qed

text \<open>C19: The counters and the final report are exact. In every reachable state, over any transport,
  \<open>requests\<close> is the number of answered requests of all connections plus those in progress,
  \<open>responses + timeouts + crc_failures\<close> is the number of answered requests, \<open>malformed\<close> is
  the number of connections closed for a framing error (all modulo \<open>2^64\<close>), and \<open>bad_unit\<close>
  stays 0. Once \<open>main\<close> has returned, nothing is in progress, and what it printed are these numbers.\<close>

theorem process_counters_exact:
  assumes "process_reach transact t0 s"
  shows "requests (counters s) = of_nat (answered s + card (in_progress s)) \<and>
    responses (counters s) + timeouts (counters s) + crc_failures (counters s) = of_nat (answered s) \<and>
    malformed (counters s) = of_nat (card (framing_closed s)) \<and> bad_unit (counters s) = 0 \<and>
    (main_pc s = M_Exit 0 \<longrightarrow> in_progress s = {} \<and>
      report s = Some [of_nat (answered s), responses (counters s), timeouts (counters s),
        crc_failures (counters s), of_nat (card (framing_closed s))])"
proof -
  note counters = reach_counters [OF assms] reach_malformed [OF assms]
  have "in_progress s = {} \<and> report s = Some (report_of (counters s))" if exit: "main_pc s = M_Exit 0"
  proof -
    have all: "\<forall>j<accepted s. returned (workers s j)" "report s = Some (report_of (counters s))"
      using reach_listener_main_ok [OF assms] exit by (auto simp: main_ok_def)
    have "thread_of (w_pc (workers s i)) = Idle" for i
      using all(1) started [OF reach_workers_ok [OF assms], of i]
      by (cases "w_pc (workers s i)") (auto simp: returned_def)
    then show ?thesis using all(2) by (simp add: in_progress_def)
  qed
  with counters show ?thesis
    by (simp add: report_of_def)
qed

theorem process_counters_exact_witness:
  "\<exists>s. process_reach (in_process_transact (\<lambda>_. 0)) demo_bus s \<and> answered s = 1 \<and>
    requests (counters s) = 1 \<and> report s = Some [1, responses (counters s), timeouts (counters s),
      crc_failures (counters s), of_nat (card (framing_closed s))]"
proof -
  obtain f t st where "process_reach (in_process_transact (\<lambda>_. 0)) demo_bus (one_master None demo_bus (answered_worker demo_request f) t st)"
    using inproc.reach_answered [OF demo_bus_ok(1) demo_request_ok(3)] by blast
  then obtain s where s: "process_reach (in_process_transact (\<lambda>_. 0)) demo_bus s" "main_pc s = M_Exit 0" "accepted s = 1"
    "workers s 0 = (answered_worker demo_request f)\<lparr>w_pc := Returned Peer_closed\<rparr>"
    using reach_exit by metis
  then have "answered s = 1"
    by (simp add: answered_def answered_worker_def)
  then show ?thesis
    using process_counters_exact [OF s(1)] s(1,2)
    by (intro exI [of _ s]) simp
qed

text \<open>C13: Shutdown is graceful. When \<open>main\<close> returns 0, \<open>g_running\<close> is false and every connection
  thread has returned and closed its socket. A master whose connection was not cut short by a
  failing \<open>send\<close> has been sent exactly one response, with matching ids, to each complete request in the
  bytes that \<open>recv\<close> has returned to its thread, and nothing else. (What still lies in the socket
  when the thread finds \<open>g_running\<close> false is never read.)\<close>

theorem graceful_exit:
  assumes "addressed_transport transact legal" and "legal t0" and "process_reach transact t0 s"
    and "main_pc s = M_Exit 0" and "i < accepted s"
  shows "\<not> running s \<and> (\<exists>why. w_pc (workers s i) = Returned why \<and>
    (why \<noteq> Send_failed \<longrightarrow>
      (\<exists>got. split_stream (w_out (workers s i)) = (got, NeedMoreData, []) \<and>
        map transaction_id got = map transaction_id (frames_in (w_in (workers s i))) \<and>
        map unit_id got = map unit_id (frames_in (w_in (workers s i))))))"
proof -
  let ?w = "workers s i"
  have ok: "worker_ok ?w"
    using reach_workers_ok [OF assms(3)] by (simp add: workers_ok_def)
  obtain why where why: "w_pc ?w = Returned why" "\<not> running s"
    using reach_listener_main_ok [OF assms(3)] assms(4,5) by (auto simp: main_ok_def returned_def)
  note answers = addressed_transport.worker_answers [OF assms(1,3,2), of i]
  show ?thesis
    using why returned_complete [OF ok why(1)] answers split_stream_encode [OF answers(1)]
    by (auto simp: frames_in_def wire_def)
qed

theorem graceful_exit_witness:
  "\<exists>s got. process_reach (in_process_transact (\<lambda>_. 0)) demo_bus s \<and> main_pc s = M_Exit 0 \<and>
    split_stream (w_out (workers s 0)) = (got, NeedMoreData, []) \<and> map transaction_id got = [7]"
proof -
  obtain f t st where "process_reach (in_process_transact (\<lambda>_. 0)) demo_bus (one_master None demo_bus (answered_worker demo_request f) t st)"
    using inproc.reach_answered [OF demo_bus_ok(1) demo_request_ok(3)] by blast
  then obtain s where s: "process_reach (in_process_transact (\<lambda>_. 0)) demo_bus s" "main_pc s = M_Exit 0" "accepted s = 1"
    "workers s 0 = (answered_worker demo_request f)\<lparr>w_pc := Returned Peer_closed\<rparr>"
    using reach_exit by metis
  moreover have "frames_in (encode demo_request) = [demo_request]"
    using wire_frames [of "[demo_request]"] by simp
  ultimately show ?thesis
    using graceful_exit [OF inproc.addressed_transport_axioms demo_bus_ok(1) s(1,2), of 0]
    by (intro exI [of _ s]) (auto simp: answered_worker_def)
qed

text \<open>C20: Every state is well-formed. In every reachable state over an addressed transport the
  transport's invariant holds; each connection buffers fewer than 1284 bytes, and fewer than 260
  when it waits for data; every request handled and every response is a well-formed frame; the
  request being answered is at the front of the buffer, and the response being sent fits one
  ADU.\<close>

theorem process_state_well_formed:
  assumes "addressed_transport transact legal" and "legal t0" and "process_reach transact t0 s"
  shows "legal (rtu s) \<and> length (w_buf (workers s i)) < MAX_TCP_ADU + 1024 \<and>
    list_all (\<lambda>(req, rsp). wf_frame req \<and> wf_frame rsp) (w_answers (workers s i)) \<and>
    (case w_pc (workers s i) of
       At_recv \<Rightarrow> length (w_buf (workers s i)) < MAX_TCP_ADU
     | In_handle n p \<Rightarrow> \<exists>req. current p = Some req \<and> wf_frame req \<and> encode req = take n (w_buf (workers s i))
     | At_send n out k \<Rightarrow> n \<le> length (w_buf (workers s i)) \<and> k \<le> length out \<and> length out \<le> MAX_TCP_ADU
     | _ \<Rightarrow> True)"
proof -
  let ?w = "workers s i"
  have ok: "worker_ok ?w"
    using reach_workers_ok [OF assms(3)] by (simp add: workers_ok_def)
  have req: "list_all wf_frame (requests_of ?w)" "length (w_buf ?w) < MAX_TCP_ADU + 1024"
    using ok by (simp_all only: worker_ok_def)
  have rsp: "list_all wf_frame (responses_of ?w)"
    by (rule addressed_transport.worker_answers [OF assms(1,3,2)])
  have "legal (rtu s)"
    using rtu_transport.reach_legal [OF addressed_transport.axioms(1) [OF assms(1)] assms(3,2)] .
  moreover have "list_all (\<lambda>(req, rsp). wf_frame req \<and> wf_frame rsp) (w_answers ?w)"
    using req(1) rsp by (auto simp: list_all_iff)
  moreover have "case w_pc ?w of At_recv \<Rightarrow> length (w_buf ?w) < MAX_TCP_ADU
     | In_handle n p \<Rightarrow> \<exists>req. current p = Some req \<and> wf_frame req \<and> encode req = take n (w_buf ?w)
     | At_send n out k \<Rightarrow> n \<le> length (w_buf ?w) \<and> k \<le> length out \<and> length out \<le> MAX_TCP_ADU
     | _ \<Rightarrow> True"
  proof (cases "w_pc ?w")
    case At_recv
    then show ?thesis using ok parse_More_bound by (simp add: worker_ok_def)
  next
    case (In_handle n p)
    then obtain q rest where "current p = Some q" "wf_frame q" "w_buf ?w = encode q @ rest" "n = length (encode q)"
      using ok by (auto simp: worker_ok_def)
    then show ?thesis using In_handle by (simp del: length_encode)
  next
    case (At_send n out k)
    then obtain before q f rest where a: "w_answers ?w = before @ [(q, f)]" "w_buf ?w = encode q @ rest"
      "n = length (encode q)" "out = encode f" "k \<le> length out"
      using ok by (auto simp: worker_ok_def)
    then have "wf_frame f" using rsp by simp
    then have "length out \<le> MAX_TCP_ADU"
      using a(4) by (simp add: wf_frame_def mbap_consts)
    with a At_send show ?thesis by simp
  qed simp_all
  ultimately show ?thesis
    using req(2) by blast
qed

theorem process_state_well_formed_witness:
  "\<exists>s. process_reach (in_process_transact (\<lambda>_. 0)) demo_bus s \<and> w_pc (workers s 0) = At_recv \<and>
    in_process_wf (rtu s) \<and> length (w_buf (workers s 0)) < 260"
proof -
  obtain f t st where r: "process_reach (in_process_transact (\<lambda>_. 0)) demo_bus (one_master None demo_bus (answered_worker demo_request f) t st)"
    using inproc.reach_answered [OF demo_bus_ok(1) demo_request_ok(3)] by blast
  have "w_pc (workers (one_master None demo_bus (answered_worker demo_request f) t st) 0) = At_recv"
    by (simp add: answered_worker_def)
  then show ?thesis
    using process_state_well_formed [OF inproc.addressed_transport_axioms demo_bus_ok(1) r, of 0] r
    by (intro exI [of _ "one_master None demo_bus (answered_worker demo_request f) t st"]) (simp add: mbap_consts)
qed

end
