(* ===== verification/Shutdown.thy ===== *)
theory Shutdown
  imports End_To_End
begin

text \<open>
  The end of the process: the hand-over of the listener between \<open>main\<close> and the signal handler,
  what is still accepted after a signal, and the termination of the shutdown. A rank of the
  whole process, built from the ranks of its threads, decreases with every step that is not the
  delivery of a signal once \<open>g_running\<close> is false.
\<close>

section \<open>The rank of the process\<close>

fun main_rank :: "'t process \<Rightarrow> nat \<times> nat" where
  "main_rank s = (case main_pc s of
     M_Socket \<Rightarrow> (12, 0)
   | M_Bind \<Rightarrow> (11, 0)
   | M_Listen \<Rightarrow> (10, 0)
   | M_Publish \<Rightarrow> (9, 0)
   | M_Accept \<Rightarrow> (8, 0)
   | M_Accepted cfd \<Rightarrow> (7, 0)
   | M_Dump cfd got \<Rightarrow> (6, card {k. k < 5 \<and> got k = None})
   | M_Bus_Dump cfd got \<Rightarrow> (5, card {k. k < 6 \<and> got k = None})
   | M_Result cfd \<Rightarrow> (4, 0)
   | M_Test \<Rightarrow> (3, 0)
   | M_Join k \<Rightarrow> (2, accepted s - k)
   | M_Close \<Rightarrow> (1, 0)
   | M_Exit n \<Rightarrow> (0, 0)
   | M_Abort \<Rightarrow> (0, 0))"

definition workers_rank :: "'t process \<Rightarrow> (nat \<times> nat \<times> nat) multiset" where
  "workers_rank s = image_mset (\<lambda>i. worker_rank (workers s i)) (mset_set {..<accepted s})"

definition process_rank :: "'t process \<Rightarrow> (nat \<times> nat) \<times> (nat \<times> nat \<times> nat) multiset \<times> nat" where
  "process_rank s = (main_rank s, workers_rank s, 2 * exchanging s + shutting s)"

definition process_less :: "(((nat \<times> nat) \<times> (nat \<times> nat \<times> nat) multiset \<times> nat) \<times>
    ((nat \<times> nat) \<times> (nat \<times> nat \<times> nat) multiset \<times> nat)) set" where
  "process_less = (less_than <*lex*> less_than) <*lex*> mult rank_less <*lex*> less_than"

lemma wf_process_less: "wf process_less"
  unfolding process_less_def by (intro wf_lex_prod wf_mult wf_rank_less wf_less_than)

lemma workers_rank_update:
  assumes "i < accepted s" and "(worker_rank w, worker_rank (workers s i)) \<in> rank_less"
  shows "(image_mset (\<lambda>j. worker_rank (((workers s)(i := w)) j)) (mset_set {..<accepted s}),
    workers_rank s) \<in> mult rank_less"
proof -
  let ?rest = "image_mset (\<lambda>j. worker_rank (workers s j)) (mset_set ({..<accepted s} - {i}))"
  have at_i: "mset_set {..<accepted s} = add_mset i (mset_set ({..<accepted s} - {i}))"
    using assms(1) by (simp add: mset_set.remove)
  have "image_mset (\<lambda>j. worker_rank (((workers s)(i := w)) j)) (mset_set ({..<accepted s} - {i})) = ?rest"
    by (rule image_mset_cong) auto
  then have "image_mset (\<lambda>j. worker_rank (((workers s)(i := w)) j)) (mset_set {..<accepted s})
      = add_mset (worker_rank w) ?rest"
    by (simp add: at_i del: worker_rank.simps)
  moreover have "workers_rank s = add_mset (worker_rank (workers s i)) ?rest"
    by (simp add: workers_rank_def at_i del: worker_rank.simps)
  ultimately show ?thesis
    using assms(2) one_step_implies_mult [of "{#worker_rank (workers s i)#}" "{#worker_rank w#}" rank_less ?rest]
    by (simp del: worker_rank.simps)
qed

lemma process_step_rank:
  assumes "process_step transact a s s'" and "a \<noteq> Signal" and "\<not> running s" and "workers_ok s"
  shows "(process_rank s', process_rank s) \<in> process_less"
  using assms(1)
proof cases
  case prepare
  from prepare(2) show ?thesis
    by cases (auto simp: process_rank_def process_less_def)
next
  case accepts
  from accepts(2) show ?thesis
    by cases (auto simp: process_rank_def process_less_def)
next
  case main
  have fewer: "card {j. j < n \<and> (got(k \<mapsto> v)) j = None} < card {j. j < n \<and> got j = None}"
    if "k < n" "got k = None" for n k :: nat and got v
    by (rule psubset_card_mono) (use that in auto)
  from main(2) assms(3) show ?thesis
    by cases (auto simp: process_rank_def process_less_def fewer simp del: fun_upd_apply)
next
  case (worker i w t st)
  then have "i < accepted s"
    using started [OF assms(4)] worker_step_pc [OF worker(3)] by simp
  moreover have "(worker_rank w, worker_rank (workers s i)) \<in> rank_less"
    using worker(3) assms(3,4) worker_step_rank by (fastforce simp: workers_ok_def simp del: worker_rank.simps)
  ultimately have "(workers_rank s', workers_rank s) \<in> mult rank_less"
    using workers_rank_update [of i s w] worker(2) by (simp add: workers_rank_def del: worker_rank.simps fun_upd_apply)
  moreover have "main_rank s' = main_rank s"
    by (simp add: worker(2) split: main_pc.split)
  ultimately show ?thesis
    by (simp add: process_rank_def process_less_def del: main_rank.simps)
next
  case (socket i w)
  then have "i < accepted s"
    using started [OF assms(4)] socket_step_pc [OF socket(3)] by simp
  moreover have "(worker_rank w, worker_rank (workers s i)) \<in> rank_less"
    using socket(3) assms(4) socket_step_rank by (fastforce simp: workers_ok_def simp del: worker_rank.simps)
  ultimately have "(workers_rank s', workers_rank s) \<in> mult rank_less"
    using workers_rank_update [of i s w] socket(2) by (simp add: workers_rank_def del: worker_rank.simps fun_upd_apply)
  moreover have "main_rank s' = main_rank s"
    by (simp add: socket(2) split: main_pc.split)
  ultimately show ?thesis
    by (simp add: process_rank_def process_less_def del: main_rank.simps)
next
  case handler
  from handler(2) have "main_rank s' = main_rank s" "workers_rank s' = workers_rank s"
    by (cases; auto simp: workers_rank_def split: main_pc.split)+
  moreover from handler(2) have "2 * exchanging s' + shutting s' < 2 * exchanging s + shutting s"
    by cases auto
  ultimately show ?thesis
    by (simp add: process_rank_def process_less_def del: main_rank.simps)
qed (use assms(2) in simp)

section \<open>Runs\<close>

text \<open>The runs in which only the given actors step.\<close>

definition runs :: "'t transact \<Rightarrow> actor set \<Rightarrow> 't process \<Rightarrow> 't process \<Rightarrow> bool" where
  "runs transact A = (\<lambda>s s'. \<exists>a \<in> A. process_step transact a s s')\<^sup>*\<^sup>*"

lemma runs_induct [consumes 1, case_names refl step]:
  assumes "runs transact A s s'" and "P s"
    and "\<And>u a v. P u \<Longrightarrow> a \<in> A \<Longrightarrow> process_step transact a u v \<Longrightarrow> P v"
  shows "P s'"
  using assms(1) unfolding runs_def
  by (induction rule: rtranclp_induct) (use assms(2,3) in blast)+

lemma runs_step: "a \<in> A \<Longrightarrow> process_step transact a s s' \<Longrightarrow> runs transact A s s'"
  unfolding runs_def by blast

lemma not_running_step: "process_step transact a s s' \<Longrightarrow> \<not> running s \<Longrightarrow> \<not> running s'"
  by (auto elim!: process_step.cases step_cases)

text \<open>The connections accepted, with one that \<open>accept\<close> has returned or may still return.\<close>

fun offered :: "main_pc \<Rightarrow> nat" where
  "offered M_Accept = 1"
| "offered (M_Accepted cfd) = (if 0 \<le> cfd then 1 else 0)"
| "offered (M_Dump cfd got) = (if 0 \<le> cfd then 1 else 0)"
| "offered (M_Bus_Dump cfd got) = (if 0 \<le> cfd then 1 else 0)"
| "offered (M_Result cfd) = (if 0 \<le> cfd then 1 else 0)"
| "offered _ = 0"

lemma offered_le: "offered p \<le> 1"
  by (cases p) auto

lemma connecting_step:
  assumes "process_step transact a s s'" and "\<not> running s"
  shows "accepted s' + offered (main_pc s') \<le> accepted s + offered (main_pc s)"
  using assms(1)
proof cases
  case prepare
  from prepare(2) show ?thesis by cases auto
next
  case accepts
  from accepts(2) show ?thesis by cases auto
next
  case main
  from main(2) assms(2) show ?thesis by cases auto
next
  case handler
  from handler(2) show ?thesis by cases auto
next
  case signal
  from signal(2) show ?thesis by cases auto
qed auto

lemma listening_step:
  assumes "process_step transact a s s'" and "w_pc (workers s i) = At_recv" and "a \<noteq> Socket_returns i"
    and "workers_ok s"
  shows "w_pc (workers s' i) = At_recv"
  using assms(1)
proof cases
  case (worker j w t st)
  then have "j \<noteq> i" using assms(2) by (auto elim: worker_stepE)
  then show ?thesis using worker assms(2) by simp
next
  case (socket j w)
  then show ?thesis using assms(2,3) by auto
next
  case main
  have "accepted s \<noteq> i"
    using assms(2,4) unfolding workers_ok_def by (metis le_refl worker_pc.distinct(3))
  then show ?thesis using main assms(2) by (auto elim!: main_stepE)
qed (use quiet_step [OF assms(1)] assms(2) in auto)

text \<open>A master that connects and hangs up at once.\<close>

lemma short_connection:
  assumes "process_reach transact t0 s" and "main_pc s = M_Test" and "running s" and "shutdowns s = 0"
    and "\<not> dump_stats s"
  shows "process_reach transact t0 (s\<lparr>workers := (workers s)(accepted s := start_worker\<lparr>w_pc := Returned Peer_closed\<rparr>),
    accepted := accepted s + 1\<rparr>)"
proof -
  note reach = reach_step [of transact t0]
  let ?with = "\<lambda>w. s\<lparr>main_pc := M_Test, accepted := accepted s + 1, workers := (workers s)(accepted s := w)\<rparr>"
  from reach [OF assms(1) process_step.main [OF main_step.test_run]] assms(2,3)
  have "process_reach transact t0 (s\<lparr>main_pc := M_Accept\<rparr>)" by simp
  from reach [OF this process_step.accepts [OF accept_step.accept_conn [of _ 0]]] assms(4)
  have "process_reach transact t0 (s\<lparr>main_pc := M_Accepted 0\<rparr>)" by simp
  from reach [OF this process_step.main [OF main_step.no_dump [of _ 0]]] assms(5)
  have "process_reach transact t0 (s\<lparr>main_pc := M_Result 0\<rparr>)" by simp
  from reach [OF this process_step.main [OF main_step.spawn [of _ 0]]]
  have "process_reach transact t0 (?with start_worker)" by (cases s) simp
  from reach [OF this process_step.worker [of transact _ "accepted s", OF worker_step.enter]] assms(3)
  have "process_reach transact t0 (?with (start_worker\<lparr>w_pc := At_recv\<rparr>))"
    by (simp add: start_worker_def)
  from reach [OF this process_step.socket [of _ "accepted s", OF socket_step.recv_end]]
  have "process_reach transact t0 (?with (start_worker\<lparr>w_pc := Returned Peer_closed\<rparr>))"
    by simp
  then show ?thesis
    using assms(2) by (cases s) simp
qed

text \<open>Once the handlers are through, \<open>main\<close> is never stuck outside its joins.\<close>

lemma handlers_done:
  assumes "\<And>s'. \<not> handler_step s s'"
  shows "exchanging s = 0 \<and> shutting s = 0"
  using assms handler_step.take_fd [of s] handler_step.no_fd [of s] handler_step.shut [of s]
  by (meson neq0_conv not_less)

lemma loaded: "(\<exists>k<n. got k = None) \<or> (\<exists>vals. map got [0..<n] = map Some vals)"
proof (cases "\<exists>k<n. got k = None")
  case False
  then have "map got [0..<n] = map Some (map (the \<circ> got) [0..<n])"
    by auto
  then show ?thesis by blast
qed simp

lemma main_can_step:
  assumes "listener_ok s" and "main_ok s" and "exchanging s = 0 \<and> shutting s = 0" and "\<not> ended (main_pc s)"
  shows "(\<exists>s'. main_step s s' \<or> setup_step s s') \<or> (\<exists>k. main_pc s = M_Join k) \<or> (main_pc s = M_Accept \<and> running s)"
proof (cases "main_pc s")
  case M_Accept
  then have "running s \<or> 0 < shutdowns s"
    using assms by (auto simp: listener_ok_def main_ok_def)
  then show ?thesis using main_step.accept_shut [OF M_Accept] M_Accept by blast
next
  case (M_Result cfd)
  then show ?thesis
    using main_step.leave [OF M_Result] main_step.resume [OF M_Result] main_step.spawn [OF M_Result] by (meson not_less)
next
  case (M_Accepted cfd)
  then show ?thesis using main_step.dump [OF M_Accepted] main_step.no_dump [OF M_Accepted] by blast
next
  case (M_Dump cfd got)
  from loaded [of 5 got] show ?thesis
    using main_step.load [OF M_Dump] main_step.print [OF M_Dump] by blast
next
  case (M_Bus_Dump cfd got)
  moreover from this obtain ptr where "serial_ptr s = Some ptr"
    using assms(2) by (auto simp: main_ok_def)
  ultimately show ?thesis
    using loaded [of 6 got] main_step.load_bus [OF M_Bus_Dump] main_step.print_bus [OF M_Bus_Dump] by blast
next
  case M_Socket
  then show ?thesis using setup_step.socket_fail by blast
next
  case M_Bind
  then show ?thesis using setup_step.bind_ok by blast
next
  case M_Listen
  then show ?thesis using setup_step.listen_ok by blast
next
  case M_Publish
  then show ?thesis using setup_step.publish by blast
next
  case M_Test
  then show ?thesis using main_step.test_stop main_step.test_run by blast
next
  case M_Close
  then show ?thesis using main_step.last by blast
qed (use assms(4) in simp_all)

text \<open>When neither \<open>main\<close> nor a handler can step, \<open>main\<close> waits for a thread or for a connection.\<close>

lemma stuck_in_join:
  assumes "listener_ok s" "main_ok s" "workers_ok s" and "\<not> ended (main_pc s)"
    and "\<And>s'. \<not> main_step s s'" and "\<And>s'. \<not> setup_step s s'" and "\<And>s'. \<not> handler_step s s'"
    and "\<not> (main_pc s = M_Accept \<and> running s)"
  obtains k where "worker_ok (workers s k)" "w_pc (workers s k) \<noteq> Absent" "\<nexists>why. w_pc (workers s k) = Returned why"
proof -
  obtain k where k: "main_pc s = M_Join k" "k < accepted s"
    using main_can_step [OF assms(1,2) handlers_done assms(4)] assms(5-8) main_step.joined [of s] by metis
  show thesis
  proof (rule that)
    show "worker_ok (workers s k)" "w_pc (workers s k) \<noteq> Absent"
      using assms(3) k(2) by (auto simp: workers_ok_def)
    show "\<nexists>why. w_pc (workers s k) = Returned why"
      using assms(5) main_step.join [OF k] by blast
  qed
qed

section \<open>Properties\<close>

text \<open>Shutdown terminates. Once \<open>g_running\<close> is false, over any transport, there is no infinite
  run of the process in which no further signal is delivered: whatever the scheduler, the masters
  and their sockets do, the accept loop, every connection thread and the signal handlers come to
  an end after finitely many steps.\<close>

theorem shutdown_terminates:
  "wf {(s', s). process_reach transact t0 s \<and> \<not> running s \<and> (\<exists>a. a \<noteq> Signal \<and> process_step transact a s s')}"
proof (rule wf_subset)
  show "wf (inv_image process_less process_rank)"
    by (rule wf_inv_image [OF wf_process_less])
  show "{(s', s). process_reach transact t0 s \<and> \<not> running s \<and> (\<exists>a. a \<noteq> Signal \<and> process_step transact a s s')}
      \<subseteq> inv_image process_less process_rank"
  proof clarify
    fix s' s a
    assume "process_reach transact t0 s" "\<not> running s" "a \<noteq> Signal" "process_step transact a s s'"
    then have "(process_rank s', process_rank s) \<in> process_less"
      using process_step_rank [of transact a s s'] reach_workers_ok [of transact t0 s] by simp
    then show "(s', s) \<in> inv_image process_less process_rank"
      by (simp add: inv_image_def)
  qed
qed

text \<open>Shutdown waits for nothing but the masters. In every reachable state in which \<open>g_running\<close> is
  false and \<open>main\<close> has not returned, \<open>main\<close>, a signal handler or a connection thread can take
  its next step, or some thread is in \<open>recv\<close> or \<open>send\<close> on its socket. In particular \<open>main\<close> is
  not left behind in \<open>accept\<close>.\<close>

theorem shutdown_waits_only_for_masters:
  assumes "rtu_transport transact legal" and "legal t0" and "process_reach transact t0 s"
    and "\<not> running s" and "\<not> ended (main_pc s)"
  shows "(\<exists>a s'. a \<in> {Setup, Main, Handler} \<union> range Worker \<and> process_step transact a s s') \<or>
    (\<exists>i. w_pc (workers s i) = At_recv \<or>
      (\<exists>n out k. w_pc (workers s i) = At_send n out k \<and> k < length out))"
proof (rule ccontr)
  assume stuck: "\<not> ?thesis"
  then have quiet: "\<not> process_step transact a s s'" if "a \<in> {Setup, Main, Handler} \<union> range Worker" for a s'
    using that by blast
  have no_main: "\<not> main_step s s'" and no_setup: "\<not> setup_step s s'" and no_handler: "\<not> handler_step s s'" for s'
    using quiet [of Main s'] process_step.main [of s s' transact] quiet [of Setup s'] process_step.prepare [of s s' transact]
      quiet [of Handler s'] process_step.handler [of s s' transact] assms(5) by auto
  have ok: "listener_ok s" "main_ok s" "workers_ok s"
    using reach_listener_main_ok [OF assms(3)] reach_workers_ok [OF assms(3)] by auto
  obtain k where k: "worker_ok (workers s k)" "w_pc (workers s k) \<noteq> Absent" "\<nexists>why. w_pc (workers s k) = Returned why"
    using stuck_in_join [OF ok assms(5) no_main no_setup no_handler] assms(4) by metis
  have "w_pc (workers s k) \<noteq> At_recv" and "\<nexists>n out m. w_pc (workers s k) = At_send n out m \<and> m < length out"
    using stuck by simp_all
  then obtain w t st where "worker_step transact (running s) (workers s k, rtu s, counters s) (w, t, st)"
    using rtu_transport.worker_can_step [OF assms(1) k(1) rtu_transport.reach_legal [OF assms(1,3,2)],
      of "running s" "counters s"] k(2,3) by auto
  from process_step.worker [OF this assms(5)] quiet show False by blast
qed

text \<open>A state between signal and exit: the master of the example is in \<open>recv\<close>.\<close>

lemma reach_signalled:
  assumes "process_reach transact t0 (one_master ptr t0 w t st)"
  shows "process_reach transact t0 ((one_master ptr t0 w t st)\<lparr>running := False, exchanging := 1\<rparr>)"
  using reach_step [OF assms process_step.signal [OF signal_step.on_signal [of SIGTERM]]] by simp

theorem shutdown_waits_only_for_masters_witness:
  "\<exists>s. process_reach (in_process_transact (\<lambda>_. 0)) demo_bus s \<and> \<not> running s \<and> main_pc s = M_Test \<and>
    ((\<exists>a s'. a \<in> {Setup, Main, Handler} \<union> range Worker \<and> process_step (in_process_transact (\<lambda>_. 0)) a s s') \<or>
    (\<exists>i. w_pc (workers s i) = At_recv \<or>
      (\<exists>n out k. w_pc (workers s i) = At_send n out k \<and> k < length out)))"
proof -
  let ?s = "(one_master None demo_bus start_worker demo_bus zero_stats)\<lparr>running := False, exchanging := 1\<rparr>"
  have s: "process_reach (in_process_transact (\<lambda>_. 0)) demo_bus ?s" "\<not> running ?s" "main_pc ?s = M_Test"
    using reach_signalled [OF reach_one_master] by simp_all
  moreover have "\<not> ended (main_pc ?s)" by simp
  ultimately show ?thesis
    using shutdown_waits_only_for_masters [OF inproc.rtu_transport_axioms demo_bus_ok(1) s(1,2)] by blast
qed

text \<open>C31: An idle master keeps the process alive. While a connection thread is in \<open>recv\<close> and the peer
  neither sends nor closes, \<open>main\<close> does not return, whatever signals are delivered and whatever
  all other threads do: \<open>g_running\<close> is not looked at inside \<open>recv\<close>, and nothing shuts the
  connections down.\<close>

theorem idle_master_blocks_exit:
  assumes "process_reach transact t0 s" and "w_pc (workers s i) = At_recv"
    and "runs transact (- {Socket_returns i}) s s'"
  shows "w_pc (workers s' i) = At_recv \<and> main_pc s' \<noteq> M_Exit 0"
proof -
  from assms(3) have s': "process_reach transact t0 s' \<and> w_pc (workers s' i) = At_recv"
  proof (induction rule: runs_induct)
    case (step u a v)
    then have u: "process_reach transact t0 u" "w_pc (workers u i) = At_recv" "a \<noteq> Socket_returns i" by auto
    then show ?case
      using reach_step [OF u(1) step(3)] listening_step [OF step(3) u(2,3) reach_workers_ok [OF u(1)]] by simp
  qed (use assms(1,2) in simp)
  then have "i < accepted s'"
    using started [OF reach_workers_ok] by (metis worker_pc.distinct(3))
  then show ?thesis
    using s' reach_listener_main_ok [of transact t0 s'] by (fastforce simp: main_ok_def returned_def)
qed

theorem idle_master_blocks_exit_witness:
  "\<exists>s s'. process_reach (in_process_transact (\<lambda>_. 0)) demo_bus s \<and> \<not> running s' \<and>
    runs (in_process_transact (\<lambda>_. 0)) (- {Socket_returns 0}) s s' \<and>
    w_pc (workers s' 0) = At_recv \<and> main_pc s' \<noteq> M_Exit 0"
proof -
  let ?w = "start_worker\<lparr>w_pc := At_recv\<rparr>"
  let ?s = "one_master None demo_bus ?w demo_bus zero_stats"
  have "w_pc start_worker = At_loop" by (simp add: start_worker_def)
  then have s: "process_reach (in_process_transact (\<lambda>_. 0)) demo_bus ?s"
    by (rule one_master_worker [OF reach_one_master worker_step.enter]) simp
  have run: "runs (in_process_transact (\<lambda>_. 0)) (- {Socket_returns 0}) ?s (?s\<lparr>running := False, exchanging := exchanging ?s + 1\<rparr>)"
    by (rule runs_step [OF _ process_step.signal [OF signal_step.on_signal [of SIGTERM]]]) simp_all
  have "w_pc (workers ?s 0) = At_recv" by simp
  from idle_master_blocks_exit [OF s this run] s run show ?thesis
    by (intro exI [of _ ?s] exI [of _ "?s\<lparr>running := False, exchanging := exchanging ?s + 1\<rparr>"]) simp
qed

text \<open>After the signal at most one more connection. Once \<open>g_running\<close> is false it stays false, and
  however the process goes on, \<open>main\<close> starts at most one more connection thread, for a
  connection that \<open>accept\<close> returns before the listener is shut down.\<close>

theorem one_connection_after_signal:
  assumes "\<not> running s" and "runs transact UNIV s s'"
  shows "\<not> running s' \<and> accepted s' \<le> accepted s + 1"
proof -
  from assms(2) have "\<not> running s' \<and> accepted s' + offered (main_pc s') \<le> accepted s + offered (main_pc s)"
    by (induction rule: runs_induct)
      (use assms(1) not_running_step connecting_step order_trans in \<open>blast+\<close>)
  then show ?thesis
    using offered_le [of "main_pc s"] by linarith
qed

theorem one_connection_after_signal_witness:
  "\<exists>s s'. process_reach (in_process_transact (\<lambda>_. 0)) demo_bus s \<and> \<not> running s \<and>
    runs (in_process_transact (\<lambda>_. 0)) UNIV s s' \<and> main_pc s' = M_Join 0 \<and> accepted s' \<le> 2"
proof -
  let ?s = "(one_master None demo_bus start_worker demo_bus zero_stats)\<lparr>running := False, exchanging := 1\<rparr>"
  have run: "runs (in_process_transact (\<lambda>_. 0)) UNIV ?s (?s\<lparr>main_pc := M_Join 0\<rparr>)"
    by (rule runs_step [OF _ process_step.main [OF main_step.test_stop]]) simp_all
  have "\<not> running ?s" by simp
  from one_connection_after_signal [OF this run] have "accepted (?s\<lparr>main_pc := M_Join 0\<rparr>) \<le> accepted ?s + 1"
    by blast
  with run show ?thesis
    using reach_signalled [OF reach_one_master]
    by (intro exI [of _ ?s] exI [of _ "?s\<lparr>main_pc := M_Join 0\<rparr>"]) simp
qed

text \<open>C33: The listener has one owner. In every reachable state at most one activation of the signal
  handler has taken the listening socket, so that \<open>shutdown\<close> is called on it at most once, and
  as long as \<open>g_listen_fd\<close> holds a descriptor, no handler has taken it. When \<open>main\<close> returns
  0, it has closed the socket itself or a handler has taken it.\<close>

theorem listener_has_one_owner:
  assumes "process_reach transact t0 s"
  shows "shutdowns s + shutting s \<le> 1 \<and>
    (0 \<le> g_listen_fd s \<longrightarrow> g_listen_fd s = lfd s \<and> shutdowns s + shutting s = 0) \<and>
    (main_pc s = M_Exit 0 \<longrightarrow> lfd_closed s \<or> shutdowns s + shutting s = 1)"
  using reach_listener_main_ok [OF assms]
  by (cases "published (main_pc s)") (auto simp: listener_ok_def main_ok_def)

theorem listener_has_one_owner_witness:
  "\<exists>s. process_reach (in_process_transact (\<lambda>_. 0)) demo_bus s \<and> main_pc s = M_Exit 0 \<and>
    (lfd_closed s \<or> shutdowns s + shutting s = 1)"
proof -
  obtain f t st where "process_reach (in_process_transact (\<lambda>_. 0)) demo_bus (one_master None demo_bus (answered_worker demo_request f) t st)"
    using inproc.reach_answered [OF demo_bus_ok(1) demo_request_ok(3)] by blast
  then obtain s where s: "process_reach (in_process_transact (\<lambda>_. 0)) demo_bus s" "main_pc s = M_Exit 0"
    using reach_exit by metis
  then show ?thesis
    using listener_has_one_owner [OF s(1)] by blast
qed

text \<open>A listener that a handler took before the loop ended is never closed by \<open>main\<close>.\<close>

theorem signalled_listener_not_closed:
  assumes "process_reach transact t0 s" and "\<not> lfd_closed s" and "shutdowns s + shutting s = 1"
    and "runs transact UNIV s s'"
  shows "\<not> lfd_closed s'"
proof -
  have "process_step transact a u v \<Longrightarrow> shutdowns u + shutting u \<le> shutdowns v + shutting v \<and>
      (lfd_closed v \<longrightarrow> lfd_closed u \<or> 0 \<le> g_listen_fd u)" for a u v
    by (auto elim!: process_step.cases step_cases)
  then have mono: "process_step transact a u v \<Longrightarrow> shutdowns u + shutting u \<le> shutdowns v + shutting v"
    and close: "process_step transact a u v \<Longrightarrow> lfd_closed v \<Longrightarrow> lfd_closed u \<or> 0 \<le> g_listen_fd u" for a u v
    by blast+
  from assms(4) have "process_reach transact t0 s' \<and> \<not> lfd_closed s' \<and> 1 \<le> shutdowns s' + shutting s'"
  proof (induction rule: runs_induct)
    case (step u a v)
    then have u: "process_reach transact t0 u" "\<not> lfd_closed u" "1 \<le> shutdowns u + shutting u" by auto
    then have "\<not> 0 \<le> g_listen_fd u"
      using reach_listener_main_ok [OF u(1)]
      by (cases "published (main_pc u)") (auto simp: listener_ok_def)
    then show ?case
      using u reach_step [OF u(1) step(3)] mono [OF step(3)] close [OF step(3)] by force
  qed (use assms(1-3) in simp)
  then show ?thesis by simp
qed

text \<open>A process that has ended takes no step.\<close>

lemma ended_no_step: "ended (main_pc s) \<Longrightarrow> \<not> process_step transact a s s'"
  by (auto elim!: process_step.cases step_cases)

text \<open>Nothing is joined before the loop is left, and it is left only when \<open>g_running\<close> is false.\<close>

lemma running_none_joined: "process_reach transact t0 s \<Longrightarrow> running s \<Longrightarrow> joined s = {}"
proof (induction rule: process_reach.induct)
  case (reach_boot ptr)
  show ?case by (simp add: boot_process_def)
next
  case (reach_step s a s')
  have ok: "main_ok s"
    using reach_listener_main_ok [OF reach_step(1)] by blast
  from reach_step(2) show ?case
  proof cases
    case main
    from main(2) show ?thesis
      by cases (use reach_step(3,4) ok in \<open>auto simp: main_ok_def\<close>)
  qed (use reach_step(3,4) in \<open>auto elim!: step_cases\<close>)
qed

text \<open>C34: Finished threads accumulate. As long as \<open>g_running\<close> is true, \<open>main\<close> has joined no thread, in
  any reachable state; and for every \<open>n\<close> a state is reachable that holds \<open>n\<close> threads which have all
  returned and closed their sockets, none of them joined. Nothing bounds their number.\<close>

theorem finished_threads_accumulate:
  "(\<forall>s. process_reach transact t0 s \<and> running s \<longrightarrow> joined s = {}) \<and>
    (\<exists>s. process_reach transact t0 s \<and> running s \<and> joined s = {} \<and> accepted s = n \<and> (\<forall>i<n. returned (workers s i)))"
proof (intro conjI)
  have "\<exists>s. process_reach transact t0 s \<and> main_pc s = M_Test \<and> running s \<and> shutdowns s = 0 \<and>
      \<not> dump_stats s \<and> accepted s = n \<and> (\<forall>i<n. returned (workers s i))"
  proof (induction n)
    case 0
    show ?case
      using reach_listening [of transact t0]
      by (intro exI [of _ "(boot_process t0 None)\<lparr>g_listen_fd := 3, main_pc := M_Test, lfd := 3\<rparr>"])
        (simp add: boot_process_def)
  next
    case (Suc n)
    then obtain s where s: "process_reach transact t0 s" "main_pc s = M_Test" "running s" "shutdowns s = 0"
      "\<not> dump_stats s" "accepted s = n" "\<forall>i<n. returned (workers s i)"
      by blast
    then have "returned (workers (s\<lparr>workers := (workers s)(n := start_worker\<lparr>w_pc := Returned Peer_closed\<rparr>),
        accepted := n + 1\<rparr>) i)" if "i < Suc n" for i
      using that by (auto simp: returned_def less_Suc_eq)
    then show ?case
      using s short_connection [OF s(1-5)]
      by (intro exI [of _ "s\<lparr>workers := (workers s)(n := start_worker\<lparr>w_pc := Returned Peer_closed\<rparr>), accepted := n + 1\<rparr>"])
        simp
  qed
  then obtain s where "process_reach transact t0 s" "running s" "accepted s = n" "\<forall>i<n. returned (workers s i)"
    by blast
  with running_none_joined [OF this(1,2)]
  show "\<exists>s. process_reach transact t0 s \<and> running s \<and> joined s = {} \<and> accepted s = n \<and> (\<forall>i<n. returned (workers s i))"
    by (intro exI [of _ s]) simp
qed (use running_none_joined [of transact t0] in blast)

theorem finished_threads_accumulate_witness:
  "\<exists>s. process_reach (in_process_transact (\<lambda>_. 0)) demo_bus s \<and> running s \<and> joined s = {} \<and> accepted s = 2 \<and>
    returned (workers s 0) \<and> returned (workers s 1)"
proof -
  obtain s where "process_reach (in_process_transact (\<lambda>_. 0)) demo_bus s" "running s" "joined s = {}" "accepted s = 2"
    "\<forall>i<2. returned (workers s i)"
    using finished_threads_accumulate [of "in_process_transact (\<lambda>_. 0)" demo_bus 2] by blast
  then show ?thesis by (intro exI [of _ s]) simp
qed

text \<open>
  The diagnostics requested by SIGUSR1 are printed only after \<open>accept\<close> returns: while \<open>main\<close> is
  in \<open>accept\<close> and the listener is not shut down, no other step prints them.
\<close>

theorem dump_waits_for_accept:
  assumes "main_pc s = M_Accept" and "runs transact (- {Accept_returns}) s s'" and "shutdowns s' = 0"
  shows "main_pc s' = M_Accept \<and> dumps s' = dumps s"
proof -
  have waits: "main_pc v = M_Accept \<and> dumps v = dumps u"
    if "process_step transact a u v" "a \<noteq> Accept_returns" "main_pc u = M_Accept" "shutdowns v = 0" for a u v
    using that(1)
  proof cases
    case prepare
    from prepare(2) that(3) show ?thesis by cases auto
  next
    case main
    from main(2) that(3,4) show ?thesis by cases auto
  next
    case handler
    from handler(2) that(3) show ?thesis by cases auto
  next
    case signal
    from signal(2) that(3) show ?thesis by cases auto
  qed (use that(2,3) in auto)
  have grows: "shutdowns u \<le> shutdowns v" if "process_step transact a u v" for a u v
    using that by (auto elim!: process_step.cases step_cases)
  from assms(2) have "shutdowns s' = 0 \<longrightarrow> main_pc s' = M_Accept \<and> dumps s' = dumps s"
  proof (induction rule: runs_induct)
    case (step u a v)
    then show ?case
      using waits [OF step(3)] grows [OF step(3)] by auto
  qed (use assms(1) in simp)
  then show ?thesis using assms(3) by simp
qed

text \<open>C32: A thread that cannot be created ends the gateway. The exception of \<open>std::thread\<close> in the accept
  loop is not caught. There is a reachable state in which it has ended the process while the request of
  another master has been carried out on the bus and nothing of the response has been sent; no actor can
  take a step from there, so the request is never answered and the final report never written.\<close>

theorem thread_failure_cuts_requests:
  "\<exists>s n ok r t. process_reach (in_process_transact (\<lambda>_. 0)) demo_bus s \<and> main_pc s = M_Abort \<and>
    gw_transact (in_process_transact (\<lambda>_. 0)) demo_bus demo_request = Some (ok, r, t) \<and> rtu s = t \<and>
    w_pc (workers s 0) = In_handle n (Answered demo_request ok r) \<and> w_in (workers s 0) = encode demo_request \<and>
    w_out (workers s 0) = [] \<and> report s = None \<and>
    \<not> (\<exists>a s'. process_step (in_process_transact (\<lambda>_. 0)) a s s')"
proof -
  let ?X = "in_process_transact (\<lambda>_. 0)"
  let ?m = "one_master None demo_bus"
  let ?st = "gw_count zero_stats"
  note reach = reach_step [of ?X demo_bus]
  obtain ok r t where tr: "gw_transact ?X demo_bus demo_request = Some (ok, r, t)"
    using inproc.gw_transact_returns [OF demo_bus_ok(1)] by metis
  let ?w = "(counted_worker demo_request)\<lparr>w_pc := In_handle (length (encode demo_request)) (Answered demo_request ok r)\<rparr>"
  have "process_reach ?X demo_bus (?m ?w t ?st)"
    by (rule one_master_worker [OF reach_counted [OF demo_request_ok(3)]], rule worker_step.exchange [OF _ _ tr])
      (simp_all add: counted_worker_def)
  from reach [OF this process_step.main [OF main_step.test_run]]
  have "process_reach ?X demo_bus ((?m ?w t ?st)\<lparr>main_pc := M_Accept\<rparr>)" by simp
  from reach [OF this process_step.accepts [OF accept_step.accept_conn [of _ 5]]]
  have "process_reach ?X demo_bus ((?m ?w t ?st)\<lparr>main_pc := M_Accepted 5\<rparr>)" by simp
  from reach [OF this process_step.main [OF main_step.no_dump]]
  have "process_reach ?X demo_bus ((?m ?w t ?st)\<lparr>main_pc := M_Result 5\<rparr>)"
    by (simp add: one_master_def boot_process_def)
  from reach [OF this process_step.main [OF main_step.spawn_fail]]
  have "process_reach ?X demo_bus ((?m ?w t ?st)\<lparr>main_pc := M_Abort\<rparr>)" by simp
  moreover have "report ((?m ?w t ?st)\<lparr>main_pc := M_Abort\<rparr>) = None"
    by (simp add: one_master_def boot_process_def)
  ultimately show ?thesis
    using tr by - (rule exI [of _ "(?m ?w t ?st)\<lparr>main_pc := M_Abort\<rparr>"], rule exI [of _ "length (encode demo_request)"],
      rule exI [of _ ok], rule exI [of _ r], rule exI [of _ t],
      simp add: counted_worker_def ended_no_step)
qed

end
