(* ===== verification/Serial_Rtu.thy ===== *)
theory Serial_Rtu
  imports Gateway_Bus
begin

text \<open>
  \<open>src/serial_rtu.hpp\<close>: the transport that drives a POSIX serial line. The system calls are
  a parameter, the record \<open>posix\<close>, on a state \<open>'e\<close> of the operating system and the line; so
  are the constants of \<open>fcntl.h\<close>, \<open>termios.h\<close> and \<open>poll.h\<close>. Shown are the return of every
  transaction, the outcome of each branch, the reconnect back-off, the line settings, and what
  becomes of an answer that arrives late.
\<close>

section \<open>The environment\<close>

text \<open>The fields of \<open>struct termios\<close> the code writes; \<open>hidden\<close> stands for the others.\<close>

record 'm termios =
  c_cflag :: u32
  c_cc :: "nat \<Rightarrow> u8"
  hidden :: 'm

text \<open>
  A call returns its result and the next state. \<open>px_poll\<close> returns the value of \<open>poll\<close> and
  whether \<open>errno\<close> is \<open>EINTR\<close>; \<open>px_read\<close> the value of \<open>read\<close> and the content of the buffer.
  \<open>clock_ms\<close> is the \<open>duration_cast\<close> of a difference of clock ticks to milliseconds.
\<close>

record ('e, 'm) posix =
  clock_now :: "'e \<Rightarrow> int \<times> 'e"
  clock_ms :: "int \<Rightarrow> int"
  px_open :: "string \<Rightarrow> u32 \<Rightarrow> 'e \<Rightarrow> int \<times> 'e"
  px_close :: "int \<Rightarrow> 'e \<Rightarrow> 'e"
  px_tcgetattr :: "int \<Rightarrow> 'e \<Rightarrow> int \<times> 'm termios \<times> 'e"
  px_tcsetattr :: "int \<Rightarrow> int \<Rightarrow> 'm termios \<Rightarrow> 'e \<Rightarrow> int \<times> 'e"
  px_getfl :: "int \<Rightarrow> 'e \<Rightarrow> u32 \<times> 'e"
  px_setfl :: "int \<Rightarrow> u32 \<Rightarrow> 'e \<Rightarrow> 'e"
  px_tcflush :: "int \<Rightarrow> int \<Rightarrow> 'e \<Rightarrow> 'e"
  px_tcdrain :: "int \<Rightarrow> 'e \<Rightarrow> 'e"
  px_write :: "int \<Rightarrow> u8 list \<Rightarrow> 'e \<Rightarrow> int \<times> 'e"
  px_poll :: "int \<Rightarrow> int \<Rightarrow> int \<Rightarrow> 'e \<Rightarrow> int \<times> bool \<times> 'e"
  px_read :: "int \<Rightarrow> nat \<Rightarrow> 'e \<Rightarrow> int \<times> u8 list \<times> 'e"
  cfmakeraw :: "'m termios \<Rightarrow> 'm termios"
  cfsetispeed :: "u32 \<Rightarrow> 'm termios \<Rightarrow> 'm termios"
  cfsetospeed :: "u32 \<Rightarrow> 'm termios \<Rightarrow> 'm termios"
  B9600 :: u32
  B19200 :: u32
  B38400 :: u32
  B57600 :: u32
  B115200 :: u32
  CLOCAL :: u32
  CREAD :: u32
  PARENB :: u32
  PARODD :: u32
  CSTOPB :: u32
  CSIZE :: u32
  CS8 :: u32
  VMIN :: nat
  VTIME :: nat
  O_RDWR :: u32
  O_NOCTTY :: u32
  O_NONBLOCK :: u32
  TCIFLUSH :: int
  TCSANOW :: int
  POLLIN :: int

section \<open>The code\<close>

record serial_config =
  port :: string
  baud :: u32
  response_timeout_ms :: u32
  frame_gap_ms :: u32
  reconnect_backoff_ms :: u32

definition default_serial_config :: serial_config where
  "default_serial_config = \<lparr>port = ''/dev/ttyUSB0'', baud = 19200, response_timeout_ms = 300,
     frame_gap_ms = 5, reconnect_backoff_ms = 500\<rparr>"

text \<open>The members of \<open>SerialRtu\<close> and the state \<open>line\<close> of the environment.\<close>

record 'e serial =
  scfg :: serial_config
  fd :: int
  last_attempt :: int
  bus_requests :: u64
  bus_replies :: u64
  bus_timeouts :: u64
  io_errors :: u64
  reconnects :: u64
  line :: 'e

definition new_serial :: "serial_config \<Rightarrow> 'e \<Rightarrow> 'e serial" where
  "new_serial c e = \<lparr>scfg = c, fd = -1, last_attempt = 0, bus_requests = 0, bus_replies = 0,
     bus_timeouts = 0, io_errors = 0, reconnects = 0, line = e\<rparr>"

definition connected :: "'e serial \<Rightarrow> bool" where
  "connected s \<longleftrightarrow> fd s \<ge> 0"

text \<open>The accessors of the counters, and what a caller reads through a pointer to the object.\<close>

definition serial_counters :: "'e serial \<Rightarrow> u64 list" where
  "serial_counters s = [bus_requests s, bus_replies s, bus_timeouts s, io_errors s, reconnects s]"

definition serial_view :: "'e serial \<Rightarrow> bool \<times> u64 list" where
  "serial_view s = (connected s, serial_counters s)"

definition to_speed :: "('e, 'm) posix \<Rightarrow> u32 \<Rightarrow> u32" where
  "to_speed px b =
     (if b = 9600 then B9600 px
      else if b = 19200 then B19200 px
      else if b = 38400 then B38400 px
      else if b = 57600 then B57600 px
      else if b = 115200 then B115200 px
      else B19200 px)"

text \<open>The body of \<open>ensure_open\<close> between \<open>tcgetattr\<close> and \<open>tcsetattr\<close>.\<close>

definition line_settings :: "('e, 'm) posix \<Rightarrow> u32 \<Rightarrow> 'm termios \<Rightarrow> 'm termios" where
  "line_settings px b tio =
     (let tio = cfmakeraw px tio;
          tio = cfsetispeed px (to_speed px b) tio;
          tio = cfsetospeed px (to_speed px b) tio;
          tio = tio\<lparr>c_cflag := c_cflag tio OR (CLOCAL px OR CREAD px OR PARENB px)\<rparr>;
          tio = tio\<lparr>c_cflag := c_cflag tio AND NOT (PARODD px)\<rparr>;
          tio = tio\<lparr>c_cflag := c_cflag tio AND NOT (CSTOPB px)\<rparr>;
          tio = tio\<lparr>c_cflag := c_cflag tio AND NOT (CSIZE px)\<rparr>;
          tio = tio\<lparr>c_cflag := c_cflag tio OR CS8 px\<rparr>;
          tio = tio\<lparr>c_cc := (c_cc tio)(VMIN px := 0)\<rparr>
      in tio\<lparr>c_cc := (c_cc tio)(VTIME px := 0)\<rparr>)"

definition ensure_open :: "('e, 'm) posix \<Rightarrow> 'e serial \<Rightarrow> bool \<times> 'e serial" where
  "ensure_open px s =
     (if fd s \<ge> 0 then (True, s)
      else
        let (now, e) = clock_now px (line s); s = s\<lparr>line := e\<rparr> in
        if last_attempt s \<noteq> 0 \<and>
            clock_ms px (now - last_attempt s) < int (unat (reconnect_backoff_ms (scfg s)))
        then (False, s)
        else
          let s = s\<lparr>last_attempt := now\<rparr>;
              (h, e) = px_open px (port (scfg s)) (O_RDWR px OR O_NOCTTY px OR O_NONBLOCK px) (line s);
              s = s\<lparr>line := e\<rparr> in
          if h < 0 then (False, s)
          else
            let (r, tio, e) = px_tcgetattr px h (line s) in
            if r \<noteq> 0 then (False, s\<lparr>line := px_close px h e\<rparr>)
            else
              let tio = line_settings px (baud (scfg s)) tio;
                  (r, e) = px_tcsetattr px h (TCSANOW px) tio e in
              if r \<noteq> 0 then (False, s\<lparr>line := px_close px h e\<rparr>)
              else
                let (fl, e) = px_getfl px h e;
                    e = px_setfl px h (fl AND NOT (O_NONBLOCK px)) e in
                (True, s\<lparr>fd := h, reconnects := reconnects s + 1, line := e\<rparr>))"

definition close_port :: "('e, 'm) posix \<Rightarrow> 'e serial \<Rightarrow> 'e serial" where
  "close_port px s = (if fd s \<ge> 0 then s\<lparr>line := px_close px (fd s) (line s), fd := -1\<rparr> else s)"

function write_all :: "('e, 'm) posix \<Rightarrow> int \<Rightarrow> u8 list \<Rightarrow> nat \<Rightarrow> 'e \<Rightarrow> bool \<times> 'e" where
  "write_all px h req nwritten e =
     (if nwritten < length req then
        case px_write px h (drop nwritten req) e of (w, e') \<Rightarrow>
          if w \<le> 0 then (False, e')
          else write_all px h req (nwritten + nat w) e'
      else (True, e))"
  by pat_completeness auto
termination
  by (relation "measure (\<lambda>(px, h, req, nwritten, e). length req - nwritten)") auto

declare write_all.simps [simp del]

text \<open>
  The receive loop: whether it ended without an I/O error, the bytes received, the next state.
  It has no bound of its own (\<open>EINTR\<close> repeats the wait), so not returning is the value
  \<open>None\<close>.
\<close>

partial_function (option) read_loop ::
    "('e, 'm) posix \<Rightarrow> serial_config \<Rightarrow> int \<Rightarrow> u8 list \<Rightarrow> bool \<Rightarrow> 'e \<Rightarrow> (bool \<times> u8 list \<times> 'e) option"
where
  "read_loop px c h rsp got_any e =
     (let wait_ms = sint (if got_any then frame_gap_ms c else response_timeout_ms c) in
      case px_poll px h (POLLIN px) wait_ms e of (pr, eintr, e) \<Rightarrow>
        if pr < 0 then
          (if eintr then read_loop px c h rsp got_any e else Some (False, rsp, e))
        else if pr = 0 then Some (True, rsp, e)
        else case px_read px h 512 e of (n, chunk, e) \<Rightarrow>
          if n < 0 then Some (False, rsp, e)
          else if n = 0 then Some (True, rsp, e)
          else do {
            bytes \<leftarrow> rd_range chunk 0 (nat n);
            if length (rsp @ bytes) \<ge> unat MB_ADU_MAX then Some (True, rsp @ bytes, e)
            else read_loop px c h (rsp @ bytes) True e
          })"

definition serial_transact :: "('e, 'm) posix \<Rightarrow> 'e serial transact" where
  "serial_transact px s req rsp =
     (case ensure_open px s of (ok, s) \<Rightarrow>
        if \<not> ok then Some (False, rsp, s)
        else case write_all px (fd s) req 0 (px_tcflush px (fd s) (TCIFLUSH px) (line s)) of (ok, e) \<Rightarrow>
          let s = s\<lparr>line := e\<rparr> in
          if \<not> ok then Some (False, rsp, close_port px (s\<lparr>io_errors := io_errors s + 1\<rparr>))
          else do {
            let s = s\<lparr>line := px_tcdrain px (fd s) (line s), bus_requests := bus_requests s + 1\<rparr>;
            (ok, rsp, e) \<leftarrow> read_loop px (scfg s) (fd s) [] False (line s);
            let s = s\<lparr>line := e\<rparr>;
            if \<not> ok then Some (False, rsp, close_port px (s\<lparr>io_errors := io_errors s + 1\<rparr>))
            else if rsp = [] then Some (False, rsp, s\<lparr>bus_timeouts := bus_timeouts s + 1\<rparr>)
            else Some (True, rsp, s\<lparr>bus_replies := bus_replies s + 1\<rparr>)
          })"

section \<open>The calls return\<close>

text \<open>
  What the code relies on: \<open>read\<close> fills at most the buffer it is given, and \<open>poll\<close> is not
  interrupted for ever, so that some \<open>rank\<close> of the environment decreases when it is.
\<close>

definition posix_ok :: "('e, 'm) posix \<Rightarrow> ('e \<Rightarrow> nat) \<Rightarrow> bool" where
  "posix_ok px rank \<longleftrightarrow>
     (\<forall>h k e n chunk e'. px_read px h k e = (n, chunk, e') \<longrightarrow> length chunk = k \<and> n \<le> int k) \<and>
     (\<forall>h ev w e pr e'. px_poll px h ev w e = (pr, True, e') \<and> pr < 0 \<longrightarrow> rank e' < rank e)"

lemma posix_okD:
  assumes "posix_ok px rank"
  shows "px_read px h k e = (n, chunk, e') \<Longrightarrow> length chunk = k \<and> n \<le> int k"
    and "px_poll px h ev w e = (pr, True, e') \<Longrightarrow> pr < 0 \<Longrightarrow> rank e' < rank e"
  using assms unfolding posix_ok_def by blast+

lemma read_loop_returns:
  assumes "posix_ok px rank" and "length rsp < 256"
  shows "\<exists>ok d e'. read_loop px c h rsp got_any e = Some (ok, rsp @ d, e') \<and> length (rsp @ d) < 768"
  using assms(2)
proof (induction "(256 - length rsp, rank e)" arbitrary: rsp got_any e
    rule: wf_induct [OF wf_lex_prod [OF wf_less wf_less]])
  case (1 rsp e got_any)
  note IH = 1(1) [rule_format, OF _ refl]
  obtain pr eintr e1 where p: "px_poll px h (POLLIN px)
      (sint (if got_any then frame_gap_ms c else response_timeout_ms c)) e = (pr, eintr, e1)"
    by (metis prod_cases3)
  obtain n chunk e2 where r: "px_read px h 512 e1 = (n, chunk, e2)"
    by (metis prod_cases3)
  have chunk: "length chunk = 512" "n \<le> 512"
    using posix_okD(1) [OF assms(1) r] by auto
  note unfold = read_loop.simps [of px c h rsp got_any e, unfolded Let_def p]
  consider "pr < 0" "eintr" | "pr < 0" "\<not> eintr" | "pr = 0" | "pr > 0" "n \<le> 0"
    | "pr > 0" "n > 0" "256 \<le> length rsp + nat n" | "pr > 0" "n > 0" "length rsp + nat n < 256"
    by linarith
  then show ?case
  proof cases
    case 1
    then have "eintr = True" by simp
    from posix_okD(2) [OF assms(1) p [unfolded this] 1(1)] show ?thesis
      using IH [of rsp e1 got_any] 1 \<open>length rsp < 256\<close> by (simp add: unfold)
  next
    case 5
    then have "rd_range chunk 0 (nat n) = Some (take (nat n) chunk)" "nat n \<le> 512"
      using chunk by (simp_all add: rd_range_def)
    then show ?thesis
      using 5 r chunk \<open>length rsp < 256\<close> by (auto simp: unfold MB_ADU_MAX_def min_absorb2)
  next
    case 6
    then have "rd_range chunk 0 (nat n) = Some (take (nat n) chunk)"
      using chunk by (simp add: rd_range_def)
    moreover have len: "length (rsp @ take (nat n) chunk) = length rsp + nat n"
      using chunk 6 by (simp add: min_absorb2)
    moreover have "256 - (length rsp + nat n) < 256 - length rsp"
      using 6 by linarith
    moreover from this obtain ok d e' where
      "read_loop px c h (rsp @ take (nat n) chunk) True e2 = Some (ok, (rsp @ take (nat n) chunk) @ d, e')"
      "length ((rsp @ take (nat n) chunk) @ d) < 768"
      using IH [of "rsp @ take (nat n) chunk" e2 True] 6 len by auto
    ultimately show ?thesis
      using 6 r by (intro exI [of _ ok] exI [of _ "take (nat n) chunk @ d"] exI [of _ e'])
        (simp add: unfold MB_ADU_MAX_def)
  qed (use r \<open>length rsp < 256\<close> in \<open>auto simp: unfold\<close>)
qed

text \<open>The branches of a transaction.\<close>

lemma serial_cases:
  assumes "posix_ok px rank"
  obtains (not_open) s1 where "ensure_open px s = (False, s1)"
      "serial_transact px s req rsp = Some (False, rsp, s1)"
  | (write_failed) s1 e where "ensure_open px s = (True, s1)"
      "serial_transact px s req rsp =
        Some (False, rsp, close_port px (s1\<lparr>line := e, io_errors := io_errors s1 + 1\<rparr>))"
  | (read_failed) s1 e rsp' where "ensure_open px s = (True, s1)"
      "serial_transact px s req rsp = Some (False, rsp', close_port px
        (s1\<lparr>bus_requests := bus_requests s1 + 1, line := e, io_errors := io_errors s1 + 1\<rparr>))"
  | (silent) s1 e where "ensure_open px s = (True, s1)"
      "serial_transact px s req rsp = Some (False, [],
        s1\<lparr>bus_requests := bus_requests s1 + 1, bus_timeouts := bus_timeouts s1 + 1, line := e\<rparr>)"
  | (answered) s1 e rsp' where "ensure_open px s = (True, s1)"
      "serial_transact px s req rsp = Some (True, rsp',
        s1\<lparr>bus_requests := bus_requests s1 + 1, bus_replies := bus_replies s1 + 1, line := e\<rparr>)"
      "rsp' \<noteq> []" "length rsp' < 768"
proof -
  obtain ok1 s1 where o: "ensure_open px s = (ok1, s1)" by fastforce
  obtain ok2 e2 where w: "write_all px (fd s1) req 0 (px_tcflush px (fd s1) (TCIFLUSH px) (line s1)) = (ok2, e2)"
    by fastforce
  obtain ok3 d e3 where r: "read_loop px (scfg s1) (fd s1) [] False (px_tcdrain px (fd s1) e2) = Some (ok3, d, e3)"
    and d: "length d < 768"
    using read_loop_returns [OF assms, of "[]" "scfg s1" "fd s1" False "px_tcdrain px (fd s1) e2"] by auto
  note run = serial_transact_def [of px s req rsp, unfolded o]
  consider "\<not> ok1" | "ok1" "\<not> ok2" | "ok1" "ok2" "\<not> ok3" | "ok1" "ok2" "ok3" "d = []"
    | "ok1" "ok2" "ok3" "d \<noteq> []" by blast
  then show thesis
  proof cases
    case 1
    then show ?thesis using not_open o run by simp
  next
    case 2
    then show ?thesis
      using write_failed [of s1 e2] o run w by simp
  next
    case 3
    then show ?thesis
      using read_failed [of s1 d e3] o run w r by simp
  next
    case 4
    then show ?thesis
      using silent [of s1 e3] o run w r by simp
  next
    case 5
    then show ?thesis
      using answered [of s1 d e3] o run w r d by simp
  qed
qed

lemma serial_transact_returns:
  assumes "posix_ok px rank"
  shows "\<exists>ok rsp' s'. serial_transact px s req rsp = Some (ok, rsp', s')"
  by (cases rule: serial_cases [where s = s and req = req and rsp = rsp, OF assms]) auto

text \<open>So the serial line is a transport, and the gateway responds over it.\<close>

lemma serial_rtu_transport:
  assumes "posix_ok px rank"
  shows "rtu_transport (serial_transact px) (\<lambda>_. True)"
  using serial_transact_returns [OF assms] by unfold_locales auto

section \<open>Opening and writing\<close>

lemma ensure_open_connected: "ensure_open px s = (True, s') \<Longrightarrow> connected s'"
  by (auto simp: ensure_open_def connected_def Let_def split: if_splits prod.splits)

lemma ensure_open_keeps:
  assumes "ensure_open px s = (ok, s')"
  shows "scfg s' = scfg s \<and> bus_requests s' = bus_requests s \<and> bus_replies s' = bus_replies s \<and>
    bus_timeouts s' = bus_timeouts s \<and> io_errors s' = io_errors s \<and>
    reconnects s' = reconnects s + (if ok \<and> \<not> connected s then 1 else 0) \<and>
    (connected s \<longrightarrow> ok \<and> s' = s) \<and> (\<not> ok \<longrightarrow> fd s' = fd s)"
  using assms
  by (auto simp: ensure_open_def connected_def Let_def split: if_splits prod.splits)

lemma close_port_simps [simp]:
  "\<not> connected (close_port px s)" "io_errors (close_port px s) = io_errors s"
  "bus_requests (close_port px s) = bus_requests s" "bus_replies (close_port px s) = bus_replies s"
  "bus_timeouts (close_port px s) = bus_timeouts s" "reconnects (close_port px s) = reconnects s"
  "scfg (close_port px s) = scfg s" "last_attempt (close_port px s) = last_attempt s"
  by (simp_all add: close_port_def connected_def)

section \<open>An example environment\<close>

text \<open>
  The constants of Linux and a line on which the byte strings of the state arrive, one per
  \<open>read\<close>, after the input has been flushed; every other call succeeds.
\<close>

definition demo_posix :: "(u8 list list, unit) posix" where
  "demo_posix = \<lparr>clock_now = \<lambda>e. (1, e), clock_ms = \<lambda>d. d div 1000000,
     px_open = \<lambda>p fl e. (3, e), px_close = \<lambda>h e. e,
     px_tcgetattr = \<lambda>h e. (0, \<lparr>c_cflag = 0x0CBD, c_cc = \<lambda>_. 1, hidden = ()\<rparr>, e),
     px_tcsetattr = \<lambda>h a tio e. (0, e), px_getfl = \<lambda>h e. (0x802, e), px_setfl = \<lambda>h fl e. e,
     px_tcflush = \<lambda>h q e. e, px_tcdrain = \<lambda>h e. e,
     px_write = \<lambda>h bs e. (int (length bs), e),
     px_poll = \<lambda>h ev w e. (if e = [] then 0 else 1, False, e),
     px_read = \<lambda>h k e. (case e of [] \<Rightarrow> (0, replicate k 0, [])
       | x # xs \<Rightarrow> (int (min (length x) k), take k (x @ replicate k 0), xs)),
     cfmakeraw = \<lambda>tio. tio, cfsetispeed = \<lambda>b tio. tio, cfsetospeed = \<lambda>b tio. tio,
     B9600 = 13, B19200 = 14, B38400 = 15, B57600 = 0x1001, B115200 = 0x1002,
     CLOCAL = 0x800, CREAD = 0x80, PARENB = 0x100, PARODD = 0x200, CSTOPB = 0x40, CSIZE = 0x30,
     CS8 = 0x30, VMIN = 6, VTIME = 5, O_RDWR = 2, O_NOCTTY = 0x100, O_NONBLOCK = 0x800,
     TCIFLUSH = 0, TCSANOW = 0, POLLIN = 1\<rparr>"

lemma demo_posix_simps [simp]:
  "px_write demo_posix h bs e = (int (length bs), e)"
  "px_poll demo_posix h ev w e = (if e = [] then 0 else 1, False, e)"
  "px_read demo_posix h k [] = (0, replicate k 0, [])"
  "px_read demo_posix h k (x # xs) = (int (min (length x) k), take k (x @ replicate k 0), xs)"
  "px_tcflush demo_posix h q e = e" "px_tcdrain demo_posix h e = e"
  by (simp_all add: demo_posix_def)

lemma demo_posix_ok: "posix_ok demo_posix (\<lambda>_. 0)"
  unfolding posix_ok_def
proof (intro conjI allI impI)
  fix h k e n chunk e'
  assume "px_read demo_posix h k e = (n, chunk, e')"
  then show "length chunk = k" and "n \<le> int k"
    by (cases e; auto)+
qed auto

definition demo_serial :: "u8 list list \<Rightarrow> u8 list list serial" where
  "demo_serial e = (new_serial default_serial_config e)\<lparr>fd := 3\<rparr>"

lemma demo_write_all: "write_all demo_posix h req 0 e = (True, e)"
  using write_all.simps [of demo_posix h req 0 e] write_all.simps [of demo_posix h req "length req" e]
  by auto

lemma demo_read_one:
  assumes "out \<noteq> []" and "length out < 256"
  shows "read_loop demo_posix c h [] False [out] = Some (True, out, [])"
proof -
  have "rd_range (take 512 (out @ replicate 512 0)) 0 (length out) = Some out"
    using assms(2) by (simp add: rd_range_def)
  moreover have "read_loop demo_posix c h out True [] = Some (True, out, [])"
    by (subst read_loop.simps) simp
  ultimately show ?thesis
    using assms by (subst read_loop.simps) (simp add: MB_ADU_MAX_def)
qed

lemma demo_transact:
  assumes "out \<noteq> []" and "length out < 256"
  shows "\<exists>s'. \<forall>req rsp. serial_transact demo_posix (demo_serial [out]) req rsp = Some (True, out, s')"
proof -
  have o: "ensure_open demo_posix (demo_serial [out]) = (True, demo_serial [out])"
    and l: "line (demo_serial [out]) = [out]"
    by (simp_all add: ensure_open_def demo_serial_def new_serial_def)
  show ?thesis
    using assms(1) by (simp add: serial_transact_def o l demo_write_all demo_read_one [OF assms])
qed

section \<open>Properties\<close>

text \<open>A transaction on the serial line always ends, in one of five ways. The port could not be
  opened and nothing else happened; writing failed; receiving failed, also after a part of the
  answer; the device stayed silent; or it answered with at least one and fewer than 768 bytes.
  Each way has its own change of the counters, every I/O error closes the port, and only an
  answer makes the call succeed.\<close>

theorem serial_transact_outcomes:
  assumes "posix_ok px rank"
  shows "\<exists>ok rsp' s'. serial_transact px s req rsp = Some (ok, rsp', s') \<and>
    (bus_requests s' - bus_requests s, bus_replies s' - bus_replies s, bus_timeouts s' - bus_timeouts s,
      io_errors s' - io_errors s, ok, connected s') \<in>
      {(0, 0, 0, 0, False, False), (0, 0, 0, 1, False, False), (1, 0, 0, 1, False, False),
       (1, 0, 1, 0, False, True), (1, 1, 0, 0, True, True)} \<and>
    (ok \<longrightarrow> rsp' \<noteq> [] \<and> length rsp' < 768)"
  using assms
proof (cases rule: serial_cases [where s = s and req = req and rsp = rsp])
  case (not_open s1)
  then show ?thesis
    using ensure_open_keeps [OF not_open(1)] by (auto simp: connected_def)
next
  case (write_failed s1 e)
  then show ?thesis
    using ensure_open_keeps [OF write_failed(1)] by auto
next
  case (read_failed s1 e rsp')
  then show ?thesis
    using ensure_open_keeps [OF read_failed(1)] by auto
next
  case (silent s1 e)
  then show ?thesis
    using ensure_open_keeps [OF silent(1)] ensure_open_connected [OF silent(1)] by (auto simp: connected_def)
next
  case (answered s1 e rsp')
  then show ?thesis
    using ensure_open_keeps [OF answered(1)] ensure_open_connected [OF answered(1)] by (auto simp: connected_def)
qed

theorem serial_transact_outcomes_witness:
  "\<exists>s'. serial_transact demo_posix (demo_serial [[17, 3, 2, 0, 9]]) [17, 3, 0, 1, 0, 1] [] =
      Some (True, [17, 3, 2, 0, 9], s') \<and>
    bus_requests s' = 1 \<and> bus_replies s' = 1 \<and> bus_timeouts s' = 0 \<and> io_errors s' = 0 \<and> connected s'"
proof -
  obtain s' where run: "serial_transact demo_posix (demo_serial [[17, 3, 2, 0, 9]]) [17, 3, 0, 1, 0, 1] [] =
      Some (True, [17, 3, 2, 0, 9], s')"
    using demo_transact [of "[17, 3, 2, 0, 9]"] by auto
  then show ?thesis
    using serial_transact_outcomes [OF demo_posix_ok, of "demo_serial [[17, 3, 2, 0, 9]]" "[17, 3, 0, 1, 0, 1]" "[]"]
    by (auto simp: demo_serial_def new_serial_def)
qed

text \<open>Reconnecting backs off. On a closed port, a transaction within the configured back-off
  since the last attempt makes no system call but reading the clock; otherwise it is an attempt,
  its time is recorded, it succeeds exactly when the port could be opened and set up, which is
  counted, and a failed attempt leaves the port closed. On an open port nothing is done.\<close>

theorem ensure_open_backs_off:
  assumes "clock_now px (line s) = (now, e)" and "ensure_open px s = (ok, s')"
  shows "if connected s then ok \<and> s' = s
    else if last_attempt s \<noteq> 0 \<and>
      clock_ms px (now - last_attempt s) < int (unat (reconnect_backoff_ms (scfg s)))
    then \<not> ok \<and> s' = s\<lparr>line := e\<rparr>
    else last_attempt s' = now \<and> connected s' = ok \<and>
      reconnects s' = reconnects s + (if ok then 1 else 0)"
  using assms
  by (auto simp: ensure_open_def connected_def Let_def split: if_splits prod.splits)

theorem ensure_open_backs_off_witness:
  "ensure_open demo_posix ((new_serial default_serial_config [])\<lparr>last_attempt := 499000000\<rparr>) =
     (False, (new_serial default_serial_config [])\<lparr>last_attempt := 499000000, line := []\<rparr>)"
proof -
  let ?s = "(new_serial default_serial_config [])\<lparr>last_attempt := 499000000\<rparr>"
  obtain ok s' where run: "ensure_open demo_posix ?s = (ok, s')" by fastforce
  have "clock_now demo_posix (line ?s) = (1, line ?s)" by (simp add: demo_posix_def)
  from ensure_open_backs_off [OF this run] run show ?thesis
    by (simp add: new_serial_def default_serial_config_def connected_def demo_posix_def)
qed

text \<open>The line is set to 8E1. With the flag constants of any POSIX system, whose fields do not
  overlap, the settings written by \<open>ensure_open\<close> enable parity, make it even, and select one stop
  bit, eight data bits, the receiver and no modem control, whatever the previous settings were;
  \<open>read\<close> is set not to wait.\<close>

theorem line_settings_8E1:
  assumes "PARENB px AND (PARODD px OR CSTOPB px OR CSIZE px) = 0"
    and "(CLOCAL px OR CREAD px) AND (PARODD px OR CSTOPB px OR CSIZE px) = 0"
    and "CSIZE px AND (PARODD px OR CSTOPB px) = 0" and "CS8 px AND CSIZE px = CS8 px"
    and "VMIN px \<noteq> VTIME px"
  shows "let tio' = line_settings px b tio; flags = c_cflag tio' in
    flags AND PARENB px = PARENB px \<and> flags AND PARODD px = 0 \<and> flags AND CSTOPB px = 0 \<and>
    flags AND CSIZE px = CS8 px \<and>
    flags AND (CLOCAL px OR CREAD px) = CLOCAL px OR CREAD px \<and>
    c_cc tio' (VMIN px) = 0 \<and> c_cc tio' (VTIME px) = 0"
proof -
  define old where "old = c_cflag (cfsetospeed px (to_speed px b) (cfsetispeed px (to_speed px b) (cfmakeraw px tio)))"
  define flags where "flags = c_cflag (line_settings px b tio)"
  have flags: "flags = ((((old OR (CLOCAL px OR CREAD px OR PARENB px)) AND NOT (PARODD px)) AND
      NOT (CSTOPB px)) AND NOT (CSIZE px)) OR CS8 px"
    by (simp add: flags_def old_def line_settings_def Let_def)
  have h: "bit (PARENB px) n \<Longrightarrow> \<not> bit (PARODD px) n \<and> \<not> bit (CSTOPB px) n \<and> \<not> bit (CSIZE px) n"
    "bit (CLOCAL px) n \<or> bit (CREAD px) n \<Longrightarrow>
      \<not> bit (PARODD px) n \<and> \<not> bit (CSTOPB px) n \<and> \<not> bit (CSIZE px) n"
    "bit (CSIZE px) n \<Longrightarrow> \<not> bit (PARODD px) n \<and> \<not> bit (CSTOPB px) n"
    "bit (CS8 px) n \<Longrightarrow> bit (CSIZE px) n" for n
    using assms(1-4) [THEN arg_cong, of "\<lambda>w. bit w n"] by (auto simp: bit_simps)
  have "flags AND PARENB px = PARENB px" "flags AND PARODD px = 0" "flags AND CSTOPB px = 0"
    "flags AND CSIZE px = CS8 px" "flags AND (CLOCAL px OR CREAD px) = CLOCAL px OR CREAD px"
    using h by (auto simp: flags bit_simps intro!: bit_word_eqI)
  moreover have "c_cc (line_settings px b tio) (VMIN px) = 0 \<and> c_cc (line_settings px b tio) (VTIME px) = 0"
    using assms(5) by (simp add: line_settings_def Let_def)
  ultimately show ?thesis
    by (simp add: Let_def flags_def)
qed

theorem line_settings_8E1_witness:
  "c_cflag (line_settings demo_posix 9600 \<lparr>c_cflag = 0x0CBD OR 0x240, c_cc = \<lambda>_. 1, hidden = ()\<rparr>) AND
     (PARODD demo_posix) = 0"
proof -
  have "PARENB demo_posix AND (PARODD demo_posix OR CSTOPB demo_posix OR CSIZE demo_posix) = 0"
    "(CLOCAL demo_posix OR CREAD demo_posix) AND (PARODD demo_posix OR CSTOPB demo_posix OR CSIZE demo_posix) = 0"
    "CSIZE demo_posix AND (PARODD demo_posix OR CSTOPB demo_posix) = 0"
    "CS8 demo_posix AND CSIZE demo_posix = CS8 demo_posix" "VMIN demo_posix \<noteq> VTIME demo_posix"
    by (simp_all add: demo_posix_def)
  from line_settings_8E1 [OF this, of 9600 "\<lparr>c_cflag = 0x0CBD OR 0x240, c_cc = \<lambda>_. 1, hidden = ()\<rparr>"]
  show ?thesis by (simp only: Let_def)
qed

text \<open>The gateway never hangs on the serial line. Whatever the line does, a disappearing port, a
  device that is silent or answers only in part, as long as \<open>poll\<close> is not interrupted for ever,
  each request gets a response with its transaction id and is counted once; if it is not counted
  as a response, it is an exception frame of the gateway for the unit of the request.\<close>

theorem serial_gateway_responds:
  assumes "posix_ok px rank"
  shows "\<exists>rsp s' st'. gateway_handle (serial_transact px) s st req = Some (rsp, s', st') \<and>
    transaction_id rsp = transaction_id req \<and> one_outcome (st\<lparr>requests := requests st + 1\<rparr>) st' \<and>
    (responses st' = responses st \<longrightarrow> unit_id rsp = unit_id req \<and> wf_frame rsp)"
proof -
  obtain rsp s' st' where h: "gateway_handle (serial_transact px) s st req = Some (rsp, s', st')"
    "transaction_id rsp = transaction_id req"
    using rtu_transport.handle_responds [OF serial_rtu_transport [OF assms], of s st req] by auto
  then show ?thesis
    using gateway_handle_counts [OF h(1)] gateway_handle_refusal [OF h(1)] by blast
qed

theorem serial_gateway_responds_witness:
  "\<exists>rsp s' st'. gateway_handle (serial_transact demo_posix) (demo_serial [[17, 3]]) idle_stats
      (read_request 5 17 0 1) = Some (rsp, s', st') \<and> transaction_id rsp = 5"
  using serial_gateway_responds [OF demo_posix_ok, of "demo_serial [[17, 3]]" idle_stats "read_request 5 17 0 1"]
  by auto

text \<open>C39: A late answer of another unit is delivered as the answer. \<open>SerialRtu\<close> discards the input
  that is there before it sends a request. When the answer of another unit to an earlier request
  arrives after that, it is intact and ends with the frame gap, so the transaction returns it and
  the gateway sends it to the master, under the transaction id of the new request and with the
  unit id of the other device.\<close>

theorem serial_late_answer_forwarded:
  assumes "intact out" and "length out < 256" and "wf_frame req"
  shows "\<exists>rsp s' st'. gateway_handle (serial_transact demo_posix) (demo_serial [out]) st req = Some (rsp, s', st') \<and>
    transaction_id rsp = transaction_id req \<and> unit_id rsp = hd out \<and>
    responses st' = responses st + 1"
proof -
  have "out \<noteq> []"
    using assms(1) by (auto simp: intact_def)
  then obtain s' where run: "\<And>adu rsp. serial_transact demo_posix (demo_serial [out]) adu rsp = Some (True, out, s')"
    using demo_transact [OF _ assms(2)] by blast
  have req: "pdu req \<noteq> []" "tcp_to_rtu req = Some (seal_adu (unit_id req # pdu req))"
    using assms(3) by (auto simp: wf_frame_def mbap_consts tcp_to_rtu_eq)
  show ?thesis
    using assms(1,2)
    by (simp add: gateway_handle_nonempty [where transact = "serial_transact demo_posix", OF req run]
        rtu_to_tcp_eq frame_of_adu_def Let_def)
qed

theorem serial_late_answer_forwarded_witness:
  "\<exists>rsp s' st'. gateway_handle (serial_transact demo_posix) (demo_serial [[17, 3, 4, 0, 20, 0, 30, 0x2B, 0xFE]])
      idle_stats (read_request 6 34 0 2) = Some (rsp, s', st') \<and> unit_id rsp = 17"
proof -
  have "intact [17, 3, 4, 0, 20, 0, 30, 0x2B, 0xFE]" by code_simp
  from serial_late_answer_forwarded [OF this _ wf_read_request, of idle_stats 6 34 0 2] show ?thesis
    by auto
qed

end
