(* ===== verification/Config.thy ===== *)
theory Config
  imports Gateway_Prelude
begin

text \<open>
  \<open>src/config.hpp\<close>: the configuration file, and what it uses of the standard library: string
  search, \<open>std::getline\<close>, \<open>std::to_string\<close> and \<open>strtoul\<close> with base 0. The lemmas show that a
  written file is read back, that the first bad line is reported, and that numbers and unit
  lists survive printing and parsing.
\<close>

section \<open>The standard library\<close>

definition blank :: "char \<Rightarrow> bool" where
  "blank c \<longleftrightarrow> c = CHR '' '' \<or> c = CHR 0x09 \<or> c = CHR 0x0D \<or> c = CHR 0x0A"

text \<open>\<open>None\<close> is \<open>std::string::npos\<close>.\<close>

fun find_first :: "(char \<Rightarrow> bool) \<Rightarrow> string \<Rightarrow> nat option" where
  "find_first P [] = None"
| "find_first P (c # s) = (if P c then Some 0 else map_option Suc (find_first P s))"

fun find_last :: "(char \<Rightarrow> bool) \<Rightarrow> string \<Rightarrow> nat option" where
  "find_last P [] = None"
| "find_last P (c # s) = (case find_last P s of
     Some i \<Rightarrow> Some (Suc i)
   | None \<Rightarrow> if P c then Some 0 else None)"

definition substr :: "string \<Rightarrow> nat \<Rightarrow> nat \<Rightarrow> string" where
  "substr s pos n = take n (drop pos s)"

text \<open>All results of \<open>std::getline\<close> with a delimiter, until it fails.\<close>

function getlines :: "char \<Rightarrow> string \<Rightarrow> string list" where
  "getlines d s =
     (if s = [] then []
      else takeWhile (\<lambda>c. c \<noteq> d) s # getlines d (drop 1 (dropWhile (\<lambda>c. c \<noteq> d) s)))"
  by pat_completeness auto
termination
  by (relation "measure (\<lambda>(d, s). length s)")
    (auto simp: neq_Nil_conv less_Suc_eq_le intro!: le_trans [OF diff_le_self] length_dropWhile_le)

declare getlines.simps [simp del]

text \<open>\<open>std::to_string\<close> of a number that is not negative.\<close>

definition digit :: "nat \<Rightarrow> char" where
  "digit n = char_of (48 + n)"

fun to_string_nat :: "nat \<Rightarrow> string" where
  "to_string_nat n = (if n < 10 then [digit n] else to_string_nat (n div 10) @ [digit (n mod 10)])"

declare to_string_nat.simps [simp del]

definition digit_value :: "char \<Rightarrow> nat option" where
  "digit_value c = (let n = of_char c :: nat in
     if 48 \<le> n \<and> n < 58 then Some (n - 48)
     else if 97 \<le> n \<and> n < 103 then Some (n - 87)
     else if 65 \<le> n \<and> n < 71 then Some (n - 55)
     else None)"

definition is_digit :: "nat \<Rightarrow> char \<Rightarrow> bool" where
  "is_digit base c = (case digit_value c of Some v \<Rightarrow> v < base | None \<Rightarrow> False)"

definition digits_value :: "nat \<Rightarrow> string \<Rightarrow> nat" where
  "digits_value base ds = foldl (\<lambda>v c. v * base + the (digit_value c)) 0 ds"

text \<open>White space of the C locale; sign; the value and whether a digit was found.\<close>

definition is_space :: "char \<Rightarrow> bool" where
  "is_space c \<longleftrightarrow> blank c \<or> c = CHR 0x0B \<or> c = CHR 0x0C"

definition split_sign :: "string \<Rightarrow> bool \<times> string" where
  "split_sign s = (case s of
     [] \<Rightarrow> (False, [])
   | c # r \<Rightarrow> if c = CHR ''-'' then (True, r) else if c = CHR ''+'' then (False, r) else (False, s))"

definition scan_digits :: "nat \<Rightarrow> string \<Rightarrow> nat option" where
  "scan_digits base s = (case takeWhile (is_digit base) s of [] \<Rightarrow> None | ds \<Rightarrow> Some (digits_value base ds))"

definition ULONG_MAX :: nat where
  "ULONG_MAX = 2 ^ 64 - 1"

definition ulong_result :: "bool \<Rightarrow> nat \<Rightarrow> nat" where
  "ulong_result neg v = (if ULONG_MAX < v then ULONG_MAX
     else if neg \<and> v \<noteq> 0 then ULONG_MAX + 1 - v else v)"

text \<open>\<open>std::strtoul(s, nullptr, 0)\<close>: the prefix selects the base; no digits give 0.\<close>

definition strtoul0 :: "string \<Rightarrow> nat" where
  "strtoul0 s = (case split_sign (dropWhile is_space s) of (neg, r) \<Rightarrow>
     let v = (case r of
         c0 # c1 # c2 # r' \<Rightarrow>
           if c0 = CHR ''0'' \<and> (c1 = CHR ''x'' \<or> c1 = CHR ''X'') \<and> is_digit 16 c2
           then scan_digits 16 (c2 # r')
           else if c0 = CHR ''0'' then scan_digits 8 r
           else scan_digits 10 r
       | c0 # _ \<Rightarrow> if c0 = CHR ''0'' then scan_digits 8 r else scan_digits 10 r
       | [] \<Rightarrow> None)
     in case v of None \<Rightarrow> 0 | Some n \<Rightarrow> ulong_result neg n)"

section \<open>Config\<close>

type_synonym config = "string \<Rightarrow> string option"

definition trim :: "string \<Rightarrow> string" where
  "trim s = (case find_first (\<lambda>c. \<not> blank c) s of
     None \<Rightarrow> ''''
   | Some b \<Rightarrow> (case find_last (\<lambda>c. \<not> blank c) s of
       Some e \<Rightarrow> substr s b (e - b + 1)
     | None \<Rightarrow> drop b s))"

definition uncomment :: "string \<Rightarrow> string" where
  "uncomment line = (case find_first (\<lambda>c. c = CHR ''#'') line of
     Some hash \<Rightarrow> take hash line | None \<Rightarrow> line)"

text \<open>One line of the file: an error message, or the new settings.\<close>

definition load_line :: "string \<Rightarrow> nat \<Rightarrow> string \<Rightarrow> config \<Rightarrow> string + config" where
  "load_line path lineno line kv =
     (let line = uncomment line in
      case find_first (\<lambda>c. c = CHR ''='') line of
        None \<Rightarrow>
          if find_first (\<lambda>c. \<not> blank c) line \<noteq> None
          then Inl (path @ '':'' @ to_string_nat lineno @ '': expected key = value'')
          else Inr kv
      | Some eq \<Rightarrow> Inr (kv(trim (substr line 0 eq) \<mapsto> trim (drop (eq + 1) line))))"

fun load_lines :: "string \<Rightarrow> nat \<Rightarrow> string list \<Rightarrow> config \<Rightarrow> string option \<times> config" where
  "load_lines path lineno [] kv = (None, kv)"
| "load_lines path lineno (line # lines) kv =
     (case load_line path (lineno + 1) line kv of
        Inl err \<Rightarrow> (Some err, kv)
      | Inr kv \<Rightarrow> load_lines path (lineno + 1) lines kv)"

text \<open>\<open>load\<close> on the content of the file, if it can be opened; the error, if it returns false.\<close>

definition load :: "string \<Rightarrow> string option \<Rightarrow> config \<Rightarrow> string option \<times> config" where
  "load path file kv = (case file of
     None \<Rightarrow> (Some (''cannot open '' @ path), kv)
   | Some content \<Rightarrow> load_lines path 0 (getlines (CHR 0x0A) content) kv)"

definition has :: "config \<Rightarrow> string \<Rightarrow> bool" where
  "has kv k \<longleftrightarrow> kv k \<noteq> None"

definition str :: "config \<Rightarrow> string \<Rightarrow> string \<Rightarrow> string" where
  "str kv k dflt = (case kv k of None \<Rightarrow> dflt | Some v \<Rightarrow> v)"

definition num :: "config \<Rightarrow> string \<Rightarrow> u32 \<Rightarrow> u32" where
  "num kv k dflt = (case kv k of None \<Rightarrow> dflt | Some v \<Rightarrow> of_nat (strtoul0 v))"

definition real_of :: "(string \<Rightarrow> 'd) \<Rightarrow> config \<Rightarrow> string \<Rightarrow> 'd \<Rightarrow> 'd" where
  "real_of strtod kv k dflt = (case kv k of None \<Rightarrow> dflt | Some v \<Rightarrow> strtod v)"

definition units :: "config \<Rightarrow> string \<Rightarrow> u8 list \<Rightarrow> u8 list" where
  "units kv k dflt = (case kv k of
     None \<Rightarrow> dflt
   | Some s \<Rightarrow>
       let v = map (\<lambda>t. of_nat (strtoul0 t)) (filter (\<lambda>t. t \<noteq> []) (map trim (getlines (CHR '','') s)))
       in if v = [] then dflt else v)"

section \<open>Searching and trimming\<close>

lemma find_first_Some:
  "find_first P s = Some i \<longleftrightarrow> i < length s \<and> P (s ! i) \<and> (\<forall>j < i. \<not> P (s ! j))"
proof (induction s arbitrary: i)
  case (Cons c s)
  then show ?case
    by (cases i) (auto simp: less_Suc_eq_0_disj)
qed simp

lemma find_first_None: "find_first P s = None \<longleftrightarrow> (\<forall>c \<in> set s. \<not> P c)"
  by (induction s) auto

lemma find_first_append:
  "\<forall>c \<in> set s. \<not> P c \<Longrightarrow> find_first P (s @ t) = map_option (\<lambda>i. length s + i) (find_first P t)"
  by (cases "find_first P t"; induction s) auto

lemma find_last_None: "find_last P s = None \<longleftrightarrow> (\<forall>c \<in> set s. \<not> P c)"
  by (induction s) (auto split: option.splits)

lemma find_last_append: "find_last P (s @ t) =
  (case find_last P t of Some i \<Rightarrow> Some (length s + i) | None \<Rightarrow> find_last P s)"
  by (cases "find_last P t"; induction s) (auto split: option.splits)

lemma find_last_snoc: "P c \<Longrightarrow> find_last P (s @ [c]) = Some (length s)"
  by (simp add: find_last_append)

text \<open>A string without blanks at its ends, surrounded by blanks.\<close>

definition trimmed :: "string \<Rightarrow> bool" where
  "trimmed s \<longleftrightarrow> (s = [] \<or> \<not> blank (hd s) \<and> \<not> blank (last s))"

lemma trim_surrounded:
  assumes "\<forall>c \<in> set l. blank c" and "\<forall>c \<in> set r. blank c" and "trimmed s"
  shows "trim (l @ s @ r) = s"
proof (cases "s = []")
  case True
  have "find_first (\<lambda>c. \<not> blank c) (l @ r) = None"
    using assms(1,2) by (auto simp: find_first_None)
  then show ?thesis
    using True by (simp add: trim_def)
next
  case False
  then obtain d e where s: "s = d @ [e]" "\<not> blank e"
    using assms(3) by (metis append_butlast_last_id trimmed_def)
  have "find_last (\<lambda>c. \<not> blank c) r = None"
    using assms(2) by (simp add: find_last_None)
  then have last: "find_last (\<lambda>c. \<not> blank c) (l @ s @ r) = Some (length l + length d)"
    using find_last_snoc [of "\<lambda>c. \<not> blank c" e d] s by (simp add: find_last_append)
  have "find_first (\<lambda>c. \<not> blank c) s = Some 0"
    using assms(3) False by (cases s) (auto simp: trimmed_def)
  then have "find_first (\<lambda>c. \<not> blank c) (s @ r) = Some 0"
    using False by (cases s) (auto split: if_splits)
  then have first: "find_first (\<lambda>c. \<not> blank c) (l @ s @ r) = Some (length l)"
    using find_first_append [of l "\<lambda>c. \<not> blank c" "s @ r"] assms(1) by simp
  have "length l + length d - length l + 1 = length s"
    by (simp add: s(1))
  then show ?thesis
    by (simp only: trim_def first last option.case) (simp add: substr_def)
qed

lemma trim_id: "trimmed s \<Longrightarrow> trim s = s"
  using trim_surrounded [of "[]" "[]" s] by simp

section \<open>Lines and pieces\<close>

lemma getlines_Nil [simp]: "getlines d [] = []"
  by (simp add: getlines.simps)

lemma getlines_delim: "d \<notin> set l \<Longrightarrow> getlines d (l @ d # rest) = l # getlines d rest"
  by (subst getlines.simps) (simp add: takeWhile_append dropWhile_append)

lemma getlines_last:
  assumes "d \<notin> set l" and "l \<noteq> []"
  shows "getlines d l = [l]"
proof -
  have dw: "dropWhile (\<lambda>c. c \<noteq> d) l = []" and tw: "takeWhile (\<lambda>c. c \<noteq> d) l = l"
    using assms(1) by (auto simp: takeWhile_eq_all_conv)
  show ?thesis
    using assms(2) by (subst getlines.simps, subst dw, subst tw) simp
qed

lemma getlines_lines:
  "\<forall>l \<in> set ls. d \<notin> set l \<Longrightarrow> getlines d (concat (map (\<lambda>l. l @ [d]) ls) @ rest) = ls @ getlines d rest"
  by (induction ls) (simp_all add: getlines_delim)

text \<open>Pieces separated by a delimiter.\<close>

fun join :: "char \<Rightarrow> string list \<Rightarrow> string" where
  "join d [] = []"
| "join d [p] = p"
| "join d (p # ps) = p @ d # join d ps"

lemma getlines_join:
  "\<forall>p \<in> set ps. d \<notin> set p \<and> p \<noteq> [] \<Longrightarrow> getlines d (join d ps) = ps"
  by (induction d ps rule: join.induct) (simp_all add: getlines_delim getlines_last)

section \<open>Numbers\<close>

lemma of_char_digit: "k < 10 \<Longrightarrow> of_char (digit k) = (48 + k :: nat)"
  by (simp add: digit_def of_char_of)

lemma digit_value_digit [simp]: "k < 10 \<Longrightarrow> digit_value (digit k) = Some k"
  by (simp add: digit_value_def of_char_digit Let_def)

lemma is_digit_digit [simp]: "k < 10 \<Longrightarrow> is_digit base (digit k) \<longleftrightarrow> k < base"
  by (simp add: is_digit_def)

lemma space_code: "is_space c \<Longrightarrow> (of_char c :: nat) < 48"
  by (auto simp: is_space_def blank_def)

lemma digit_not_space [simp]: "k < 10 \<Longrightarrow> \<not> is_space (digit k)" "k < 10 \<Longrightarrow> \<not> blank (digit k)"
  using space_code [of "digit k"] by (auto simp: of_char_digit is_space_def)

lemma digit_neq: "k < 10 \<Longrightarrow> (of_char c :: nat) < 48 \<Longrightarrow> digit k \<noteq> c"
  using of_char_digit [of k] by auto

lemma digit_eq_0: "k < 10 \<Longrightarrow> digit k = CHR ''0'' \<longleftrightarrow> k = 0"
proof -
  assume k: "k < 10"
  have "digit 0 = CHR ''0''" by code_simp
  moreover have "digit k = CHR ''0'' \<Longrightarrow> k = 0"
    using of_char_digit [OF k] by simp
  ultimately show ?thesis by blast
qed

lemma to_string_digits: "\<forall>c \<in> set (to_string_nat n). \<exists>k < 10. c = digit k"
proof (induction n rule: to_string_nat.induct)
  case (1 n)
  then show ?case
    by (subst to_string_nat.simps) (auto intro!: exI [of _ "n mod 10"])
qed

lemma to_string_nonempty [simp]: "to_string_nat n \<noteq> []"
  by (subst to_string_nat.simps) simp

lemma to_string_hd: "hd (to_string_nat n) = CHR ''0'' \<Longrightarrow> n = 0"
proof (induction n rule: to_string_nat.induct)
  case (1 n)
  show ?case
  proof (cases "n < 10")
    case True
    then show ?thesis
      using 1(2) digit_eq_0 [of n] by (simp add: to_string_nat.simps [of n])
  next
    case False
    then have "n div 10 = 0"
      using 1 to_string_nat.simps [of n] by (simp add: hd_append)
    then show ?thesis using False by simp
  qed
qed

lemma digits_value_snoc:
  "digits_value b (ds @ [c]) = digits_value b ds * b + the (digit_value c)"
  by (simp add: digits_value_def)

lemma digits_value_to_string: "digits_value 10 (to_string_nat n) = n"
proof (induction n rule: to_string_nat.induct)
  case (1 n)
  then show ?case
    by (subst to_string_nat.simps) (auto simp: digits_value_snoc, simp add: digits_value_def)
qed

lemma scan_to_string:
  assumes "n < 10 \<Longrightarrow> n < base" and "10 \<le> n \<Longrightarrow> base = 10"
  shows "scan_digits base (to_string_nat n) = Some n"
proof -
  have tw: "takeWhile (is_digit base) (to_string_nat n) = to_string_nat n"
    using to_string_digits [of n] assms
    by (cases "n < 10") (auto simp: takeWhile_eq_all_conv to_string_nat.simps [of n])
  have dv: "digits_value base (to_string_nat n) = n"
  proof (cases "n < 10")
    case True
    then show ?thesis by (simp add: to_string_nat.simps [of n] digits_value_def)
  next
    case False
    then show ?thesis using assms(2) digits_value_to_string by simp
  qed
  show ?thesis
    unfolding scan_digits_def tw using dv to_string_nonempty [of n]
    by (cases "to_string_nat n") simp_all
qed

lemma drop_no_space: "\<not> is_space (hd s) \<Longrightarrow> dropWhile is_space s = s"
  by (cases s) auto

lemma strtoul0_to_string:
  assumes "n \<le> ULONG_MAX"
  shows "strtoul0 (to_string_nat n) = n"
proof -
  obtain k where k: "k < 10" "hd (to_string_nat n) = digit k"
    using to_string_digits [of n] by (metis hd_in_set to_string_nonempty)
  then have "\<not> is_space (hd (to_string_nat n))" by simp
  then have space: "dropWhile is_space (to_string_nat n) = to_string_nat n"
    by (rule drop_no_space)
  have "digit k \<noteq> CHR ''-''" "digit k \<noteq> CHR ''+''"
    using digit_neq [OF k(1)] by simp_all
  then have sign: "split_sign (to_string_nat n) = (False, to_string_nat n)"
    using k by (cases "to_string_nat n") (simp_all add: split_sign_def)
  have small: "ulong_result False n = n"
    using assms by (simp add: ulong_result_def)
  show ?thesis
  proof (cases "n < 10")
    case True
    then have "to_string_nat n = [digit n]" by (simp add: to_string_nat.simps [of n])
    then show ?thesis
      using scan_to_string [of n 8] scan_to_string [of n 10] True small digit_eq_0 [OF True] space sign
      by (auto simp: strtoul0_def Let_def)
  next
    case False
    then have "hd (to_string_nat n) \<noteq> CHR ''0''"
      using to_string_hd [of n] by auto
    then show ?thesis
      using scan_to_string [of n 10] False small space sign
      by (cases "to_string_nat n") (auto simp: strtoul0_def Let_def split: list.splits)
  qed
qed

section \<open>A written file\<close>

text \<open>
  A line of a file: a setting with white space around its key and its value and possibly a
  comment, or a line without a setting. The parts in order: space, key, space, space, value,
  space, comment.
\<close>

datatype file_line = Setting string string string string string string string | Remark string string

fun render :: "file_line \<Rightarrow> string" where
  "render (Setting a k b c v d r) = a @ k @ b @ ''='' @ c @ v @ d @ r"
| "render (Remark a r) = a @ r"

definition space :: "string \<Rightarrow> bool" where
  "space s \<longleftrightarrow> (\<forall>c \<in> set s. blank c \<and> c \<noteq> CHR 0x0A)"

definition remark :: "string \<Rightarrow> bool" where
  "remark s \<longleftrightarrow> (s = [] \<or> hd s = CHR ''#'') \<and> CHR 0x0A \<notin> set s"

definition word_ok :: "string \<Rightarrow> bool" where
  "word_ok s \<longleftrightarrow> trimmed s \<and> CHR ''#'' \<notin> set s \<and> CHR 0x0A \<notin> set s"

fun line_ok :: "file_line \<Rightarrow> bool" where
  "line_ok (Setting a k b c v d r) \<longleftrightarrow>
     space a \<and> space b \<and> space c \<and> space d \<and> word_ok k \<and> CHR ''='' \<notin> set k \<and> word_ok v \<and> remark r"
| "line_ok (Remark a r) \<longleftrightarrow> space a \<and> remark r"

fun apply_line :: "file_line \<Rightarrow> config \<Rightarrow> config" where
  "apply_line (Setting a k b c v d r) kv = kv(k \<mapsto> v)"
| "apply_line (Remark a r) kv = kv"

lemma not_blank: "\<not> blank (CHR ''#'')" "\<not> blank (CHR ''='')"
  by (simp_all add: blank_def)

lemma space_no: "space s \<Longrightarrow> CHR ''#'' \<notin> set s \<and> CHR ''='' \<notin> set s \<and> CHR 0x0A \<notin> set s"
  unfolding space_def using not_blank by blast

lemma space_blank: "space s \<Longrightarrow> \<forall>c \<in> set s. blank c"
  by (simp add: space_def)

text \<open>Cutting a comment off.\<close>

lemma cut_comment:
  assumes "CHR ''#'' \<notin> set s" and "remark r"
  shows "uncomment (s @ r) = s"
proof (cases r)
  case Nil
  have "find_first (\<lambda>c. c = CHR ''#'') s = None"
    using assms(1) unfolding find_first_None by blast
  then show ?thesis by (simp add: uncomment_def Nil)
next
  case (Cons c r')
  have "\<forall>c \<in> set s. c \<noteq> CHR ''#''" using assms(1) by blast
  then have "find_first (\<lambda>c. c = CHR ''#'') (s @ r) = Some (length s)"
    using find_first_append [of s "\<lambda>c. c = CHR ''#''" r] assms(2) by (simp add: Cons remark_def)
  then show ?thesis by (simp add: uncomment_def)
qed

lemma load_line_ok:
  assumes "line_ok l"
  shows "load_line path n (render l) kv = Inr (apply_line l kv)"
proof (cases l)
  case (Setting a k b c v d r)
  let ?key = "a @ k @ b" and ?val = "c @ v @ d"
  have ok: "space a" "space b" "space c" "space d" "word_ok k" "CHR ''='' \<notin> set k" "word_ok v" "remark r"
    using assms Setting by simp_all
  have "CHR ''#'' \<notin> set (?key @ ''='' @ ?val)"
    using ok space_no by (simp add: word_ok_def)
  from cut_comment [OF this ok(8)] have cut: "uncomment (render l) = ?key @ ''='' @ ?val"
    by (simp add: Setting)
  have "\<forall>c \<in> set ?key. c \<noteq> CHR ''=''"
    using ok(1,2,6) space_no unfolding set_append by blast
  then have eq: "find_first (\<lambda>c. c = CHR ''='') (?key @ ''='' @ ?val) = Some (length ?key)"
    using find_first_append [of ?key "\<lambda>c. c = CHR ''=''" "''='' @ ?val"] by simp
  have "trim ?key = k" "trim ?val = v"
    using ok by (simp_all add: trim_surrounded space_blank word_ok_def)
  then show ?thesis
    unfolding load_line_def Let_def cut eq by (simp add: Setting substr_def)
next
  case (Remark a r)
  have ok: "space a" "remark r" using assms Remark by simp_all
  have cut: "uncomment (render l) = a"
    using cut_comment [of a r] ok space_no by (simp add: Remark)
  have "find_first (\<lambda>c. c = CHR ''='') a = None" "find_first (\<lambda>c. \<not> blank c) a = None"
    unfolding find_first_None using space_no [OF ok(1)] space_blank [OF ok(1)] by blast+
  then show ?thesis
    unfolding load_line_def Let_def cut by (simp add: Remark)
qed

lemma render_no_newline: "line_ok l \<Longrightarrow> CHR 0x0A \<notin> set (render l)"
  by (cases l) (simp_all add: space_no word_ok_def remark_def)

lemma load_lines_ok:
  "list_all line_ok ls \<Longrightarrow> load_lines path n (map render ls @ rest) kv =
    load_lines path (n + length ls) rest (fold apply_line ls kv)"
  by (induction ls arbitrary: n kv) (simp_all add: load_line_ok)

lemma load_file:
  assumes "list_all line_ok ls"
  shows "load path (Some (concat (map (\<lambda>l. render l @ [CHR 0x0A]) ls) @ rest)) kv =
    load_lines path (length ls) (getlines (CHR 0x0A) rest) (fold apply_line ls kv)"
proof -
  have "\<forall>l \<in> set (map render ls). CHR 0x0A \<notin> set l"
    using assms render_no_newline by (auto simp: list_all_iff)
  from getlines_lines [OF this, of rest] show ?thesis
    using load_lines_ok [OF assms, of path 0] by (simp add: load_def comp_def)
qed

lemma strtoul0_u32: "(of_nat (strtoul0 (to_string_nat (unat n))) :: u32) = n" for n :: u32
proof -
  have "unat n < 2 ^ 32" using unsigned_less [of n] by simp
  then show ?thesis by (simp add: strtoul0_to_string ULONG_MAX_def)
qed

lemma strtoul0_u8: "(of_nat (strtoul0 (to_string_nat (unat n))) :: u8) = n" for n :: u8
  using unat_u8_bound [of n] by (simp add: strtoul0_to_string ULONG_MAX_def)

lemma to_string_trimmed: "trimmed (to_string_nat n)"
  using to_string_digits [of n] hd_in_set [OF to_string_nonempty, of n]
    last_in_set [OF to_string_nonempty, of n] digit_not_space(2)
  by (metis trimmed_def)

lemma comma_not_digit: "CHR '','' \<notin> set (to_string_nat n)"
  using to_string_digits [of n] digit_neq [of _ "CHR '',''"] by fastforce

lemma units_join:
  assumes "kv k = Some (join (CHR '','') (map (\<lambda>u. to_string_nat (unat u)) ids))" and "ids \<noteq> []"
  shows "units kv k dflt = ids"
proof -
  let ?ps = "map (\<lambda>u. to_string_nat (unat u)) ids"
  have pieces: "getlines (CHR '','') (join (CHR '','') ?ps) = ?ps"
    by (rule getlines_join) (auto simp: comma_not_digit)
  have "map (\<lambda>t. of_nat (strtoul0 t)) (filter (\<lambda>t. t \<noteq> []) (map trim ?ps)) = ids"
    by (induction ids) (simp_all add: trim_id to_string_trimmed strtoul0_u8)
  then show ?thesis
    using assms by (simp only: units_def option.case Let_def pieces if_False)
qed

text \<open>A file of one line without a line end.\<close>

lemma config_single_line:
  "load path (Some ''units = 17,34'') Map.empty = (None, [''units'' \<mapsto> ''17,34''])"
proof -
  have "getlines (CHR 0x0A) ''units = 17,34'' = [render (Setting [] ''units'' '' '' '' '' ''17,34'' [] [])]"
    by (subst getlines_last) simp_all
  moreover have "line_ok (Setting [] ''units'' '' '' '' '' ''17,34'' [] [])"
    by code_simp
  ultimately show ?thesis
    by (simp add: load_def load_line_ok del: render.simps)
qed

section \<open>Properties\<close>

text \<open>A configuration file is read as it was written. For any sequence of settings, with any
  white space around keys and values and comments at the end of lines, mixed with blank and
  comment lines, \<open>load\<close> succeeds and gives each key its last value; keys the file does not
  name keep theirs.\<close>

theorem config_load_reads_file:
  assumes "list_all line_ok ls"
  shows "load path (Some (concat (map (\<lambda>l. render l @ [CHR 0x0A]) ls))) kv = (None, fold apply_line ls kv)"
  using load_file [OF assms, of path "[]"] by simp

theorem config_load_reads_file_witness:
  "load ''gateway.conf'' (Some (concat (map (\<lambda>l. render l @ [CHR 0x0A])
      [Remark [] ''# gateway'', Setting [] ''baud'' ''  '' '' '' ''9600'' '' '' ''# slow'', Remark '' '' [],
       Setting '' '' ''units'' [] [] ''17,34'' [] []]))) Map.empty
   = (None, [''baud'' \<mapsto> ''9600'', ''units'' \<mapsto> ''17,34''])"
proof -
  have "list_all line_ok [Remark [] ''# gateway'', Setting [] ''baud'' ''  '' '' '' ''9600'' '' '' ''# slow'', Remark '' '' [],
       Setting '' '' ''units'' [] [] ''17,34'' [] []]"
    by code_simp
  from config_load_reads_file [OF this, of "''gateway.conf''" Map.empty] show ?thesis by simp
qed

text \<open>The first bad line is reported. A line without \<open>=\<close> that holds more than white space and a
  comment makes \<open>load\<close> fail with the path and the number of that line; the settings before it
  have been taken over and nothing after it is read.\<close>

theorem config_load_reports_bad_line:
  assumes "list_all line_ok ls" and "CHR 0x0A \<notin> set bad"
    and "CHR ''='' \<notin> set (uncomment bad)" and "\<not> list_all blank (uncomment bad)"
  shows "load path (Some (concat (map (\<lambda>l. render l @ [CHR 0x0A]) ls) @ bad @ CHR 0x0A # rest)) kv =
    (Some (path @ '':'' @ to_string_nat (length ls + 1) @ '': expected key = value''), fold apply_line ls kv)"
proof -
  have "find_first (\<lambda>c. c = CHR ''='') (uncomment bad) = None"
    and "find_first (\<lambda>c. \<not> blank c) (uncomment bad) \<noteq> None"
    unfolding find_first_None using assms(3,4) by (blast, simp add: list_all_iff)
  then have "load_line path (length ls + 1) bad (fold apply_line ls kv) =
      Inl (path @ '':'' @ to_string_nat (length ls + 1) @ '': expected key = value'')"
    unfolding load_line_def Let_def by simp
  then show ?thesis
    using load_file [OF assms(1), of path "bad @ CHR 0x0A # rest" kv] by (simp add: getlines_delim [OF assms(2)])
qed

theorem config_load_reports_bad_line_witness:
  "load ''g.conf'' (Some (concat (map (\<lambda>l. render l @ [CHR 0x0A]) [Setting [] ''baud'' [] [] ''9600'' [] []]) @
      ''baud 9600 # = '' @ CHR 0x0A # ''port = 1'')) Map.empty
   = (Some ''g.conf:2: expected key = value'', [''baud'' \<mapsto> ''9600''])"
proof -
  have "list_all line_ok [Setting [] ''baud'' [] [] ''9600'' [] []]" "CHR 0x0A \<notin> set ''baud 9600 # = ''"
    "CHR ''='' \<notin> set (uncomment ''baud 9600 # = '')" "\<not> list_all blank (uncomment ''baud 9600 # = '')"
    by code_simp+
  from config_load_reports_bad_line [OF this, of "''g.conf''" "''port = 1''" Map.empty]
  have "load ''g.conf'' (Some (concat (map (\<lambda>l. render l @ [CHR 0x0A]) [Setting [] ''baud'' [] [] ''9600'' [] []]) @
      ''baud 9600 # = '' @ CHR 0x0A # ''port = 1'')) Map.empty
   = (Some (''g.conf'' @ '':'' @ to_string_nat (length [Setting [] ''baud'' [] [] ''9600'' [] []] + 1) @
       '': expected key = value''), fold apply_line [Setting [] ''baud'' [] [] ''9600'' [] []] Map.empty)" .
  moreover have "''g.conf'' @ '':'' @ to_string_nat (length [Setting [] ''baud'' [] [] ''9600'' [] []] + 1) @
      '': expected key = value'' = ''g.conf:2: expected key = value''"
    by code_simp
  ultimately show ?thesis by simp
qed

text \<open>Numbers survive the file. A value printed in decimal is read back by \<open>num\<close>, for every
  32-bit number, and a list of unit ids printed with commas is read back by \<open>units\<close>.\<close>

theorem config_values_roundtrip:
  assumes "ids \<noteq> []"
  shows "num (kv(k \<mapsto> to_string_nat (unat n))) k dflt = n \<and>
    units (kv(k \<mapsto> join (CHR '','') (map (\<lambda>u. to_string_nat (unat u)) ids))) k dflts = ids"
  using assms by (simp add: units_join num_def strtoul0_u32)

theorem config_values_roundtrip_witness:
  "num (Map.empty(''baud'' \<mapsto> to_string_nat (unat (115200 :: u32)))) ''baud'' 19200 = 115200 \<and>
    units (Map.empty(''units'' \<mapsto> join (CHR '','') (map (\<lambda>u. to_string_nat (unat u)) [17, 34 :: u8]))) ''units'' [1] = [17, 34]"
proof
  have "[17, 34 :: u8] \<noteq> []" by simp
  from config_values_roundtrip [OF this]
  show "num (Map.empty(''baud'' \<mapsto> to_string_nat (unat (115200 :: u32)))) ''baud'' 19200 = 115200"
    and "units (Map.empty(''units'' \<mapsto> join (CHR '','') (map (\<lambda>u. to_string_nat (unat u)) [17, 34 :: u8]))) ''units'' [1] = [17, 34]"
    by blast+
qed

end
