(* ===== verification/Options.thy ===== *)
theory Options
  imports Config Serial_Rtu
begin

text \<open>
  The start of \<open>main\<close> in \<open>src/main.cpp\<close>: the command line, the merge with the configuration
  file, and the choice of the transport. An exception of \<open>std::stoi\<close> and the like that nothing
  catches is an outcome of its own. Floating-point numbers are a type parameter \<open>'d\<close> whose
  operations are the record \<open>floating\<close>.
\<close>

section \<open>The standard library\<close>

datatype std_exception = Invalid_argument | Out_of_range

definition stoi :: "string \<Rightarrow> std_exception + int" where
  "stoi s = (case split_sign (dropWhile is_space s) of (neg, r) \<Rightarrow>
     case scan_digits 10 r of
       None \<Rightarrow> Inl Invalid_argument
     | Some n \<Rightarrow>
         let v = (if neg then - int n else int n) in
         if v < - (2 ^ 31) \<or> 2 ^ 31 \<le> v then Inl Out_of_range else Inr v)"

definition stoul :: "string \<Rightarrow> std_exception + nat" where
  "stoul s = (case split_sign (dropWhile is_space s) of (neg, r) \<Rightarrow>
     case scan_digits 10 r of
       None \<Rightarrow> Inl Invalid_argument
     | Some n \<Rightarrow> if ULONG_MAX < n then Inl Out_of_range else Inr (ulong_result neg n))"

text \<open>\<open>s.find(d, start)\<close>.\<close>

definition find_from :: "string \<Rightarrow> char \<Rightarrow> nat \<Rightarrow> nat option" where
  "find_from s d start = map_option (\<lambda>i. start + i) (find_first (\<lambda>c. c = d) (drop start s))"

lemma find_from_bounds: "find_from s d start = Some c \<Longrightarrow> start \<le> c \<and> c < length s"
  by (auto simp: find_from_def find_first_Some)

text \<open>\<open>std::stod\<close>, \<open>std::strtod\<close>, and the comparisons with \<open>0.0\<close> the code makes.\<close>

record 'd floating =
  stod :: "string \<Rightarrow> std_exception + 'd"
  strtod :: "string \<Rightarrow> 'd"
  zero_d :: 'd
  is_zero :: "'d \<Rightarrow> bool"
  is_positive :: "'d \<Rightarrow> bool"

section \<open>The code\<close>

record 'd options =
  opt_port :: u16
  opt_units :: "u8 list"
  opt_drop :: 'd
  opt_corrupt :: 'd
  opt_seed :: u32
  opt_quiet :: bool
  opt_config_file :: string
  opt_serial_port :: string
  opt_baud :: u32
  opt_resp_timeout_ms :: u32

definition default_options :: "'d floating \<Rightarrow> 'd options" where
  "default_options F = \<lparr>opt_port = 5020, opt_units = [0x11, 0x22, 0x33], opt_drop = zero_d F,
     opt_corrupt = zero_d F, opt_seed = 1, opt_quiet = False, opt_config_file = '''',
     opt_serial_port = '''', opt_baud = 19200, opt_resp_timeout_ms = 300\<rparr>"

function parse_units_loop :: "string \<Rightarrow> nat \<Rightarrow> u8 list \<Rightarrow> std_exception + u8 list" where
  "parse_units_loop s start v =
     (if start \<le> length s then
        let comma = find_from s (CHR '','') start;
            piece = (case comma of None \<Rightarrow> drop start s | Some c \<Rightarrow> substr s start (c - start));
            r = (if piece = [] then Inr v
                 else case stoi piece of Inl e \<Rightarrow> Inl e | Inr i \<Rightarrow> Inr (v @ [word_of_int i]))
        in case r of
             Inl e \<Rightarrow> Inl e
           | Inr v \<Rightarrow> (case comma of None \<Rightarrow> Inr v | Some c \<Rightarrow> parse_units_loop s (c + 1) v)
      else Inr v)"
  by pat_completeness auto
termination
proof (relation "measure (\<lambda>(s, start, v). Suc (length s) - start)", goal_cases)
  case (2 s start v x xa xb b x2)
  have "find_from s (CHR '','') start = Some x2" using 2(2) 2(6) by simp
  then have "start \<le> x2" by (auto dest: find_from_bounds)
  with 2(1) show ?case by simp
qed simp

declare parse_units_loop.simps [simp del]

definition parse_units :: "string \<Rightarrow> std_exception + u8 list" where
  "parse_units s = parse_units_loop s 0 []"

text \<open>\<open>main\<close> goes on with the options, returns an exit code, or ends by an exception.\<close>

datatype 'd startup = Start "'d options" | Exit int | Uncaught std_exception

text \<open>
  The loop over \<open>argv\<close>. The lambda \<open>next\<close> takes the following argument, or the empty string
  at the end.
\<close>

function parse_args :: "'d floating \<Rightarrow> string list \<Rightarrow> 'd options \<Rightarrow> 'd startup" where
  "parse_args F [] opt = Start opt"
| "parse_args F (a # args) opt =
     (let next = (if args = [] then '''' else hd args); rest = drop 1 args in
      if a = ''--port'' then
        (case stoi next of Inl e \<Rightarrow> Uncaught e
         | Inr i \<Rightarrow> parse_args F rest (opt\<lparr>opt_port := word_of_int i\<rparr>))
      else if a = ''--units'' then
        (case parse_units next of Inl e \<Rightarrow> Uncaught e
         | Inr u \<Rightarrow> parse_args F rest (opt\<lparr>opt_units := u\<rparr>))
      else if a = ''--drop'' then
        (case stod F next of Inl e \<Rightarrow> Uncaught e
         | Inr d \<Rightarrow> parse_args F rest (opt\<lparr>opt_drop := d\<rparr>))
      else if a = ''--corrupt'' then
        (case stod F next of Inl e \<Rightarrow> Uncaught e
         | Inr d \<Rightarrow> parse_args F rest (opt\<lparr>opt_corrupt := d\<rparr>))
      else if a = ''--seed'' then
        (case stoul next of Inl e \<Rightarrow> Uncaught e
         | Inr n \<Rightarrow> parse_args F rest (opt\<lparr>opt_seed := of_nat n\<rparr>))
      else if a = ''--quiet'' then parse_args F args (opt\<lparr>opt_quiet := True\<rparr>)
      else if a = ''--config'' then parse_args F rest (opt\<lparr>opt_config_file := next\<rparr>)
      else if a = ''--serial'' then parse_args F rest (opt\<lparr>opt_serial_port := next\<rparr>)
      else if a = ''--baud'' then
        (case stoul next of Inl e \<Rightarrow> Uncaught e
         | Inr n \<Rightarrow> parse_args F rest (opt\<lparr>opt_baud := of_nat n\<rparr>))
      else if a = ''--timeout'' then
        (case stoul next of Inl e \<Rightarrow> Uncaught e
         | Inr n \<Rightarrow> parse_args F rest (opt\<lparr>opt_resp_timeout_ms := of_nat n\<rparr>))
      else if a = ''--help'' then Exit 0
      else Exit 2)"
  by pat_completeness auto
termination
  by (relation "measure (\<lambda>(F, args, opt). length args)") auto

definition merge_config :: "'d floating \<Rightarrow> config \<Rightarrow> 'd options \<Rightarrow> 'd options" where
  "merge_config F kv opt =
     (let opt = (if opt_port opt = 5020 then opt\<lparr>opt_port := ucast (num kv ''tcp_port'' 5020)\<rparr> else opt);
          opt = (if opt_serial_port opt = '''' then opt\<lparr>opt_serial_port := str kv ''serial_port'' ''''\<rparr> else opt);
          opt = (if opt_baud opt = 19200 then opt\<lparr>opt_baud := num kv ''baud'' 19200\<rparr> else opt);
          opt = (if opt_resp_timeout_ms opt = 300
                 then opt\<lparr>opt_resp_timeout_ms := num kv ''response_timeout_ms'' 300\<rparr> else opt);
          opt = (if is_zero F (opt_drop opt)
                 then opt\<lparr>opt_drop := real_of (strtod F) kv ''inject_drop'' (zero_d F)\<rparr> else opt);
          opt = (if is_zero F (opt_corrupt opt)
                 then opt\<lparr>opt_corrupt := real_of (strtod F) kv ''inject_corrupt'' (zero_d F)\<rparr> else opt);
          opt = (if opt_seed opt = 1 then opt\<lparr>opt_seed := num kv ''inject_seed'' 1\<rparr> else opt)
      in opt\<lparr>opt_units := units kv ''units'' (opt_units opt)\<rparr>)"

text \<open>\<open>files\<close> is the content of the files that can be opened.\<close>

definition start_options :: "'d floating \<Rightarrow> (string \<Rightarrow> string option) \<Rightarrow> string list \<Rightarrow> 'd startup" where
  "start_options F files args = (case parse_args F args (default_options F) of
     Start opt \<Rightarrow>
       if opt_config_file opt \<noteq> '''' then
         (case load (opt_config_file opt) (files (opt_config_file opt)) Map.empty of
            (Some err, kv) \<Rightarrow> Exit 2
          | (None, kv) \<Rightarrow> Start (merge_config F kv opt))
       else Start opt
   | r \<Rightarrow> r)"

text \<open>The transport \<open>main\<close> builds: the backend, and the fault injector around it if any.\<close>

datatype backend = Serial_backend serial_config | In_process_backend "u8 list" u16

definition select_backend :: "'d options \<Rightarrow> backend" where
  "select_backend opt =
     (if opt_serial_port opt \<noteq> '''' then
        Serial_backend (default_serial_config\<lparr>port := opt_serial_port opt, baud := opt_baud opt,
          response_timeout_ms := opt_resp_timeout_ms opt\<rparr>)
      else In_process_backend (opt_units opt) 64)"

definition fault_injection :: "'d floating \<Rightarrow> 'd options \<Rightarrow> 'd fault_config option" where
  "fault_injection F opt =
     (if is_positive F (opt_drop opt) \<or> is_positive F (opt_corrupt opt)
      then Some \<lparr>drop_rate = opt_drop opt, corrupt_rate = opt_corrupt opt, seed = opt_seed opt\<rparr>
      else None)"

section \<open>Numbers on the command line\<close>

lemma split_sign_to_string:
  "split_sign (dropWhile is_space (to_string_nat n)) = (False, to_string_nat n)"
proof -
  obtain k where k: "k < 10" "hd (to_string_nat n) = digit k"
    using to_string_digits [of n] by (metis hd_in_set to_string_nonempty)
  then have "dropWhile is_space (to_string_nat n) = to_string_nat n"
    by (intro drop_no_space) simp
  moreover have "digit k \<noteq> CHR ''-''" "digit k \<noteq> CHR ''+''"
    using digit_neq [OF k(1)] by simp_all
  ultimately show ?thesis
    using k by (cases "to_string_nat n") (simp_all add: split_sign_def)
qed

lemma stoi_to_string: "n < 2 ^ 31 \<Longrightarrow> stoi (to_string_nat n) = Inr (int n)"
  by (simp add: stoi_def split_sign_to_string scan_to_string Let_def)

lemma stoul_to_string: "n \<le> ULONG_MAX \<Longrightarrow> stoul (to_string_nat n) = Inr n"
  by (simp add: stoul_def split_sign_to_string scan_to_string ulong_result_def)

lemma stoi_unit: "stoi (to_string_nat (unat u)) = Inr (int (unat u))" for u :: u8
  using unat_u8_bound [of u] by (intro stoi_to_string) simp

lemma find_comma:
  assumes "\<forall>c \<in> set p. c \<noteq> d"
  shows "find_from (pre @ p @ d # r) d (length pre) = Some (length pre + length p)"
    and "find_from (pre @ p) d (length pre) = None"
  using assms find_first_append [of p "\<lambda>c. c = d" "d # r"]
  by (simp_all add: find_from_def find_first_None)

lemma parse_units_step:
  fixes u :: u8 and pre r :: string
  defines "p \<equiv> to_string_nat (unat u)"
  shows "parse_units_loop (pre @ p @ CHR '','' # r) (length pre) v =
      parse_units_loop (pre @ p @ CHR '','' # r) (length pre + length p + 1) (v @ [u])"
    and "parse_units_loop (pre @ p) (length pre) v = Inr (v @ [u])"
proof -
  have p: "\<forall>c \<in> set p. c \<noteq> CHR '',''" "p \<noteq> []" "stoi p = Inr (int (unat u))"
    using comma_not_digit [of "unat u"] stoi_unit [of u] unfolding p_def by (blast, simp, simp)
  note f = find_comma [OF p(1), of pre]
  have "substr (pre @ p @ CHR '','' # r) (length pre) (length p) = p"
    by (simp add: substr_def)
  then show "parse_units_loop (pre @ p @ CHR '','' # r) (length pre) v =
      parse_units_loop (pre @ p @ CHR '','' # r) (length pre + length p + 1) (v @ [u])"
    by (subst parse_units_loop.simps) (simp add: f(1) p(2,3))
  show "parse_units_loop (pre @ p) (length pre) v = Inr (v @ [u])"
    by (subst parse_units_loop.simps) (simp add: f(2) p(2,3))
qed

lemma parse_units_join:
  "ids \<noteq> [] \<Longrightarrow> parse_units_loop (pre @ join (CHR '','') (map (\<lambda>u. to_string_nat (unat u)) ids)) (length pre) v
    = Inr (v @ ids)"
proof (induction ids arbitrary: pre v rule: list_nonempty_induct)
  case (single u)
  then show ?case by (simp add: parse_units_step(2))
next
  case (cons u ids)
  let ?tail = "join (CHR '','') (map (\<lambda>u. to_string_nat (unat u)) ids)" and ?u = "to_string_nat (unat u)"
  have "join (CHR '','') (map (\<lambda>u. to_string_nat (unat u)) (u # ids)) = ?u @ CHR '','' # ?tail"
    using cons(1) by (cases ids) simp_all
  then show ?case
    using cons(2) [of "pre @ ?u @ [CHR '','']" "v @ [u]"] by (simp add: parse_units_step(1))
qed

lemma stoul_u32: "stoul (to_string_nat (unat n)) = Inr (unat n)" for n :: u32
proof -
  have "unat n < 2 ^ 32" using unsigned_less [of n] by simp
  then show ?thesis by (intro stoul_to_string) (simp add: ULONG_MAX_def)
qed

section \<open>Properties\<close>

text \<open>The command line reads back what an operator writes. A list of unit ids printed in decimal
  with commas is parsed to exactly these ids, and every number printed in decimal that fits the
  option is taken over by \<open>--port\<close>, \<open>--baud\<close>, \<open>--seed\<close> and \<open>--timeout\<close>.\<close>

theorem command_line_roundtrip:
  assumes "ids \<noteq> []"
  shows "parse_units (join (CHR '','') (map (\<lambda>u. to_string_nat (unat u)) ids)) = Inr ids \<and>
    parse_args F [''--port'', to_string_nat (unat p), ''--baud'', to_string_nat (unat b),
        ''--seed'', to_string_nat (unat n), ''--timeout'', to_string_nat (unat t)] opt =
      Start (opt\<lparr>opt_port := p, opt_baud := b, opt_seed := n, opt_resp_timeout_ms := t\<rparr>)"
  using parse_units_join [OF assms, of "[]" "[]"] unat_u16_bound [of p]
    stoi_to_string [of "unat p"] stoul_u32 [of b] stoul_u32 [of n] stoul_u32 [of t]
  by (simp add: parse_units_def)

theorem command_line_roundtrip_witness:
  "parse_units (join (CHR '','') (map (\<lambda>u. to_string_nat (unat u)) [17, 34 :: u8])) = Inr [17, 34]"
proof -
  have "[17, 34 :: u8] \<noteq> []" by simp
  from command_line_roundtrip [OF this] show ?thesis by blast
qed

text \<open>C40: The configuration file does not yield to the command line for \<open>units\<close>. With a baud rate
  other than the default on the command line, that rate is used whatever the file says; but the
  units of the file replace the units given on the command line, although \<open>config.hpp\<close> and
  \<open>gateway.conf\<close> promise an override for every key.\<close>

theorem config_file_overrides_units:
  fixes cli_units file_units :: "u8 list"
  assumes "files f = Some content" and "load f (Some content) Map.empty = (None, kv)" and "f \<noteq> []"
    and "cli_units \<noteq> []" and "file_units \<noteq> []" and "b \<noteq> 19200"
    and "kv ''units'' = Some (join (CHR '','') (map (\<lambda>u. to_string_nat (unat u)) file_units))"
  shows "\<exists>opt. start_options F files [''--config'', f, ''--baud'', to_string_nat (unat b),
      ''--units'', join (CHR '','') (map (\<lambda>u. to_string_nat (unat u)) cli_units)] = Start opt \<and>
    opt_baud opt = b \<and> opt_units opt = file_units"
proof -
  let ?cli = "(default_options F)\<lparr>opt_config_file := f, opt_baud := b, opt_units := cli_units\<rparr>"
  have "parse_args F [''--config'', f, ''--baud'', to_string_nat (unat b),
      ''--units'', join (CHR '','') (map (\<lambda>u. to_string_nat (unat u)) cli_units)] (default_options F) = Start ?cli"
    using parse_units_join [OF assms(4), of "[]" "[]"] stoul_u32 [of b]
    by (simp add: parse_units_def default_options_def)
  then have "start_options F files [''--config'', f, ''--baud'', to_string_nat (unat b),
      ''--units'', join (CHR '','') (map (\<lambda>u. to_string_nat (unat u)) cli_units)] = Start (merge_config F kv ?cli)"
    using assms(1-3) by (simp add: start_options_def)
  moreover have "opt_baud (merge_config F kv ?cli) = b"
    using assms(6) by (simp add: merge_config_def Let_def)
  moreover have "opt_units (merge_config F kv ?cli) = file_units"
    using units_join [where kv = kv, OF assms(7,5)] by (simp add: merge_config_def Let_def)
  ultimately show ?thesis by blast
qed

text \<open>A library of floating-point functions for the examples: every text is the number 0.\<close>

definition demo_floating :: "int floating" where
  "demo_floating = \<lparr>stod = \<lambda>_. Inr 0, strtod = \<lambda>_. 0, zero_d = 0, is_zero = \<lambda>d. d = 0, is_positive = \<lambda>d. d > 0\<rparr>"

theorem config_file_overrides_units_witness:
  "\<exists>opt. start_options demo_floating (\<lambda>_. Some ''units = 17,34'')
      [''--config'', ''gw.conf'', ''--baud'', to_string_nat (unat (9600 :: u32)),
       ''--units'', join (CHR '','') (map (\<lambda>u. to_string_nat (unat u)) [5 :: u8])] = Start opt \<and>
    opt_baud opt = 9600 \<and> opt_units opt = [17, 34]"
proof (rule config_file_overrides_units)
  let ?kv = "[''units'' \<mapsto> ''17,34'']"
  show "load ''gw.conf'' (Some ''units = 17,34'') Map.empty = (None, ?kv)"
    using config_single_line by simp
  have "join (CHR '','') (map (\<lambda>u. to_string_nat (unat u)) [17, 34 :: u8]) = ''17,34''"
    by code_simp
  then show "?kv ''units'' = Some (join (CHR '','') (map (\<lambda>u. to_string_nat (unat u)) [17, 34 :: u8]))"
    by simp
qed simp_all

text \<open>A missing or unreadable number ends the process by an exception. When the argument of a
  numeric option is absent, or has no decimal digits, \<open>main\<close> neither reports a usage error nor
  returns an exit code: the exception of the conversion is not caught.\<close>

theorem missing_number_uncaught:
  assumes "opt_name \<in> {''--port'', ''--seed'', ''--baud'', ''--timeout''}"
    and "rest = [] \<or> scan_digits 10 (snd (split_sign (dropWhile is_space (hd rest)))) = None"
  shows "parse_args F (opt_name # rest) opt = Uncaught Invalid_argument"
proof -
  have none: "scan_digits 10 (snd (split_sign (dropWhile is_space (if rest = [] then [] else hd rest)))) = None"
    using assms(2) by (auto simp: split_sign_def scan_digits_def)
  have num: "stoi (if rest = [] then [] else hd rest) = Inl Invalid_argument"
    "stoul (if rest = [] then [] else hd rest) = Inl Invalid_argument"
    using none by (simp_all only: stoi_def stoul_def split_beta option.case)
  consider "opt_name = ''--port''" | "opt_name = ''--seed''" | "opt_name = ''--baud''" | "opt_name = ''--timeout''"
    using assms(1) by blast
  then show ?thesis
    by cases (simp_all add: num)
qed

theorem missing_number_uncaught_witness:
  "parse_args demo_floating [''--port'', ''modbus''] (default_options demo_floating) = Uncaught Invalid_argument"
proof (rule missing_number_uncaught)
  show "[''modbus''] = [] \<or> scan_digits 10 (snd (split_sign (dropWhile is_space (hd [''modbus''])))) = None"
    by code_simp
qed simp

end
