(* ===== verification/Startup.thy ===== *)
theory Startup
  imports End_To_End Serial_Rtu Options
begin

text \<open>
  From the options to the running process: the transport that \<open>main\<close> of \<open>src/main.cpp\<close> builds
  from the options, as one transport under the gateway. The dynamic dispatch of \<open>IRtuTransport\<close>
  becomes a case distinction. Whatever the options, the result satisfies the contract
  \<open>rtu_transport\<close>; without a serial line, with or without the fault injector, also
  \<open>addressed_transport\<close>.
\<close>

section \<open>The transport of the process\<close>

datatype 'e rtu_backend = Serial_rtu "'e serial" | In_process_rtu in_process

fun backend_transact :: "('e, 'm) posix \<Rightarrow> (nat \<Rightarrow> u8) \<Rightarrow> 'e rtu_backend transact" where
  "backend_transact px garbage (Serial_rtu s) req rsp = do {
     (ok, rsp, s) \<leftarrow> serial_transact px s req rsp;
     Some (ok, rsp, Serial_rtu s) }"
| "backend_transact px garbage (In_process_rtu t) req rsp = do {
     (ok, rsp, t) \<leftarrow> in_process_transact garbage t req rsp;
     Some (ok, rsp, In_process_rtu t) }"

datatype ('e, 'g, 'd) gateway_rtu =
    Plain "'e rtu_backend"
  | With_faults "('e rtu_backend, 'g, 'd) faulty"

fun rtu_transact :: "('e, 'm) posix \<Rightarrow> (nat \<Rightarrow> u8) \<Rightarrow> ('d \<Rightarrow> 'g \<Rightarrow> bool \<times> 'g) \<Rightarrow>
    (nat \<Rightarrow> 'g \<Rightarrow> nat \<times> 'g) \<Rightarrow> ('e, 'g, 'd) gateway_rtu transact" where
  "rtu_transact px garbage below pick (Plain b) req rsp = do {
     (ok, rsp, b) \<leftarrow> backend_transact px garbage b req rsp;
     Some (ok, rsp, Plain b) }"
| "rtu_transact px garbage below pick (With_faults f) req rsp = do {
     (ok, rsp, f) \<leftarrow> faulty_transact below pick (backend_transact px garbage) f req rsp;
     Some (ok, rsp, With_faults f) }"

fun construct_backend :: "backend \<Rightarrow> 'e \<Rightarrow> 'e rtu_backend option" where
  "construct_backend (Serial_backend sc) e = Some (Serial_rtu (new_serial sc e))"
| "construct_backend (In_process_backend ids regs) e = do {
     t \<leftarrow> new_in_process ids regs;
     Some (In_process_rtu t) }"

definition construct_rtu ::
    "'d floating \<Rightarrow> (u32 \<Rightarrow> 'g) \<Rightarrow> 'd options \<Rightarrow> 'e \<Rightarrow> ('e, 'g, 'd) gateway_rtu option" where
  "construct_rtu F mt19937 opt e = do {
     b \<leftarrow> construct_backend (select_backend opt) e;
     Some (case fault_injection F opt of
       None \<Rightarrow> Plain b
     | Some fc \<Rightarrow> With_faults (new_faulty mt19937 b fc)) }"

section \<open>Its contracts\<close>

text \<open>
  The states over a backend that satisfies \<open>P\<close>. Two instances matter: any backend whose
  in-process bus is well-formed, and the in-process bus only.
\<close>

fun over :: "('e rtu_backend \<Rightarrow> bool) \<Rightarrow> ('e, 'g, 'd) gateway_rtu \<Rightarrow> bool" where
  "over P (Plain b) = P b"
| "over P (With_faults f) = P (inner f)"

fun backend_ok :: "'e rtu_backend \<Rightarrow> bool" where
  "backend_ok (Serial_rtu s) = True"
| "backend_ok (In_process_rtu t) = in_process_wf t"

fun on_bus :: "'e rtu_backend \<Rightarrow> bool" where
  "on_bus (Serial_rtu s) = False"
| "on_bus (In_process_rtu t) = in_process_wf t"

lemma backend_transport:
  assumes "posix_ok px rank"
  shows "rtu_transport (backend_transact px garbage) backend_ok"
proof unfold_locales
  fix t :: "'a rtu_backend" and req rsp
  assume ok: "backend_ok t"
  show "\<exists>ok rsp' t'. backend_transact px garbage t req rsp = Some (ok, rsp', t') \<and> backend_ok t'"
  proof (cases t)
    case (Serial_rtu s)
    then show ?thesis
      using serial_transact_returns [OF assms, of s req rsp] by auto
  next
    case (In_process_rtu b)
    then show ?thesis
      using ok inproc.transact_returns [of b garbage req rsp] by auto
  qed
qed

lemma bus_backend_reliable: "reliable_transport (backend_transact px garbage) on_bus"
proof unfold_locales
  fix t :: "'a rtu_backend" and req rsp
  assume ok: "on_bus t"
  then obtain b where b: "t = In_process_rtu b" "in_process_wf b"
    by (cases t) auto
  then show "\<exists>ok rsp' t'. backend_transact px garbage t req rsp = Some (ok, rsp', t') \<and> on_bus t'"
    using inproc.transact_returns [of b garbage req rsp] by auto
next
  fix t t' :: "'a rtu_backend" and req rsp rsp'
  assume "on_bus t" and "backend_transact px garbage t req rsp = Some (True, rsp', t')"
  then show "intact rsp' \<and> length rsp' \<le> 256 \<and> hd rsp' = hd req"
    using inproc.answer_intact [of _ garbage req rsp rsp'] by (cases t) (auto simp: bind_eq_Some_conv)
qed

text \<open>The dispatch adds nothing to a contract that holds below it.\<close>

lemma rtu_over:
  fixes below :: "'d \<Rightarrow> 'g \<Rightarrow> bool \<times> 'g" and px :: "('e, 'm) posix"
  assumes "rtu_transport (backend_transact px garbage) P" and "\<And>n g. fst (pick n g) \<le> n"
  shows "rtu_transport (rtu_transact px garbage below pick) (over P)"
proof unfold_locales
  fix t :: "('e, 'g, 'd) gateway_rtu" and req rsp
  assume P: "over P t"
  show "\<exists>ok rsp' t'. rtu_transact px garbage below pick t req rsp = Some (ok, rsp', t') \<and> over P t'"
  proof (cases t)
    case (Plain b)
    then show ?thesis
      using P rtu_transport.transact_returns [OF assms(1), of b req rsp] by auto
  next
    case (With_faults f)
    have "rtu_transport (faulty_transact below pick (backend_transact px garbage)) (\<lambda>f. P (inner f))"
      by (rule rtu_transport.faulty_returns [OF assms])
    from rtu_transport.transact_returns [OF this, of f req rsp] show ?thesis
      using P With_faults by auto
  qed
qed

lemma bus_rtu_addressed:
  fixes below :: "'d \<Rightarrow> 'g \<Rightarrow> bool \<times> 'g" and px :: "('e, 'm) posix"
  assumes "\<And>n g. fst (pick n g) \<le> n"
  shows "addressed_transport (rtu_transact px garbage below pick) (over on_bus)"
proof (intro addressed_transport.intro addressed_transport_axioms.intro)
  show "rtu_transport (rtu_transact px garbage below pick) (over on_bus)"
    by (rule rtu_over [OF reliable_transport.axioms(1) [OF bus_backend_reliable] assms])
next
  fix t t' :: "('e, 'g, 'd) gateway_rtu" and req rsp rsp'
  assume ok: "over on_bus t" and tr: "rtu_transact px garbage below pick t req rsp = Some (True, rsp', t')"
  show "length rsp' \<le> 256 \<and> (intact rsp' \<longrightarrow> hd rsp' = hd req)"
  proof (cases t)
    case (Plain b)
    then obtain b' where "backend_transact px garbage b req rsp = Some (True, rsp', b')"
      using tr by (auto simp: bind_eq_Some_conv)
    then show ?thesis
      using reliable_transport.answer_intact [OF bus_backend_reliable] ok Plain by fastforce
  next
    case (With_faults f)
    then obtain f' where "faulty_transact below pick (backend_transact px garbage) f req rsp = Some (True, rsp', f')"
      using tr by (auto simp: bind_eq_Some_conv)
    then show ?thesis
      using addressed_transport.intact_answer_addressed [OF reliable_transport.faulty_addressed
          [OF bus_backend_reliable assms]] ok With_faults by fastforce
  qed
qed

lemma construct_rtu_ok: "\<exists>t0. construct_rtu F mt19937 opt e = Some t0 \<and> over backend_ok t0 \<and>
    (opt_serial_port opt = '''' \<longrightarrow> over on_bus t0)"
  by (auto simp: construct_rtu_def select_backend_def new_in_process_eq new_faulty_def in_process_wf_def
      list_all_iff split: option.splits)

section \<open>The plain in-process gateway\<close>

text \<open>Without fault injection the dispatch is transparent: the sequential runs are those of the bus.\<close>

lemma gateway_handle_plain:
  "gateway_handle (rtu_transact px garbage below pick) (Plain (In_process_rtu t)) st q =
    map_option (\<lambda>(f, t, st). (f, Plain (In_process_rtu t), st)) (gateway_handle (in_process_transact garbage) t st q)"
  by (auto simp: gateway_handle_def Let_def split: bind_splits option.splits list.splits)

lemma sequential_plain:
  "sequential (rtu_transact px garbage below pick) (Plain (In_process_rtu t)) qs =
    map_option (\<lambda>(fs, t). (fs, Plain (In_process_rtu t))) (sequential (in_process_transact garbage) t qs)"
  by (induction qs arbitrary: t)
    (auto simp: handle_frame_def gateway_handle_plain split: bind_splits option.splits)

definition seed_bus :: "u8 list \<Rightarrow> u16 \<Rightarrow> u8 \<Rightarrow> u16 list option" where
  "seed_bus ids regs u = (if u \<noteq> 0 \<and> u \<in> set ids then Some (map (seed_value u) [0..<unat regs]) else None)"

section \<open>Properties\<close>

text \<open>Every configuration answers in order. Whatever the options, \<open>main\<close> builds a transport, and
  in every state the process then reaches, over the serial line or the in-process bus, with or
  without injected faults, each connection has handled the first requests of its byte stream,
  one response per request with the transaction id of the request, and has sent a prefix of the
  encoded responses.\<close>

theorem every_configuration_answers_in_order:
  assumes "posix_ok px rank" and "\<And>n g. fst (pick n g) \<le> n"
  shows "\<exists>t0. construct_rtu F mt19937 opt e = Some t0 \<and>
    (\<forall>s i. process_reach (rtu_transact px garbage below pick) t0 s \<longrightarrow>
      prefix (requests_of (workers s i)) (frames_in (w_in (workers s i))) \<and>
      map transaction_id (responses_of (workers s i)) = map transaction_id (requests_of (workers s i)) \<and>
      prefix (w_out (workers s i)) (wire (responses_of (workers s i))))"
proof -
  let ?t = "rtu_transact px garbage below pick"
  have tr: "rtu_transport ?t (over backend_ok)"
    by (rule rtu_over [OF backend_transport [OF assms(1)] assms(2)])
  obtain t0 where t0: "construct_rtu F mt19937 opt e = Some t0" "over backend_ok t0"
    using construct_rtu_ok by metis
  have "prefix (requests_of (workers s i)) (frames_in (w_in (workers s i))) \<and>
      map transaction_id (responses_of (workers s i)) = map transaction_id (requests_of (workers s i)) \<and>
      prefix (w_out (workers s i)) (wire (responses_of (workers s i)))"
    if "process_reach ?t t0 s" for s i
  proof -
    have ok: "worker_ok (workers s i)"
      using reach_workers_ok [OF that] by (simp add: workers_ok_def)
    show ?thesis
      using requests_in_stream [OF ok] sent_prefix [OF ok] rtu_transport.worker_transaction_ids [OF tr that t0(2)]
      by (simp add: frames_in_def)
  qed
  with t0(1) show ?thesis by blast
qed

theorem every_configuration_answers_in_order_witness:
  "\<exists>t0 s. construct_rtu demo_floating (\<lambda>_. ()) ((default_options demo_floating)\<lparr>opt_serial_port := ''/dev/ttyUSB0''\<rparr>) [] = Some t0 \<and>
    process_reach (rtu_transact demo_posix (\<lambda>_. 0) (\<lambda>r g. (r > 0, g)) Pair) t0 s \<and>
    w_in (workers s 0) = encode demo_request \<and> map transaction_id (responses_of (workers s 0)) = [7]"
proof -
  let ?opt = "(default_options demo_floating)\<lparr>opt_serial_port := ''/dev/ttyUSB0''\<rparr>"
    and ?t = "rtu_transact demo_posix (\<lambda>_. 0) (\<lambda>(r :: int) g. (r > 0, g)) (Pair :: nat \<Rightarrow> unit \<Rightarrow> nat \<times> unit)"
  have pick: "fst (Pair n g) \<le> n" for n :: nat and g :: unit by simp
  have tr: "rtu_transport ?t (over backend_ok)"
    by (rule rtu_over [OF backend_transport [OF demo_posix_ok]]) simp
  obtain t0 where t0: "construct_rtu demo_floating (\<lambda>_. ()) ?opt ([] :: u8 list list) = Some t0" "over backend_ok t0"
    using construct_rtu_ok by metis
  obtain f t st where r: "process_reach ?t t0 (one_master None t0 (answered_worker demo_request f) t st)"
    using rtu_transport.reach_answered [OF tr t0(2) demo_request_ok(3)] by blast
  from every_configuration_answers_in_order [OF demo_posix_ok pick, of demo_floating "\<lambda>_. ()" ?opt "[]"
      "\<lambda>_. 0" "\<lambda>(r :: int) g. (r > 0, g)"] t0(1)
  have "\<forall>s i. process_reach ?t t0 s \<longrightarrow>
      map transaction_id (responses_of (workers s i)) = map transaction_id (requests_of (workers s i))"
    by simp
  with r have "map transaction_id (responses_of (workers (one_master None t0 (answered_worker demo_request f) t st) 0)) =
      map transaction_id (requests_of (workers (one_master None t0 (answered_worker demo_request f) t st) 0))"
    by blast
  then show ?thesis
    using t0(1) r by (intro exI [of _ t0] exI [of _ "one_master None t0 (answered_worker demo_request f) t st"])
      (simp add: answered_worker_def)
qed

text \<open>C14: The in-process gateway routes correctly in every configuration. Whatever the units, the
  fault rates and the seed, with repeated unit ids, with or without the fault injector, the bytes
  each master of the running process has received decode to responses, the \<open>k\<close>-th with the
  transaction id and the unit id of the master's \<open>k\<close>-th request.\<close>

theorem in_process_configurations_route:
  assumes "opt_serial_port opt = ''''" and "\<And>n g. fst (pick n g) \<le> n"
    and "construct_rtu F mt19937 opt e = Some t0"
    and "process_reach (rtu_transact px garbage below pick) t0 s"
  shows "\<exists>got rest. split_stream (w_out (workers s i)) = (got, NeedMoreData, rest) \<and>
    length got \<le> length (frames_in (w_in (workers s i))) \<and>
    map transaction_id got = map transaction_id (take (length got) (frames_in (w_in (workers s i)))) \<and>
    map unit_id got = map unit_id (take (length got) (frames_in (w_in (workers s i))))"
proof -
  have "over on_bus t0"
    using construct_rtu_ok [of F mt19937 opt e] assms(1,3) by simp
  then show ?thesis
    by (rule addressed_transport.own_answers [OF bus_rtu_addressed [OF assms(2)] assms(4)])
qed

theorem in_process_configurations_route_witness:
  "\<exists>t0 s got rest. construct_rtu demo_floating (\<lambda>_. ()) ((default_options demo_floating)\<lparr>opt_corrupt := 1\<rparr>) [] = Some t0 \<and>
    process_reach (rtu_transact demo_posix (\<lambda>_. 0) (\<lambda>r g. (r > 0, g)) Pair) t0 s \<and>
    w_in (workers s 0) = encode demo_request \<and> split_stream (w_out (workers s 0)) = (got, NeedMoreData, rest) \<and>
    map transaction_id got = take (length got) [7] \<and> map unit_id got = take (length got) [17]"
proof -
  let ?opt = "(default_options demo_floating)\<lparr>opt_corrupt := 1\<rparr>"
    and ?t = "rtu_transact demo_posix (\<lambda>_. 0) (\<lambda>(r :: int) g. (r > 0, g)) (Pair :: nat \<Rightarrow> unit \<Rightarrow> nat \<times> unit)"
  have pick: "fst (Pair n g) \<le> n" for n :: nat and g :: unit by simp
  have tr: "rtu_transport ?t (over on_bus)"
    by (rule addressed_transport.axioms [OF bus_rtu_addressed]) simp
  have serial: "opt_serial_port ?opt = ''''" by (simp add: default_options_def)
  obtain t0 where t0: "construct_rtu demo_floating (\<lambda>_. ()) ?opt ([] :: u8 list list) = Some t0" "over on_bus t0"
    using construct_rtu_ok serial by metis
  obtain f t st where r: "process_reach ?t t0 (one_master None t0 (answered_worker demo_request f) t st)"
    using rtu_transport.reach_answered [OF tr t0(2) demo_request_ok(3)] by blast
  have "frames_in (encode demo_request) = [demo_request]"
    using wire_frames [of "[demo_request]"] by simp
  then show ?thesis
    using in_process_configurations_route [OF serial pick t0(1) r, of 0] t0(1) r
    by (intro exI [of _ t0] exI [of _ "one_master None t0 (answered_worker demo_request f) t st"])
      (auto simp: answered_worker_def simp flip: take_map)
qed

text \<open>C2: A gateway started on in-process units is the seeded register bus. For options without a
  serial line and without fault injection, with distinct units, in every reachable state of the
  process one order of the requests explains everything: the abstract bus, in which register
  \<open>k\<close> of each unit \<open>u\<close> other than 0 starts as \<open>u * 256 + k\<close> and every unit has 64 registers, run in
  this order gives the current registers; the requests of each master in it are the first of its
  byte stream, and what the master has received are the first of the bus's responses to them.\<close>

theorem started_gateway_is_seeded_bus:
  assumes "opt_serial_port opt = ''''" and "fault_injection F opt = None" and "distinct (opt_units opt)"
    and "construct_rtu F mt19937 opt e = Some t0"
    and "process_reach (rtu_transact px garbage below pick) t0 s" and "\<And>n g. fst (pick n g) \<le> n"
  shows "\<exists>log t. rtu s = Plain (In_process_rtu t) \<and>
    (case bus_run (seed_bus (opt_units opt) 64) (map snd log) of (rsps, bus_now) \<Rightarrow>
      bus_of (slaves t) = bus_now \<and>
      (\<forall>i. prefix (map (snd \<circ> fst) (of_client i (zip log rsps))) (frames_in (w_in (workers s i))) \<and>
        prefix (frames_in (w_out (workers s i))) (map snd (of_client i (zip log rsps)))))"
proof -
  obtain b where b: "new_in_process (opt_units opt) 64 = Some b" "t0 = Plain (In_process_rtu b)"
    using assms(1,2,4) by (auto simp: construct_rtu_def select_backend_def bind_eq_Some_conv)
  have wf: "in_process_wf b" "distinct (map addr (slaves b))" "bus_of (slaves b) = seed_bus (opt_units opt) 64"
    using new_in_process_wf [OF b(1)] new_in_process_addrs [OF b(1)] assms(3) new_in_process_bus [OF b(1)]
    by (auto simp: seed_bus_def fun_eq_iff)
  have "over on_bus t0" by (simp add: b(2) wf(1))
  from addressed_transport.process_sequential [OF bus_rtu_addressed [OF assms(6)] assms(5) this]
  obtain lg fs where lin: "sequential (rtu_transact px garbage below pick) t0 (map snd lg) = Some (fs, rtu s)"
    "list_all wf_frame (map snd lg)"
    "\<And>i. prefix (map (snd \<circ> fst) (of_client i (zip lg fs))) (frames_in (w_in (workers s i))) \<and>
      prefix (frames_in (w_out (workers s i))) (map snd (of_client i (zip lg fs)))"
    by blast
  then obtain t where t: "sequential (in_process_transact garbage) b (map snd lg) = Some (fs, t)"
    "rtu s = Plain (In_process_rtu t)"
    by (auto simp: b(2) sequential_plain)
  then show ?thesis
    using sequential_bus_run [OF wf(1,2) lin(2) t(1)] lin(3) wf(3)
    by (intro exI [of _ lg] exI [of _ t]) (simp add: split_beta)
qed

theorem started_gateway_is_seeded_bus_witness:
  "\<exists>t0 s (log :: (nat \<times> mbap_frame) list) t. construct_rtu demo_floating (\<lambda>_. ()) (default_options demo_floating) [] = Some t0 \<and>
    process_reach (rtu_transact demo_posix (\<lambda>_. 0) (\<lambda>r g. (r > 0, g)) Pair) t0 s \<and>
    w_in (workers s 0) = encode demo_request \<and> rtu s = Plain (In_process_rtu t) \<and>
    bus_of (slaves t) = snd (bus_run (seed_bus [0x11, 0x22, 0x33] 64) (map snd log))"
proof -
  let ?opt = "default_options demo_floating"
    and ?t = "rtu_transact demo_posix (\<lambda>_. 0) (\<lambda>(r :: int) g. (r > 0, g)) (Pair :: nat \<Rightarrow> unit \<Rightarrow> nat \<times> unit)"
  have pick: "fst (Pair n g) \<le> n" for n :: nat and g :: unit by simp
  have tr: "rtu_transport ?t (over on_bus)"
    by (rule addressed_transport.axioms [OF bus_rtu_addressed]) simp
  have opt: "opt_serial_port ?opt = ''''" "fault_injection demo_floating ?opt = None" "distinct (opt_units ?opt)"
    "opt_units ?opt = [0x11, 0x22, 0x33]"
    by (simp_all add: default_options_def fault_injection_def demo_floating_def)
  obtain t0 where t0: "construct_rtu demo_floating (\<lambda>_. ()) ?opt ([] :: u8 list list) = Some t0" "over on_bus t0"
    using construct_rtu_ok opt(1) by metis
  obtain f t st where r: "process_reach ?t t0 (one_master None t0 (answered_worker demo_request f) t st)"
    using rtu_transport.reach_answered [OF tr t0(2) demo_request_ok(3)] by blast
  obtain log :: "(nat \<times> mbap_frame) list" and u where "rtu (one_master None t0 (answered_worker demo_request f) t st) = Plain (In_process_rtu u)"
    "bus_of (slaves u) = snd (bus_run (seed_bus (opt_units ?opt) 64) (map snd log))"
    using started_gateway_is_seeded_bus [OF opt(1-3) t0(1) r pick] unfolding split_beta
    by (elim exE conjE) (rule that, assumption+)
  then show ?thesis
    using t0(1) r opt(4)
    by (intro exI [of _ t0] exI [of _ "one_master None t0 (answered_worker demo_request f) t st"] exI [of _ log] exI [of _ u])
      (simp add: answered_worker_def)
qed

end
