(* ===== verification/Exchange_Stages.thy ===== *)
theory Exchange_Stages
  imports Rtu_Transport
begin

text \<open>
  The inside of \<open>IRtuTransport::transact\<close>. The other theories take one call, which runs under a
  mutex, as one step. Here a call is a sequence of stages: it begins, advances, and has a return
  value in the end. The locale \<open>staged_transport\<close> states when stages implement a transport; it is
  interpreted on \<open>InProcessRtu\<close>, whose stages are the calls of the slave handler, and the fault
  injector has stages whenever the transport below it does.
\<close>

section \<open>Stages\<close>

text \<open>
  \<open>begins t req rsp\<close> is the control state at the entry of a call, \<open>advance\<close> one stage, \<open>returns\<close>
  the return value and the output parameter once the call is at its end.
\<close>

record ('t, 'p) stages =
  begins :: "'t \<Rightarrow> u8 list \<Rightarrow> u8 list \<Rightarrow> 'p"
  advance :: "'p \<Rightarrow> 't \<Rightarrow> ('p \<times> 't) option"
  returns :: "'p \<Rightarrow> (bool \<times> u8 list) option"

text \<open>
  \<open>remaining p t\<close> is what the rest of a call computes. It is all of \<open>transact\<close> at the entry, no
  stage changes it, and it is the return value at the end; \<open>closer\<close> is an order in which every
  stage descends.
\<close>

locale staged_transport = rtu_transport transact inv
  for transact :: "'t transact" and inv :: "'t \<Rightarrow> bool" +
  fixes X :: "('t, 'p) stages"
    and remaining :: "'p \<Rightarrow> 't \<Rightarrow> (bool \<times> u8 list \<times> 't) option"
    and closer :: "(('p \<times> 't) \<times> ('p \<times> 't)) set"
  assumes remaining_begins: "remaining (begins X t req rsp) t = transact t req rsp"
    and remaining_returns: "returns X p = Some (ok, rsp) \<Longrightarrow> remaining p t = Some (ok, rsp, t)"
    and advances: "remaining p t \<noteq> None \<Longrightarrow> returns X p = None \<Longrightarrow>
      \<exists>p' t'. advance X p t = Some (p', t')"
    and remaining_advance: "advance X p t = Some (p', t') \<Longrightarrow> remaining p t \<noteq> None \<Longrightarrow>
      remaining p' t' = remaining p t \<and> ((p', t'), (p, t)) \<in> closer"
    and wf_closer: "wf closer"
begin

text \<open>A call that runs alone comes to its end, with the result of \<open>transact\<close>.\<close>

definition stage_run :: "'p \<times> 't \<Rightarrow> 'p \<times> 't \<Rightarrow> bool" where
  "stage_run = (\<lambda>(p, t) (p', t'). returns X p = None \<and> advance X p t = Some (p', t'))\<^sup>*\<^sup>*"

lemma stage_run_remaining:
  "remaining p t = Some (ok, rsp, u) \<Longrightarrow> \<exists>p'. stage_run (p, t) (p', u) \<and> returns X p' = Some (ok, rsp)"
proof (induction "(p, t)" arbitrary: p t rule: wf_induct_rule [OF wf_closer])
  case (1 p t)
  show ?case
  proof (cases "returns X p")
    case None
    then obtain p1 t1 where adv: "advance X p t = Some (p1, t1)"
      using advances 1(2) by blast
    then have "remaining p1 t1 = Some (ok, rsp, u)" "((p1, t1), (p, t)) \<in> closer"
      using remaining_advance 1(2) by auto
    then obtain p' where run: "stage_run (p1, t1) (p', u)" "returns X p' = Some (ok, rsp)"
      using 1(1) by blast
    have "stage_run (p, t) (p', u)"
      unfolding stage_run_def
      by (rule converse_rtranclp_into_rtranclp [OF _ run(1) [unfolded stage_run_def]]) (use None adv in simp)
    then show ?thesis
      using run(2) by blast
  next
    case (Some r)
    then have "r = (ok, rsp)" "t = u"
      using remaining_returns [of p "fst r" "snd r" t] 1(2) by auto
    then show ?thesis
      using Some by (auto simp: stage_run_def)
  qed
qed

lemma stages_compute:
  "inv t \<Longrightarrow> \<exists>ok rsp' t' p'. transact t req rsp = Some (ok, rsp', t') \<and>
    stage_run (begins X t req rsp, t) (p', t') \<and> returns X p' = Some (ok, rsp')"
  using transact_returns [of t req rsp] stage_run_remaining remaining_begins by metis

end

section \<open>The in-process backend\<close>

text \<open>
  One stage per slave: \<open>Poll_slave k\<close> is before the call of \<open>mb_slave_handle\<close> for slave \<open>k\<close>, with the
  contents of \<open>resp_buf\<close> and \<open>resp_len\<close>.
\<close>

datatype poll_pc =
    Poll_begin "u8 list" "u8 list"
  | Poll_slave nat "u8 list" "u8 list" "u8 list" u16
  | Poll_end bool "u8 list"

fun poll_advance :: "(nat \<Rightarrow> u8) \<Rightarrow> poll_pc \<Rightarrow> in_process \<Rightarrow> (poll_pc \<times> in_process) option" where
  "poll_advance garbage (Poll_begin req rsp) t =
     Some (if req = [] then Poll_end False rsp
       else Poll_slave 0 req rsp (map garbage [0..<unat MB_ADU_MAX]) 0, t)"
| "poll_advance garbage (Poll_slave k req rsp resp_buf resp_len) t =
     (if k < length (slaves t) then do {
        (r, s, resp_buf, resp_len) \<leftarrow>
          mb_slave_handle (slaves t ! k) req (of_nat (length req)) resp_buf resp_len;
        let t = t\<lparr>slaves := (slaves t)[k := s]\<rparr>;
        if r = MB_RESULT_RESPOND then do {
          out \<leftarrow> rd_range resp_buf 0 (unat resp_len);
          Some (Poll_end True out, t)
        } else Some (Poll_slave (k + 1) req rsp resp_buf resp_len, t)
      } else Some (Poll_end False rsp, t))"
| "poll_advance garbage (Poll_end ok rsp) t = None"

fun poll_returns :: "poll_pc \<Rightarrow> (bool \<times> u8 list) option" where
  "poll_returns (Poll_end ok rsp) = Some (ok, rsp)"
| "poll_returns _ = None"

definition in_process_stages :: "(nat \<Rightarrow> u8) \<Rightarrow> (in_process, poll_pc) stages" where
  "in_process_stages garbage =
     \<lparr>begins = \<lambda>t. Poll_begin, advance = poll_advance garbage, returns = poll_returns\<rparr>"

fun poll_remaining :: "(nat \<Rightarrow> u8) \<Rightarrow> poll_pc \<Rightarrow> in_process \<Rightarrow> (bool \<times> u8 list \<times> in_process) option" where
  "poll_remaining garbage (Poll_begin req rsp) t = in_process_transact garbage t req rsp"
| "poll_remaining garbage (Poll_slave k req rsp resp_buf resp_len) t = do {
     (ok, rsp, ss) \<leftarrow> poll_slaves (drop k (slaves t)) req rsp resp_buf resp_len;
     Some (ok, rsp, t\<lparr>slaves := take k (slaves t) @ ss\<rparr>) }"
| "poll_remaining garbage (Poll_end ok rsp) t = Some (ok, rsp, t)"

fun poll_rank :: "poll_pc \<times> in_process \<Rightarrow> nat" where
  "poll_rank (Poll_begin req rsp, t) = length (slaves t) + 2"
| "poll_rank (Poll_slave k req rsp buf n, t) = length (slaves t) - k + 1"
| "poll_rank (Poll_end ok rsp, t) = 0"

lemma poll_step:
  assumes "poll_advance garbage p t = Some (p', t')"
  shows "poll_remaining garbage p' t' = poll_remaining garbage p t \<and> poll_rank (p', t') < poll_rank (p, t)"
proof (cases p)
  case (Poll_begin req rsp)
  then show ?thesis
    using assms by (auto simp: in_process_transact_def)
next
  case (Poll_slave k req rsp buf n)
  show ?thesis
  proof (cases "k < length (slaves t)")
    case True
    note split = Cons_nth_drop_Suc [OF True, symmetric]
    obtain r s buf' n' where h: "mb_slave_handle (slaves t ! k) req (of_nat (length req)) buf n = Some (r, s, buf', n')"
      using assms Poll_slave True by (auto simp: bind_eq_Some_conv)
    have "take (Suc k) ((slaves t)[k := s]) = take k (slaves t) @ [s]"
      using True by (simp add: take_Suc_conv_app_nth)
    moreover have "take k (slaves t) @ s # drop (Suc k) (slaves t) = (slaves t)[k := s]"
      using True by (simp add: upd_conv_take_nth_drop)
    ultimately show ?thesis
      using assms Poll_slave True h
      by (auto simp: split bind_eq_Some_conv Let_def split: if_splits bind_splits)
  next
    case False
    then show ?thesis
      using assms Poll_slave by auto
  qed
next
  case (Poll_end ok rsp)
  then show ?thesis using assms by simp
qed

lemma poll_advances:
  assumes "poll_remaining garbage p t \<noteq> None" and "poll_returns p = None"
  shows "\<exists>p' t'. poll_advance garbage p t = Some (p', t')"
proof (cases p)
  case (Poll_slave k req rsp buf n)
  show ?thesis
  proof (cases "k < length (slaves t)")
    case True
    then show ?thesis
      using assms(1) Poll_slave Cons_nth_drop_Suc [OF True, symmetric]
      by (auto simp: Let_def split: bind_splits if_splits)
  qed (use Poll_slave in simp)
qed (use assms(2) in auto)

interpretation inproc_stages: staged_transport "in_process_transact garbage" in_process_wf
  "in_process_stages garbage" "poll_remaining garbage" "measure poll_rank" for garbage
proof unfold_locales
  fix p ok rsp t
  assume "returns (in_process_stages garbage) p = Some (ok, rsp)"
  then show "poll_remaining garbage p t = Some (ok, rsp, t)"
    by (cases p) (auto simp: in_process_stages_def)
qed (auto simp: in_process_stages_def poll_advances dest: poll_step)

section \<open>The fault injector\<close>

text \<open>
  \<open>FaultyRtu::transact\<close> draws, calls the transport below, whose stages become its own, and draws
  again. It holds its mutex throughout, so nothing else reads its generator or its counters.
\<close>

datatype 'p faulty_pc =
    Draw_drop "u8 list" "u8 list"
  | Inner 'p
  | Draw_corrupt "u8 list"
  | Faulty_end bool "u8 list"

text \<open>The second half of the call, after a successful exchange.\<close>

definition corrupt_answer ::
    "('d \<Rightarrow> 'g \<Rightarrow> bool \<times> 'g) \<Rightarrow> (nat \<Rightarrow> 'g \<Rightarrow> nat \<times> 'g) \<Rightarrow> u8 list \<Rightarrow> ('t, 'g, 'd) faulty \<Rightarrow>
     (bool \<times> u8 list \<times> ('t, 'g, 'd) faulty) option"
where
  "corrupt_answer below pick rsp t =
     (if rsp = [] then Some (True, rsp, t)
      else do {
        let (corrupt_it, g) = below (corrupt_rate (cfg t)) (rng t);
        let t = t\<lparr>rng := g\<rparr>;
        if \<not> corrupt_it then Some (True, rsp, t)
        else do {
          let (i, g) = pick (length rsp - 1) (rng t);
          b \<leftarrow> rd rsp i;
          rsp \<leftarrow> wr rsp i (b XOR 0x01);
          Some (True, rsp, t\<lparr>rng := g, corrupted := corrupted t + 1\<rparr>)
        }
      })"

fun faulty_advance ::
    "('d \<Rightarrow> 'g \<Rightarrow> bool \<times> 'g) \<Rightarrow> (nat \<Rightarrow> 'g \<Rightarrow> nat \<times> 'g) \<Rightarrow> ('t, 'p) stages \<Rightarrow> 'p faulty_pc \<Rightarrow>
     ('t, 'g, 'd) faulty \<Rightarrow> ('p faulty_pc \<times> ('t, 'g, 'd) faulty) option"
where
  "faulty_advance below pick X (Draw_drop req rsp) t =
     (let (drop_it, g) = below (drop_rate (cfg t)) (rng t);
          t = t\<lparr>rng := g\<rparr> in
      if drop_it then Some (Faulty_end False rsp, t\<lparr>dropped := dropped t + 1\<rparr>)
      else Some (Inner (begins X (inner t) req rsp), t))"
| "faulty_advance below pick X (Inner p) t =
     (case returns X p of
        None \<Rightarrow> do {
          (p, i) \<leftarrow> advance X p (inner t);
          Some (Inner p, t\<lparr>inner := i\<rparr>) }
      | Some (ok, rsp) \<Rightarrow> Some (if ok then Draw_corrupt rsp else Faulty_end False rsp, t))"
| "faulty_advance below pick X (Draw_corrupt rsp) t = do {
     (ok, rsp, t) \<leftarrow> corrupt_answer below pick rsp t;
     Some (Faulty_end ok rsp, t) }"
| "faulty_advance below pick X (Faulty_end ok rsp) t = None"

fun faulty_returns_pc :: "'p faulty_pc \<Rightarrow> (bool \<times> u8 list) option" where
  "faulty_returns_pc (Faulty_end ok rsp) = Some (ok, rsp)"
| "faulty_returns_pc _ = None"

definition faulty_stages ::
    "('d \<Rightarrow> 'g \<Rightarrow> bool \<times> 'g) \<Rightarrow> (nat \<Rightarrow> 'g \<Rightarrow> nat \<times> 'g) \<Rightarrow> ('t, 'p) stages \<Rightarrow>
     (('t, 'g, 'd) faulty, 'p faulty_pc) stages"
where
  "faulty_stages below pick X =
     \<lparr>begins = \<lambda>t. Draw_drop, advance = faulty_advance below pick X, returns = faulty_returns_pc\<rparr>"

fun faulty_remaining where
  "faulty_remaining below pick transact remaining (Draw_drop req rsp) t =
     faulty_transact below pick transact t req rsp"
| "faulty_remaining below pick transact remaining (Inner p) t = do {
     (ok, rsp, i) \<leftarrow> remaining p (inner t);
     if ok then corrupt_answer below pick rsp (t\<lparr>inner := i\<rparr>) else Some (False, rsp, t\<lparr>inner := i\<rparr>) }"
| "faulty_remaining below pick transact remaining (Draw_corrupt rsp) t = corrupt_answer below pick rsp t"
| "faulty_remaining below pick transact remaining (Faulty_end ok rsp) t = Some (ok, rsp, t)"

lemma faulty_transact_halves:
  "faulty_transact below pick transact t req rsp =
     (let (drop_it, g) = below (drop_rate (cfg t)) (rng t); t = t\<lparr>rng := g\<rparr> in
      if drop_it then Some (False, rsp, t\<lparr>dropped := dropped t + 1\<rparr>)
      else do {
        (ok, rsp, i) \<leftarrow> transact (inner t) req rsp;
        if ok then corrupt_answer below pick rsp (t\<lparr>inner := i\<rparr>) else Some (False, rsp, t\<lparr>inner := i\<rparr>) })"
  by (auto simp: faulty_transact_def corrupt_answer_def Let_def split: prod.splits bind_splits)

text \<open>The stages of the injector come down one after the other, those in the middle by \<open>closer\<close>.\<close>

fun faulty_phase :: "'p faulty_pc \<Rightarrow> nat" where
  "faulty_phase (Draw_drop req rsp) = 3"
| "faulty_phase (Inner p) = 2"
| "faulty_phase (Draw_corrupt rsp) = 1"
| "faulty_phase (Faulty_end ok rsp) = 0"

fun inner_of :: "'p faulty_pc \<times> ('t, 'g, 'd) faulty \<Rightarrow> ('p \<times> 't) option" where
  "inner_of (Inner p, t) = Some (p, inner t)"
| "inner_of _ = None"

definition faulty_closer :: "(('p \<times> 't) \<times> ('p \<times> 't)) set \<Rightarrow>
    (('p faulty_pc \<times> ('t, 'g, 'd) faulty) \<times> ('p faulty_pc \<times> ('t, 'g, 'd) faulty)) set" where
  "faulty_closer closer = inv_image (less_than <*lex*> {(Some x, Some y) | x y. (x, y) \<in> closer})
     (\<lambda>(p, t). (faulty_phase p, inner_of (p, t)))"

lemma wf_some: "wf r \<Longrightarrow> wf {(Some x, Some y) | x y. (x, y) \<in> r}"
proof (rule wf_subset [OF wf_Int1 [OF wf_inv_image]])
  show "{(Some x, Some y) | x y. (x, y) \<in> r} \<subseteq> inv_image r the \<inter> UNIV" by auto
qed

lemma wf_faulty_closer: "wf closer \<Longrightarrow> wf (faulty_closer closer)"
  unfolding faulty_closer_def by (intro wf_inv_image wf_lex_prod wf_less_than wf_some)

context staged_transport
begin

lemma faulty_step:
  assumes "faulty_advance below pick X p t = Some (p', t')"
    and "faulty_remaining below pick transact remaining p t \<noteq> None"
  shows "faulty_remaining below pick transact remaining p' t' = faulty_remaining below pick transact remaining p t \<and>
    ((p', t'), (p, t)) \<in> faulty_closer closer"
proof (cases p)
  case (Draw_drop req rsp)
  then show ?thesis
    using assms(1) by (auto simp: faulty_transact_halves remaining_begins faulty_closer_def Let_def
        split: prod.splits if_splits)
next
  case (Inner q)
  show ?thesis
  proof (cases "returns X q")
    case None
    then obtain q' i where adv: "advance X q (inner t) = Some (q', i)" "p' = faulty_pc.Inner q'" "t' = t\<lparr>inner := i\<rparr>"
      using assms(1) Inner by (auto simp: bind_eq_Some_conv)
    have "remaining q (inner t) \<noteq> None"
      using assms(2) Inner by (cases "remaining q (inner t)") simp_all
    then show ?thesis
      using remaining_advance [OF adv(1)] Inner adv by (auto simp: faulty_closer_def)
  next
    case (Some r)
    then show ?thesis
      using assms(1) Inner remaining_returns [of q "fst r" "snd r" "inner t"]
      by (cases r) (auto simp: faulty_closer_def)
  qed
next
  case (Draw_corrupt rsp)
  then show ?thesis
    using assms(1) by (auto simp: bind_eq_Some_conv faulty_closer_def)
qed (use assms(1) in simp)

lemma faulty_advances:
  assumes "faulty_remaining below pick transact remaining p t \<noteq> None" and "faulty_returns_pc p = None"
  shows "\<exists>p' t'. faulty_advance below pick X p t = Some (p', t')"
proof (cases p)
  case (Inner q)
  show ?thesis
  proof (cases "returns X q")
    case None
    moreover have "remaining q (inner t) \<noteq> None"
      using assms(1) Inner by (cases "remaining q (inner t)") simp_all
    ultimately show ?thesis
      using advances [of q "inner t"] Inner by auto
  qed (use Inner in \<open>auto split: prod.split\<close>)
qed (use assms in \<open>auto simp: Let_def split: prod.splits\<close>)

lemma faulty_staged:
  fixes below :: "'d \<Rightarrow> 'g \<Rightarrow> bool \<times> 'g"
  assumes "\<And>n g. fst (pick n g) \<le> n"
  shows "staged_transport (faulty_transact below pick transact) (\<lambda>t. inv (inner t)) (faulty_stages below pick X)
    (faulty_remaining below pick transact remaining) (faulty_closer closer)"
proof (intro staged_transport.intro faulty_returns [OF assms] staged_transport_axioms.intro)
  show "wf (faulty_closer closer)"
    by (rule wf_faulty_closer [OF wf_closer])
next
  fix p t ok rsp
  assume "returns (faulty_stages below pick X) p = Some (ok, rsp)"
  then show "faulty_remaining below pick transact remaining p t = Some (ok, rsp, t)"
    by (cases p) (auto simp: faulty_stages_def)
qed (auto simp: faulty_stages_def faulty_advances dest: faulty_step)

end

end
