(* ===== verification/Serial_Stages.thy ===== *)
theory Serial_Stages
  imports Serial_Rtu Exchange_Stages
begin

text \<open>
  \<open>SerialRtu::transact\<close> of \<open>src/serial_rtu.hpp\<close>, stage by stage: one stage per system call, per
  test and per access to a member that others can read while the call runs, which are the
  descriptor \<open>fd_\<close> (\<open>connected()\<close>) and the atomic counters. The stages implement
  \<open>serial_transact\<close>. The counters a reader finds while a call runs are accounted for.
\<close>

section \<open>The stages\<close>

text \<open>
  Before: the test of \<open>fd_\<close>; reading the clock; \<open>open\<close>; \<open>tcgetattr\<close>; \<open>tcsetattr\<close> with the new
  settings; reading and setting the file status flags; \<open>fd_ = fd\<close>; \<open>reconnects_++\<close>; giving up the
  local \<open>fd\<close>; \<open>tcflush\<close>; \<open>write\<close>, with \<open>written\<close>; \<open>tcdrain\<close>; \<open>requests_++\<close>; \<open>poll\<close>; \<open>read\<close>;
  \<open>io_errors_++\<close>; \<open>close(fd_)\<close>; \<open>fd_ = -1\<close>; \<open>timeouts_++\<close>; \<open>replies_++\<close>; returned.
\<close>

datatype 'm serial_pc =
    S_Test | S_Clock | S_Open | S_Getattr int | S_Setattr int "'m termios" | S_Getfl int
  | S_Setfl int u32 | S_Publish int | S_Opened | S_Give_up int
  | S_Flush | S_Write nat | S_Drain | S_Count | S_Poll | S_Read
  | S_Error | S_Close | S_Forget | S_Timeout | S_Reply | S_Return bool

text \<open>The locals of the call: \<open>req\<close>, \<open>rsp\<close> and \<open>got_any\<close>.\<close>

record 'm serial_call =
  s_pc :: "'m serial_pc"
  s_req :: "u8 list"
  s_rsp :: "u8 list"
  s_any :: bool

text \<open>\<open>if (rsp.empty())\<close> after the loop.\<close>

definition after_receive :: "u8 list \<Rightarrow> 'm serial_pc" where
  "after_receive rsp = (if rsp = [] then S_Timeout else S_Reply)"

definition serial_advance ::
    "('e, 'm) posix \<Rightarrow> 'm serial_call \<Rightarrow> 'e serial \<Rightarrow> ('m serial_call \<times> 'e serial) option"
where
  "serial_advance px x s =
     (let to = (\<lambda>pc. x\<lparr>s_pc := pc\<rparr>) in
      case s_pc x of
        S_Test \<Rightarrow> Some (to (if fd s \<ge> 0 then S_Flush else S_Clock), s)
      | S_Clock \<Rightarrow>
          let (now, e) = clock_now px (line s); s = s\<lparr>line := e\<rparr> in
          if last_attempt s \<noteq> 0 \<and>
              clock_ms px (now - last_attempt s) < int (unat (reconnect_backoff_ms (scfg s)))
          then Some (to (S_Return False), s)
          else Some (to S_Open, s\<lparr>last_attempt := now\<rparr>)
      | S_Open \<Rightarrow>
          let (h, e) = px_open px (port (scfg s)) (O_RDWR px OR O_NOCTTY px OR O_NONBLOCK px) (line s) in
          Some (to (if h < 0 then S_Return False else S_Getattr h), s\<lparr>line := e\<rparr>)
      | S_Getattr h \<Rightarrow>
          let (r, tio, e) = px_tcgetattr px h (line s) in
          Some (to (if r \<noteq> 0 then S_Give_up h else S_Setattr h (line_settings px (baud (scfg s)) tio)),
            s\<lparr>line := e\<rparr>)
      | S_Setattr h tio \<Rightarrow>
          let (r, e) = px_tcsetattr px h (TCSANOW px) tio (line s) in
          Some (to (if r \<noteq> 0 then S_Give_up h else S_Getfl h), s\<lparr>line := e\<rparr>)
      | S_Give_up h \<Rightarrow> Some (to (S_Return False), s\<lparr>line := px_close px h (line s)\<rparr>)
      | S_Getfl h \<Rightarrow>
          let (fl, e) = px_getfl px h (line s) in Some (to (S_Setfl h fl), s\<lparr>line := e\<rparr>)
      | S_Setfl h fl \<Rightarrow>
          Some (to (S_Publish h), s\<lparr>line := px_setfl px h (fl AND NOT (O_NONBLOCK px)) (line s)\<rparr>)
      | S_Publish h \<Rightarrow> Some (to S_Opened, s\<lparr>fd := h\<rparr>)
      | S_Opened \<Rightarrow> Some (to S_Flush, s\<lparr>reconnects := reconnects s + 1\<rparr>)
      | S_Flush \<Rightarrow> Some (to (S_Write 0), s\<lparr>line := px_tcflush px (fd s) (TCIFLUSH px) (line s)\<rparr>)
      | S_Write nwritten \<Rightarrow>
          if nwritten < length (s_req x) then
            let (w, e) = px_write px (fd s) (drop nwritten (s_req x)) (line s) in
            Some (to (if w \<le> 0 then S_Error else S_Write (nwritten + nat w)), s\<lparr>line := e\<rparr>)
          else Some (to S_Drain, s)
      | S_Drain \<Rightarrow> Some (to S_Count, s\<lparr>line := px_tcdrain px (fd s) (line s)\<rparr>)
      | S_Count \<Rightarrow>
          Some (x\<lparr>s_pc := S_Poll, s_rsp := [], s_any := False\<rparr>, s\<lparr>bus_requests := bus_requests s + 1\<rparr>)
      | S_Poll \<Rightarrow>
          let wait_ms = sint (if s_any x then frame_gap_ms (scfg s) else response_timeout_ms (scfg s));
              (pr, eintr, e) = px_poll px (fd s) (POLLIN px) wait_ms (line s) in
          Some (to (if pr < 0 then (if eintr then S_Poll else S_Error)
                    else if pr = 0 then after_receive (s_rsp x)
                    else S_Read), s\<lparr>line := e\<rparr>)
      | S_Read \<Rightarrow>
          let (n, chunk, e) = px_read px (fd s) 512 (line s); s = s\<lparr>line := e\<rparr> in
          if n < 0 then Some (to S_Error, s)
          else if n = 0 then Some (to (after_receive (s_rsp x)), s)
          else do {
            bytes \<leftarrow> rd_range chunk 0 (nat n);
            let rsp = s_rsp x @ bytes;
            let pc = (if length rsp \<ge> unat MB_ADU_MAX then after_receive rsp else S_Poll);
            Some (x\<lparr>s_pc := pc, s_rsp := rsp, s_any := True\<rparr>, s)
          }
      | S_Error \<Rightarrow> Some (to S_Close, s\<lparr>io_errors := io_errors s + 1\<rparr>)
      | S_Close \<Rightarrow>
          if fd s \<ge> 0 then Some (to S_Forget, s\<lparr>line := px_close px (fd s) (line s)\<rparr>)
          else Some (to (S_Return False), s)
      | S_Forget \<Rightarrow> Some (to (S_Return False), s\<lparr>fd := -1\<rparr>)
      | S_Timeout \<Rightarrow> Some (to (S_Return False), s\<lparr>bus_timeouts := bus_timeouts s + 1\<rparr>)
      | S_Reply \<Rightarrow> Some (to (S_Return True), s\<lparr>bus_replies := bus_replies s + 1\<rparr>)
      | S_Return ok \<Rightarrow> None)"

definition serial_begins :: "u8 list \<Rightarrow> u8 list \<Rightarrow> 'm serial_call" where
  "serial_begins req rsp = \<lparr>s_pc = S_Test, s_req = req, s_rsp = rsp, s_any = False\<rparr>"

definition serial_returns :: "'m serial_call \<Rightarrow> (bool \<times> u8 list) option" where
  "serial_returns x = (case s_pc x of S_Return ok \<Rightarrow> Some (ok, s_rsp x) | _ \<Rightarrow> None)"

definition serial_stages :: "('e, 'm) posix \<Rightarrow> ('e serial, 'm serial_call) stages" where
  "serial_stages px = \<lparr>begins = \<lambda>s. serial_begins, advance = serial_advance px, returns = serial_returns\<rparr>"

section \<open>What remains of a call\<close>

text \<open>From the back: after an error, after the receive loop, in it, and from \<open>tcdrain\<close> on.\<close>

definition after_error :: "('e, 'm) posix \<Rightarrow> u8 list \<Rightarrow> 'e serial \<Rightarrow> (bool \<times> u8 list \<times> 'e serial) option" where
  "after_error px rsp s = Some (False, rsp, close_port px (s\<lparr>io_errors := io_errors s + 1\<rparr>))"

definition after_loop :: "('e, 'm) posix \<Rightarrow> 'e serial \<Rightarrow> bool \<times> u8 list \<times> 'e \<Rightarrow>
    (bool \<times> u8 list \<times> 'e serial) option" where
  "after_loop px s = (\<lambda>(ok, rsp, e). let s = s\<lparr>line := e\<rparr> in
     if \<not> ok then after_error px rsp s
     else if rsp = [] then Some (False, rsp, s\<lparr>bus_timeouts := bus_timeouts s + 1\<rparr>)
     else Some (True, rsp, s\<lparr>bus_replies := bus_replies s + 1\<rparr>))"

definition from_poll :: "('e, 'm) posix \<Rightarrow> u8 list \<Rightarrow> bool \<Rightarrow> 'e serial \<Rightarrow> (bool \<times> u8 list \<times> 'e serial) option" where
  "from_poll px rsp got_any s =
     Option.bind (read_loop px (scfg s) (fd s) rsp got_any (line s)) (after_loop px s)"

definition from_read :: "('e, 'm) posix \<Rightarrow> u8 list \<Rightarrow> 'e serial \<Rightarrow> (bool \<times> u8 list \<times> 'e serial) option" where
  "from_read px rsp s =
     (case px_read px (fd s) 512 (line s) of (n, chunk, e) \<Rightarrow>
        if n < 0 then after_loop px s (False, rsp, e)
        else if n = 0 then after_loop px s (True, rsp, e)
        else do {
          bytes \<leftarrow> rd_range chunk 0 (nat n);
          if length (rsp @ bytes) \<ge> unat MB_ADU_MAX then after_loop px s (True, rsp @ bytes, e)
          else from_poll px (rsp @ bytes) True (s\<lparr>line := e\<rparr>)
        })"

definition from_count :: "('e, 'm) posix \<Rightarrow> 'e serial \<Rightarrow> (bool \<times> u8 list \<times> 'e serial) option" where
  "from_count px s = from_poll px [] False (s\<lparr>bus_requests := bus_requests s + 1\<rparr>)"

definition from_drain :: "('e, 'm) posix \<Rightarrow> 'e serial \<Rightarrow> (bool \<times> u8 list \<times> 'e serial) option" where
  "from_drain px s = from_count px (s\<lparr>line := px_tcdrain px (fd s) (line s)\<rparr>)"

definition from_write :: "('e, 'm) posix \<Rightarrow> u8 list \<Rightarrow> u8 list \<Rightarrow> nat \<Rightarrow> 'e serial \<Rightarrow>
    (bool \<times> u8 list \<times> 'e serial) option" where
  "from_write px req rsp nwritten s =
     (case write_all px (fd s) req nwritten (line s) of (ok, e) \<Rightarrow>
        if ok then from_drain px (s\<lparr>line := e\<rparr>) else after_error px rsp (s\<lparr>line := e\<rparr>))"

definition from_flush :: "('e, 'm) posix \<Rightarrow> u8 list \<Rightarrow> u8 list \<Rightarrow> 'e serial \<Rightarrow>
    (bool \<times> u8 list \<times> 'e serial) option" where
  "from_flush px req rsp s =
     from_write px req rsp 0 (s\<lparr>line := px_tcflush px (fd s) (TCIFLUSH px) (line s)\<rparr>)"

text \<open>\<open>ensure_open\<close> from each of its stages on.\<close>

definition open_from_publish :: "int \<Rightarrow> 'e serial \<Rightarrow> bool \<times> 'e serial" where
  "open_from_publish h s = (True, s\<lparr>fd := h, reconnects := reconnects s + 1\<rparr>)"

definition open_from_setfl :: "('e, 'm) posix \<Rightarrow> int \<Rightarrow> u32 \<Rightarrow> 'e serial \<Rightarrow> bool \<times> 'e serial" where
  "open_from_setfl px h fl s =
     open_from_publish h (s\<lparr>line := px_setfl px h (fl AND NOT (O_NONBLOCK px)) (line s)\<rparr>)"

definition open_from_getfl :: "('e, 'm) posix \<Rightarrow> int \<Rightarrow> 'e serial \<Rightarrow> bool \<times> 'e serial" where
  "open_from_getfl px h s =
     (let (fl, e) = px_getfl px h (line s) in open_from_setfl px h fl (s\<lparr>line := e\<rparr>))"

definition open_from_setattr :: "('e, 'm) posix \<Rightarrow> int \<Rightarrow> 'm termios \<Rightarrow> 'e serial \<Rightarrow> bool \<times> 'e serial" where
  "open_from_setattr px h tio s =
     (let (r, e) = px_tcsetattr px h (TCSANOW px) tio (line s) in
      if r \<noteq> 0 then (False, s\<lparr>line := px_close px h e\<rparr>) else open_from_getfl px h (s\<lparr>line := e\<rparr>))"

definition open_from_getattr :: "('e, 'm) posix \<Rightarrow> int \<Rightarrow> 'e serial \<Rightarrow> bool \<times> 'e serial" where
  "open_from_getattr px h s =
     (let (r, tio, e) = px_tcgetattr px h (line s) in
      if r \<noteq> 0 then (False, s\<lparr>line := px_close px h e\<rparr>)
      else open_from_setattr px h (line_settings px (baud (scfg s)) tio) (s\<lparr>line := e\<rparr>))"

definition open_from_open :: "('e, 'm) posix \<Rightarrow> 'e serial \<Rightarrow> bool \<times> 'e serial" where
  "open_from_open px s =
     (let (h, e) = px_open px (port (scfg s)) (O_RDWR px OR O_NOCTTY px OR O_NONBLOCK px) (line s) in
      if h < 0 then (False, s\<lparr>line := e\<rparr>) else open_from_getattr px h (s\<lparr>line := e\<rparr>))"

definition open_from_clock :: "('e, 'm) posix \<Rightarrow> 'e serial \<Rightarrow> bool \<times> 'e serial" where
  "open_from_clock px s =
     (let (now, e) = clock_now px (line s); s = s\<lparr>line := e\<rparr> in
      if last_attempt s \<noteq> 0 \<and>
          clock_ms px (now - last_attempt s) < int (unat (reconnect_backoff_ms (scfg s)))
      then (False, s)
      else open_from_open px (s\<lparr>last_attempt := now\<rparr>))"

lemmas open_from_defs = open_from_publish_def open_from_setfl_def open_from_getfl_def
  open_from_setattr_def open_from_getattr_def open_from_open_def open_from_clock_def

lemma ensure_open_stages: "ensure_open px s = (if fd s \<ge> 0 then (True, s) else open_from_clock px s)"
  by (simp add: ensure_open_def open_from_defs Let_def split: prod.split)
definition serial_remaining ::
    "('e, 'm) posix \<Rightarrow> 'm serial_call \<Rightarrow> 'e serial \<Rightarrow> (bool \<times> u8 list \<times> 'e serial) option"
where
  "serial_remaining px x s =
     (let opening = (\<lambda>(ok, s). if ok then from_flush px (s_req x) (s_rsp x) s else Some (False, s_rsp x, s)) in
      case s_pc x of
        S_Test \<Rightarrow> serial_transact px s (s_req x) (s_rsp x)
      | S_Clock \<Rightarrow> opening (open_from_clock px s)
      | S_Open \<Rightarrow> opening (open_from_open px s)
      | S_Getattr h \<Rightarrow> opening (open_from_getattr px h s)
      | S_Setattr h tio \<Rightarrow> opening (open_from_setattr px h tio s)
      | S_Getfl h \<Rightarrow> opening (open_from_getfl px h s)
      | S_Setfl h fl \<Rightarrow> opening (open_from_setfl px h fl s)
      | S_Publish h \<Rightarrow> opening (open_from_publish h s)
      | S_Opened \<Rightarrow> opening (True, s\<lparr>reconnects := reconnects s + 1\<rparr>)
      | S_Give_up h \<Rightarrow> opening (False, s\<lparr>line := px_close px h (line s)\<rparr>)
      | S_Flush \<Rightarrow> from_flush px (s_req x) (s_rsp x) s
      | S_Write n \<Rightarrow> from_write px (s_req x) (s_rsp x) n s
      | S_Drain \<Rightarrow> from_drain px s
      | S_Count \<Rightarrow> from_count px s
      | S_Poll \<Rightarrow> from_poll px (s_rsp x) (s_any x) s
      | S_Read \<Rightarrow> from_read px (s_rsp x) s
      | S_Error \<Rightarrow> after_error px (s_rsp x) s
      | S_Close \<Rightarrow> Some (False, s_rsp x, close_port px s)
      | S_Forget \<Rightarrow> Some (False, s_rsp x, s\<lparr>fd := -1\<rparr>)
      | S_Timeout \<Rightarrow> Some (False, s_rsp x, s\<lparr>bus_timeouts := bus_timeouts s + 1\<rparr>)
      | S_Reply \<Rightarrow> Some (True, s_rsp x, s\<lparr>bus_replies := bus_replies s + 1\<rparr>)
      | S_Return ok \<Rightarrow> Some (ok, s_rsp x, s))"

lemma serial_transact_stages:
  "serial_transact px s req rsp =
     (case ensure_open px s of (ok, s) \<Rightarrow>
        if ok then from_flush px req rsp s else Some (False, rsp, s))"
proof -
  obtain ok s1 where o: "ensure_open px s = (ok, s1)" by fastforce
  obtain ok2 e2 where w: "write_all px (fd s1) req 0 (px_tcflush px (fd s1) (TCIFLUSH px) (line s1)) = (ok2, e2)"
    by fastforce
  note defs = serial_transact_def from_flush_def from_write_def from_drain_def from_count_def from_poll_def
    after_loop_def after_error_def
  show ?thesis
  proof (cases "read_loop px (scfg s1) (fd s1) [] False (px_tcdrain px (fd s1) e2)")
    case None
    then show ?thesis by (simp add: defs o w)
  next
    case (Some r)
    then show ?thesis by (cases r) (simp add: defs o w Let_def)
  qed
qed

lemma after_loop_line [simp]: "after_loop px (s\<lparr>line := e\<rparr>) = after_loop px s"
  by (simp add: after_loop_def fun_eq_iff)

lemma from_poll_step:
  assumes "px_poll px (fd s) (POLLIN px)
      (sint (if got_any then frame_gap_ms (scfg s) else response_timeout_ms (scfg s))) (line s) = (pr, eintr, e)"
  shows "from_poll px rsp got_any s =
     (if pr < 0 then
        (if eintr then from_poll px rsp got_any (s\<lparr>line := e\<rparr>) else after_loop px s (False, rsp, e))
      else if pr = 0 then after_loop px s (True, rsp, e)
      else from_read px rsp (s\<lparr>line := e\<rparr>))"
proof -
  obtain n chunk e2 where r: "px_read px (fd s) 512 e = (n, chunk, e2)"
    by (metis prod_cases3)
  show ?thesis
    unfolding from_poll_def [of px rsp got_any s] read_loop.simps [of px "scfg s" "fd s" rsp got_any "line s"] assms Let_def
    by (cases "rd_range chunk 0 (nat n)") (simp_all add: r from_read_def from_poll_def)
qed

lemma from_write_step:
  "from_write px req rsp n s =
     (if n < length req then
        (let (w, e) = px_write px (fd s) (drop n req) (line s) in
         if w \<le> 0 then after_error px rsp (s\<lparr>line := e\<rparr>)
         else from_write px req rsp (n + nat w) (s\<lparr>line := e\<rparr>))
      else from_drain px s)"
  unfolding from_write_def write_all.simps [of px "fd s" req n "line s"]
  by (simp split: prod.splits)

text \<open>No stage changes what the call computes.\<close>

lemma serial_remaining_advance:
  assumes "serial_advance px x s = Some (x', s')"
  shows "serial_remaining px x' s' = serial_remaining px x s"
proof -
  note defs = serial_advance_def serial_remaining_def Let_def
  show ?thesis
  proof (cases "s_pc x")
    case S_Test
    then show ?thesis
      using assms by (auto simp: defs serial_transact_stages ensure_open_stages split: prod.split)
  next
    case S_Poll
    obtain pr eintr e where p: "px_poll px (fd s) (POLLIN px)
        (sint (if s_any x then frame_gap_ms (scfg s) else response_timeout_ms (scfg s))) (line s) = (pr, eintr, e)"
      by (metis prod_cases3)
    show ?thesis
      using assms S_Poll p
      by (auto simp: defs from_poll_step [OF p] after_loop_def after_receive_def split: if_splits)
  next
    case S_Read
    obtain n chunk e where r: "px_read px (fd s) 512 (line s) = (n, chunk, e)"
      by (metis prod_cases3)
    show ?thesis
    proof (cases "n \<le> 0")
      case True
      then show ?thesis
        using assms S_Read r
        by (auto simp: defs from_read_def after_loop_def after_receive_def split: if_splits)
    next
      case False
      then obtain bytes where b: "rd_range chunk 0 (nat n) = Some bytes"
        "x' = x\<lparr>s_pc := if length (s_rsp x @ bytes) \<ge> unat MB_ADU_MAX then after_receive (s_rsp x @ bytes) else S_Poll,
          s_rsp := s_rsp x @ bytes, s_any := True\<rparr>" "s' = s\<lparr>line := e\<rparr>"
        using assms S_Read r by (auto simp: defs bind_eq_Some_conv)
      show ?thesis
        using S_Read r b False by (auto simp: defs from_read_def after_loop_def after_receive_def)
    qed
  next
    case (S_Write n)
    obtain w e where w: "px_write px (fd s) (drop n (s_req x)) (line s) = (w, e)" by fastforce
    show ?thesis
      using assms S_Write w by (auto simp: defs from_write_step [of px "s_req x" "s_rsp x" n s] split: if_splits)
  next
    case S_Clock
    then show ?thesis
      using assms by (auto simp: defs open_from_clock_def split: prod.splits if_splits)
  next
    case S_Open
    then show ?thesis
      using assms by (auto simp: defs open_from_open_def split: prod.splits if_splits)
  next
    case (S_Getattr h)
    then show ?thesis
      using assms by (auto simp: defs open_from_getattr_def split: prod.splits if_splits)
  next
    case (S_Setattr h tio)
    then show ?thesis
      using assms by (auto simp: defs open_from_setattr_def split: prod.splits if_splits)
  next
    case (S_Getfl h)
    then show ?thesis
      using assms by (auto simp: defs open_from_getfl_def split: prod.splits)
  qed (use assms in \<open>auto simp: defs open_from_setfl_def open_from_publish_def from_flush_def
      from_drain_def from_count_def after_error_def close_port_def split: if_splits\<close>)
qed

section \<open>The calls come to their end\<close>

text \<open>The stages go down, but for \<open>write\<close>, which sends some bytes, and the receive loop, which goes
  round with more bytes received or after an interrupted \<open>poll\<close>.\<close>

fun serial_phase :: "'m serial_pc \<Rightarrow> nat" where
  "serial_phase S_Test = 20"
| "serial_phase S_Clock = 19"
| "serial_phase S_Open = 18"
| "serial_phase (S_Getattr h) = 17"
| "serial_phase (S_Setattr h tio) = 16"
| "serial_phase (S_Getfl h) = 15"
| "serial_phase (S_Setfl h fl) = 14"
| "serial_phase (S_Publish h) = 13"
| "serial_phase S_Opened = 12"
| "serial_phase S_Flush = 11"
| "serial_phase (S_Write n) = 10"
| "serial_phase S_Drain = 9"
| "serial_phase S_Count = 8"
| "serial_phase S_Poll = 7"
| "serial_phase S_Read = 7"
| "serial_phase S_Error = 6"
| "serial_phase (S_Give_up h) = 5"
| "serial_phase S_Close = 4"
| "serial_phase S_Forget = 3"
| "serial_phase S_Timeout = 2"
| "serial_phase S_Reply = 1"
| "serial_phase (S_Return ok) = 0"

definition serial_rank :: "('e \<Rightarrow> nat) \<Rightarrow> 'm serial_call \<times> 'e serial \<Rightarrow> nat \<times> nat \<times> nat" where
  "serial_rank rank = (\<lambda>(x, s). (serial_phase (s_pc x),
     case s_pc x of
       S_Write n \<Rightarrow> (length (s_req x) - n, 0)
     | S_Poll \<Rightarrow> (2 * (256 - length (s_rsp x)) + 1, rank (line s))
     | S_Read \<Rightarrow> (2 * (256 - length (s_rsp x)), 0)
     | _ \<Rightarrow> (0, 0)))"

definition serial_closer :: "('e \<Rightarrow> nat) \<Rightarrow> (('m serial_call \<times> 'e serial) \<times> ('m serial_call \<times> 'e serial)) set" where
  "serial_closer rank = inv_image (less_than <*lex*> less_than <*lex*> less_than) (serial_rank rank)"

lemma wf_serial_closer: "wf (serial_closer rank)"
  unfolding serial_closer_def by (intro wf_inv_image wf_lex_prod wf_less_than)

lemma after_receive_phase [simp]: "serial_phase (after_receive rsp) \<le> 2"
  by (simp add: after_receive_def)

lemma serial_advance_closer:
  assumes "posix_ok px rank" and "serial_advance px x s = Some (x', s')"
  shows "((x', s'), (x, s)) \<in> serial_closer rank"
proof -
  note defs = serial_advance_def serial_closer_def serial_rank_def Let_def
  show ?thesis
  proof (cases "s_pc x")
    case S_Poll
    obtain pr eintr e where p: "px_poll px (fd s) (POLLIN px)
        (sint (if s_any x then frame_gap_ms (scfg s) else response_timeout_ms (scfg s))) (line s) = (pr, eintr, e)"
      by (metis prod_cases3)
    have "rank e < rank (line s)" if "pr < 0" "eintr"
      using posix_okD(2) [OF assms(1)] p that by (metis (full_types))
    then show ?thesis
      using assms(2) S_Poll p by (auto simp: defs after_receive_def split: if_splits)
  next
    case S_Read
    obtain n chunk e where r: "px_read px (fd s) 512 (line s) = (n, chunk, e)"
      by (metis prod_cases3)
    show ?thesis
    proof (cases "n \<le> 0")
      case True
      then show ?thesis
        using assms(2) S_Read r by (auto simp: defs after_receive_def split: if_splits)
    next
      case False
      then obtain bytes where b: "rd_range chunk 0 (nat n) = Some bytes"
        "x' = x\<lparr>s_pc := if length (s_rsp x @ bytes) \<ge> unat MB_ADU_MAX then after_receive (s_rsp x @ bytes) else S_Poll,
          s_rsp := s_rsp x @ bytes, s_any := True\<rparr>"
        using assms(2) S_Read r by (auto simp: defs bind_eq_Some_conv)
      then have "0 < length bytes"
        using False by (auto simp: rd_range_def split: if_splits)
      then have "\<not> 256 \<le> length (s_rsp x @ bytes) \<Longrightarrow>
          2 * (256 - length (s_rsp x @ bytes)) + 1 < 2 * (256 - length (s_rsp x))"
        by (simp only: length_append)
      then show ?thesis
        using S_Read b(2) by (auto simp: defs after_receive_def MB_ADU_MAX_def)
    qed
  next
    case (S_Write n)
    obtain w e where w: "px_write px (fd s) (drop n (s_req x)) (line s) = (w, e)" by fastforce
    show ?thesis
      using assms(2) S_Write w by (auto simp: defs split: if_splits)
  qed (use assms(2) in \<open>auto simp: defs split: prod.splits if_splits\<close>)
qed

lemma serial_advances:
  assumes "serial_remaining px x s \<noteq> None" and "serial_returns x = None"
  shows "\<exists>x' s'. serial_advance px x s = Some (x', s')"
proof (cases "s_pc x")
  case S_Read
  obtain n chunk e where r: "px_read px (fd s) 512 (line s) = (n, chunk, e)"
    by (metis prod_cases3)
  show ?thesis
    using assms(1) S_Read r
    by (cases "rd_range chunk 0 (nat n)") (auto simp: serial_advance_def serial_remaining_def from_read_def Let_def
        split: if_splits)
qed (use assms(2) in \<open>auto simp: serial_advance_def serial_returns_def Let_def split: prod.splits\<close>)

lemma serial_staged:
  assumes "posix_ok px rank"
  shows "staged_transport (serial_transact px) (\<lambda>_. True) (serial_stages px) (serial_remaining px) (serial_closer rank)"
proof (intro staged_transport.intro serial_rtu_transport [OF assms] staged_transport_axioms.intro wf_serial_closer)
  fix x ok rsp and s :: "'a serial"
  assume "returns (serial_stages px) x = Some (ok, rsp)"
  then show "serial_remaining px x s = Some (ok, rsp, s)"
    by (auto simp: serial_stages_def serial_returns_def serial_remaining_def split: serial_pc.splits)
qed (auto simp: serial_stages_def serial_begins_def serial_remaining_def serial_advances serial_remaining_advance
    dest: serial_remaining_advance serial_advance_closer [OF assms])

section \<open>The counters during a call\<close>

text \<open>
  What a call has added to \<open>requests_\<close>, \<open>replies_\<close>, \<open>timeouts_\<close> and \<open>io_errors_\<close> when it is at a
  given place.
\<close>

fun accounts :: "'m serial_pc \<Rightarrow> (nat \<times> nat \<times> nat \<times> nat) set" where
  "accounts S_Poll = {(1, 0, 0, 0)}"
| "accounts S_Read = {(1, 0, 0, 0)}"
| "accounts S_Timeout = {(1, 0, 0, 0)}"
| "accounts S_Reply = {(1, 0, 0, 0)}"
| "accounts S_Error = {(0, 0, 0, 0), (1, 0, 0, 0)}"
| "accounts S_Close = {(0, 0, 0, 1), (1, 0, 0, 1)}"
| "accounts S_Forget = {(0, 0, 0, 1), (1, 0, 0, 1)}"
| "accounts (S_Return ok) =
     (if ok then {(1, 1, 0, 0)} else {(0, 0, 0, 0), (0, 0, 0, 1), (1, 0, 0, 1), (1, 0, 1, 0)})"
| "accounts _ = {(0, 0, 0, 0)}"

definition booked :: "'e serial \<Rightarrow> nat \<times> nat \<times> nat \<times> nat \<Rightarrow> 'e serial \<Rightarrow> bool" where
  "booked t = (\<lambda>(q, r, m, i) s. bus_requests s = bus_requests t + of_nat q \<and> bus_replies s = bus_replies t + of_nat r \<and>
     bus_timeouts s = bus_timeouts t + of_nat m \<and> io_errors s = io_errors t + of_nat i)"

definition call_booked :: "'e serial \<Rightarrow> 'm serial_call \<Rightarrow> 'e serial \<Rightarrow> bool" where
  "call_booked t x s \<longleftrightarrow> (\<exists>a \<in> accounts (s_pc x). booked t a s)"

lemma call_booked_begins: "call_booked s (serial_begins req rsp) s"
  by (simp add: call_booked_def serial_begins_def booked_def)

lemma call_booked_advance:
  assumes "serial_advance px x s = Some (x', s')" and "call_booked t x s"
  shows "call_booked t x' s'"
proof (cases "s_pc x")
  case S_Read
  then show ?thesis
    using assms by (auto simp: serial_advance_def call_booked_def booked_def after_receive_def Let_def bind_eq_Some_conv
        split: prod.splits if_splits)
qed (use assms in \<open>auto simp: serial_advance_def call_booked_def booked_def after_receive_def Let_def
    split: prod.splits if_splits\<close>)

end
