(* ===== verification/Staged_Process.thy ===== *)
theory Staged_Process
  imports Exchange_Stages Shutdown
begin

text \<open>
  The running process with the exchanges on the bus cut into their stages. \<open>Process\<close> takes a whole
  call of \<open>IRtuTransport::transact\<close> as one step of a thread. Here a thread locks the mutex of the
  transport, goes through the stages of \<open>Exchange_Stages\<close>, and unlocks it; all other threads,
  \<open>main\<close> with its diagnostics and the signal handlers step in between. The mutex makes the
  difference invisible: every state maps to a state of \<open>Process\<close>, so that what holds there of
  masters, counters and shutdown holds here; shutdown terminates, and no thread waits for the
  mutex for ever.
\<close>

section \<open>The steps\<close>

text \<open>
  The second component is the thread that holds the mutex and where it is in the call. The steps of
  \<open>Process\<close> other than an exchange are those with a transport that never returns.
\<close>

abbreviation no_exchange :: "'t transact" where
  "no_exchange \<equiv> \<lambda>t req rsp. None"

inductive staged_step :: "('t, 'p) stages \<Rightarrow> actor \<Rightarrow> 't process \<times> (nat \<times> 'p) option \<Rightarrow>
    't process \<times> (nat \<times> 'p) option \<Rightarrow> bool" for X where
  other: "process_step no_exchange a s s' \<Longrightarrow> staged_step X a (s, h) (s', h)"
| lock: "w_pc (workers s i) = In_handle n (Counted req) \<Longrightarrow> pdu req \<noteq> [] \<Longrightarrow> tcp_to_rtu req = Some adu \<Longrightarrow>
    \<not> ended (main_pc s) \<Longrightarrow> staged_step X (Worker i) (s, None) (s, Some (i, begins X (rtu s) adu []))"
| stage: "advance X p (rtu s) = Some (p', t) \<Longrightarrow> \<not> ended (main_pc s) \<Longrightarrow>
    staged_step X (Worker i) (s, Some (i, p)) (s\<lparr>rtu := t\<rparr>, Some (i, p'))"
| unlock: "returns X p = Some (ok, rsp) \<Longrightarrow> w_pc (workers s i) = In_handle n (Counted req) \<Longrightarrow> \<not> ended (main_pc s) \<Longrightarrow>
    staged_step X (Worker i) (s, Some (i, p))
      (s\<lparr>workers := (workers s)(i := (workers s i)\<lparr>w_pc := In_handle n (Answered req ok rsp)\<rparr>)\<rparr>, None)"

inductive staged_reach :: "('t, 'p) stages \<Rightarrow> 't \<Rightarrow> 't process \<times> (nat \<times> 'p) option \<Rightarrow> bool" for X t0 where
  staged_boot: "staged_reach X t0 (boot_process t0 ptr, None)"
| staged_next: "staged_reach X t0 c \<Longrightarrow> staged_step X a c c' \<Longrightarrow> staged_reach X t0 c'"

inductive_cases staged_stepE: "staged_step X a (s, h) (s', h')"

section \<open>The holder of the mutex\<close>

text \<open>The thread that holds the mutex is inside \<open>Gateway::handle\<close>, past the count of its request.\<close>

definition holder_ok :: "'t process \<times> (nat \<times> 'p) option \<Rightarrow> bool" where
  "holder_ok = (\<lambda>(s, h). case h of None \<Rightarrow> True
     | Some (i, p) \<Rightarrow> \<exists>n req. w_pc (workers s i) = In_handle n (Counted req) \<and> pdu req \<noteq> [])"

lemma no_exchange_worker:
  assumes "worker_step no_exchange run (w, t, st) (w', t', st')"
  shows "t' = t" and "w_pc w = In_handle n (Counted req) \<Longrightarrow> pdu req = []"
  using assms by (auto elim: worker_stepE simp: gw_transact_def bind_eq_Some_conv)

lemma no_exchange_rtu:
  assumes "process_step no_exchange a s s'"
  shows "rtu s' = rtu s"
  using assms
proof cases
  case (worker i w t st)
  then show ?thesis using no_exchange_worker(1) by fastforce
next
  case main
  then show ?thesis by (auto elim!: main_stepE)
qed (use quiet_step [OF assms] in auto)

text \<open>What a step of another thread leaves of a thread inside \<open>handle\<close>.\<close>

lemma counted_stays:
  assumes "process_step no_exchange a s s'" and "w_pc (workers s i) = In_handle n (Counted req)"
    and "pdu req \<noteq> []" and "workers_ok s"
  shows "workers s' i = workers s i"
  using assms(1)
proof cases
  case (worker j w t st)
  then have "j \<noteq> i" using no_exchange_worker(2) assms(2,3) by metis
  then show ?thesis using worker by simp
next
  case (socket j w)
  then have "j \<noteq> i" using assms(2) by (auto elim: socket_stepE)
  then show ?thesis using socket by simp
next
  case main
  have "accepted s \<noteq> i"
    using assms(2,4) unfolding workers_ok_def by (metis le_refl worker_pc.distinct(7))
  then show ?thesis using main by (auto elim!: main_stepE)
qed (use quiet_step [OF assms(1)] in auto)
lemma counted_holder: "holder_ok (s, Some (i, p)) \<Longrightarrow>
    \<exists>n req. w_pc (workers s i) = In_handle n (Counted req) \<and> pdu req \<noteq> []"
  by (simp add: holder_ok_def)

text \<open>The invariants of \<open>Process\<close> hold here as well: a stage changes only the transport.\<close>

definition staged_ok :: "'t process \<times> (nat \<times> 'p) option \<Rightarrow> bool" where
  "staged_ok = (\<lambda>(s, h). workers_ok s \<and> listener_ok s \<and> main_ok s \<and> holder_ok (s, h))"

lemma unlock_exchange:
  assumes "w_pc w = In_handle n (Counted req)" and "pdu req \<noteq> []" and "tcp_to_rtu req = Some adu"
  shows "worker_step (\<lambda>t req rsp. Some (ok, r, t)) run (w, t, st) (w\<lparr>w_pc := In_handle n (Answered req ok r)\<rparr>, t, st)"
  using assms by (intro worker_step.exchange) (simp_all add: gw_transact_def)

lemma counted_adu:
  assumes "worker_ok w" and "w_pc w = In_handle n (Counted req)"
  obtains adu where "tcp_to_rtu req = Some adu" "wf_frame req"
  using assms by (auto simp: worker_ok_def wf_frame_def mbap_consts tcp_to_rtu_eq)

lemma unlock_process_step:
  assumes "workers_ok s" and "w_pc (workers s i) = In_handle n (Counted req)" and "pdu req \<noteq> []"
    and "\<not> ended (main_pc s)"
  shows "process_step (\<lambda>t req rsp. Some (ok, r, t)) (Worker i) s
    (s\<lparr>workers := (workers s)(i := (workers s i)\<lparr>w_pc := In_handle n (Answered req ok r)\<rparr>)\<rparr>)"
proof -
  have "worker_ok (workers s i)"
    using assms(1) by (simp add: workers_ok_def)
  then obtain adu where "tcp_to_rtu req = Some adu"
    using counted_adu assms(2) by metis
  from process_step.worker [OF unlock_exchange [OF assms(2,3) this] assms(4)] show ?thesis
    by simp
qed

lemma stage_main_ok:
  assumes "main_ok s" and "workers_ok s" and "holder_ok (s, Some (i, p))"
  shows "main_ok (s\<lparr>rtu := t\<rparr>)"
proof -
  obtain n req where pc: "w_pc (workers s i) = In_handle n (Counted req)"
    using counted_holder [OF assms(3)] by blast
  then have "\<not> (\<forall>j<accepted s. returned (workers s j))"
    using started_step [OF assms(2), of i] by (auto simp: returned_def)
  then show ?thesis
    using assms(1) by (auto simp: main_ok_def split: main_pc.splits)
qed

lemma staged_step_ok:
  assumes "staged_step X a (s, h) (s', h')" and "staged_ok (s, h)"
  shows "staged_ok (s', h')"
proof -
  have ok: "workers_ok s" "listener_ok s" "main_ok s" "holder_ok (s, h)"
    using assms(2) by (simp_all add: staged_ok_def)
  note keep = process_step_workers_ok [OF _ ok(1)] process_step_listener_ok [OF _ ok(2,3)]
    process_step_main_ok [OF _ ok(2,3,1)]
  from assms(1) show ?thesis
  proof cases
    case other
    have "holder_ok (s', h)"
      using ok(4) counted_stays [OF other(2) _ _ ok(1)] by (fastforce simp: holder_ok_def split: option.splits)
    then show ?thesis
      using keep [OF other(2)] other(1) by (simp add: staged_ok_def)
  next
    case (lock i n req adu)
    then show ?thesis using ok by (auto simp: staged_ok_def holder_ok_def)
  next
    case (stage p p' t i)
    then show ?thesis
      using ok stage_main_ok [OF ok(3,1), of i p t]
      by (auto simp: staged_ok_def holder_ok_def workers_ok_def listener_ok_def)
  next
    case (unlock p ok' rsp i n req)
    then have "pdu req \<noteq> []" using ok(4) by (auto simp: holder_ok_def)
    from keep [OF unlock_process_step [OF ok(1) unlock(6) this unlock(7)]] show ?thesis
      using unlock by (simp add: staged_ok_def holder_ok_def)
  qed
qed

lemma staged_reach_ok: "staged_reach X t0 c \<Longrightarrow> staged_ok c"
proof (induction rule: staged_reach.induct)
  case (staged_boot ptr)
  have "process_reach no_exchange t0 (boot_process t0 ptr)"
    by (rule reach_boot)
  from reach_workers_ok [OF this] reach_listener_main_ok [OF this] show ?case
    by (simp add: staged_ok_def holder_ok_def)
next
  case (staged_next c a c')
  then show ?case using staged_step_ok by (cases c; cases c') blast
qed

section \<open>The mutex makes an exchange one step\<close>

text \<open>
  A state of \<open>Process\<close> for every state here: the transport is \<open>t\<close>, as the running call found it, and
  the pointer to the serial line is null, because what is read through it may be from the middle of a
  call.
\<close>

fun main_view :: "main_pc \<Rightarrow> main_pc" where
  "main_view (M_Bus_Dump cfd got) = M_Result cfd"
| "main_view pc = pc"

lemma ended_main_view [simp]: "ended (main_view pc) = ended pc"
  by (cases pc) simp_all

definition settled :: "'t process \<Rightarrow> 't \<Rightarrow> 't process" where
  "settled s t = s\<lparr>main_pc := main_view (main_pc s), rtu := t, serial_ptr := None, bus_dumps := [],
     bus_report := None\<rparr>"

lemma settled_select [simp]:
  "main_pc (settled s t) = main_view (main_pc s)" "rtu (settled s t) = t" "serial_ptr (settled s t) = None"
  "running (settled s t) = running s" "g_listen_fd (settled s t) = g_listen_fd s"
  "dump_stats (settled s t) = dump_stats s" "lfd (settled s t) = lfd s" "workers (settled s t) = workers s"
  "accepted (settled s t) = accepted s" "joined (settled s t) = joined s" "counters (settled s t) = counters s"
  "exchanging (settled s t) = exchanging s" "shutting (settled s t) = shutting s"
  "shutdowns (settled s t) = shutdowns s" "lfd_closed (settled s t) = lfd_closed s"
  "dumps (settled s t) = dumps s" "report (settled s t) = report s" "bus_report (settled s t) = None"
  by (simp_all add: settled_def)

lemma settled_update [simp]:
  "settled (s\<lparr>main_pc := pc\<rparr>) t = (settled s t)\<lparr>main_pc := main_view pc\<rparr>"
  "settled (s\<lparr>running := b\<rparr>) t = (settled s t)\<lparr>running := b\<rparr>"
  "settled (s\<lparr>g_listen_fd := k\<rparr>) t = (settled s t)\<lparr>g_listen_fd := k\<rparr>"
  "settled (s\<lparr>dump_stats := b\<rparr>) t = (settled s t)\<lparr>dump_stats := b\<rparr>"
  "settled (s\<lparr>lfd := k\<rparr>) t = (settled s t)\<lparr>lfd := k\<rparr>"
  "settled (s\<lparr>workers := ws\<rparr>) t = (settled s t)\<lparr>workers := ws\<rparr>"
  "settled (s\<lparr>accepted := n\<rparr>) t = (settled s t)\<lparr>accepted := n\<rparr>"
  "settled (s\<lparr>joined := js\<rparr>) t = (settled s t)\<lparr>joined := js\<rparr>"
  "settled (s\<lparr>rtu := u\<rparr>) t = settled s t"
  "settled (s\<lparr>counters := st\<rparr>) t = (settled s t)\<lparr>counters := st\<rparr>"
  "settled (s\<lparr>exchanging := n\<rparr>) t = (settled s t)\<lparr>exchanging := n\<rparr>"
  "settled (s\<lparr>shutting := n\<rparr>) t = (settled s t)\<lparr>shutting := n\<rparr>"
  "settled (s\<lparr>shutdowns := n\<rparr>) t = (settled s t)\<lparr>shutdowns := n\<rparr>"
  "settled (s\<lparr>lfd_closed := b\<rparr>) t = (settled s t)\<lparr>lfd_closed := b\<rparr>"
  "settled (s\<lparr>dumps := ds\<rparr>) t = (settled s t)\<lparr>dumps := ds\<rparr>"
  "settled (s\<lparr>report := r\<rparr>) t = (settled s t)\<lparr>report := r\<rparr>"
  "settled (s\<lparr>bus_dumps := ds\<rparr>) t = settled s t"
  "settled (s\<lparr>bus_report := r\<rparr>) t = settled s t"
  by (cases s; simp add: settled_def)+

lemma settled_same [simp]: "(settled s t)\<lparr>bus_report := None\<rparr> = settled s t" "(settled s t)\<lparr>rtu := t\<rparr> = settled s t"
  by (cases s; simp add: settled_def)+

lemma settled_main_step:
  assumes "main_step s s'"
  shows "settled s' t = settled s t \<or> main_step (settled s t) (settled s' t)"
  using assms
proof cases
  case (print cfd got vals)
  then show ?thesis
    using main_step.print [of "settled s t" cfd got vals] by simp
next
  case last
  then have "settled s' t = (settled s t)\<lparr>main_pc := M_Exit 0, lfd_closed := 0 \<le> g_listen_fd (settled s t),
      report := Some (report_of (counters (settled s t))), bus_report := bus_report_of (settled s t)\<rparr>"
    by (cases s) (simp add: settled_def bus_report_of_def)
  then show ?thesis
    using main_step.last [of "settled s t"] last by simp
next
  case (load_bus cfd got ptr k)
  then have "settled s' t = settled s t"
    by (cases s) (simp add: settled_def)
  then show ?thesis by simp
next
  case (print_bus cfd got vals)
  then have "settled s' t = settled s t"
    by (cases s) (simp add: settled_def)
  then show ?thesis by simp
next
  case (load cfd got k)
  then show ?thesis
    using main_step.load [where s = "settled s t"] by simp
next
  case (join k why)
  then show ?thesis
    using main_step.join [where s = "settled s t" and k = k and why = why] by simp
next
  case (spawn cfd)
  then show ?thesis
    using main_step.spawn [where s = "settled s t"] by simp
qed (auto intro: main_step.intros)

lemma settled_process_step:
  assumes "process_step no_exchange a s s'"
  shows "settled s' t = settled s t \<or> process_step transact a (settled s t) (settled s' t)"
  using assms
proof cases
  case prepare
  from prepare(2) have "setup_step (settled s t) (settled s' t)"
    by cases (auto intro: setup_step.intros setup_step.publish [where s = "settled s t", simplified])
  then show ?thesis using prepare(1) process_step.prepare by metis
next
  case accepts
  from accepts(2) have "accept_step (settled s t) (settled s' t)"
    by cases (auto intro: accept_step.intros)
  then show ?thesis using accepts(1) process_step.accepts by metis
next
  case main
  then show ?thesis using settled_main_step process_step.main by metis
next
  case (worker i w u st)
  have "worker_step transact (running s) (workers s i, t, counters s) (w, t, st)"
    using worker(3) by (cases rule: worker_step_cases)
      (auto intro: worker_step.intros simp: gw_transact_def bind_eq_Some_conv)
  from process_step.worker [of transact "settled s t" i, simplified, OF this worker(4)]
  have "process_step transact (Worker i) (settled s t)
      ((settled s t)\<lparr>workers := (workers s)(i := w), rtu := t, counters := st\<rparr>)" .
  moreover have "settled s' t = (settled s t)\<lparr>workers := (workers s)(i := w), rtu := t, counters := st\<rparr>"
    using worker(2) by (cases s) (simp add: settled_def)
  ultimately show ?thesis
    using worker(1) by simp
next
  case (socket i w)
  from process_step.socket [of "settled s t" i w transact] show ?thesis
    using socket by simp
next
  case handler
  from handler(2) have "handler_step (settled s t) (settled s' t)"
    by cases (auto intro: handler_step.intros [where s = "settled s t", simplified])
  then show ?thesis using handler(1,3) process_step.handler [of "settled s t"] by simp
next
  case signal
  from signal(2) have "signal_step (settled s t) (settled s' t)"
    by cases (auto intro: signal_step.intros signal_step.on_signal [where s = "settled s t", simplified]
        signal_step.on_sigusr1 [where s = "settled s t", simplified])
  then show ?thesis using signal(1,3) process_step.signal [of "settled s t"] by simp
qed

text \<open>
  While a call runs, the state it found, \<open>t\<close>, is the transport of the settled state, and what remains
  of the call is what \<open>transact\<close> does on \<open>t\<close>.
\<close>

definition call_of :: "'t transact \<Rightarrow> ('p \<Rightarrow> 't \<Rightarrow> (bool \<times> u8 list \<times> 't) option) \<Rightarrow>
    't process \<times> (nat \<times> 'p) option \<Rightarrow> 't \<Rightarrow> bool" where
  "call_of transact remaining = (\<lambda>(s, h) t. case h of
     None \<Rightarrow> t = rtu s
   | Some (i, p) \<Rightarrow> \<exists>n req adu. w_pc (workers s i) = In_handle n (Counted req) \<and> pdu req \<noteq> [] \<and>
       tcp_to_rtu req = Some adu \<and> remaining p (rtu s) = transact t adu [])"

text \<open>A relation between the entry of a call and its current stage.\<close>

definition kept_by :: "('t, 'p) stages \<Rightarrow> ('t \<Rightarrow> 'p \<Rightarrow> 't \<Rightarrow> bool) \<Rightarrow> bool" where
  "kept_by X D \<longleftrightarrow> (\<forall>t req rsp. D t (begins X t req rsp) t) \<and>
     (\<forall>t p u p' u'. D t p u \<longrightarrow> advance X p u = Some (p', u') \<longrightarrow> D t p' u')"

definition during :: "('t \<Rightarrow> 'p \<Rightarrow> 't \<Rightarrow> bool) \<Rightarrow> 't process \<times> (nat \<times> 'p) option \<Rightarrow> 't \<Rightarrow> bool" where
  "during D = (\<lambda>(s, h) t. \<forall>i p. h = Some (i, p) \<longrightarrow> D t p (rtu s))"

text \<open>A step of a thread is an exchange or does not depend on the transport.\<close>

lemma worker_step_exchange [consumes 1, case_names other exchange]:
  assumes "worker_step transact run (w, t, st) (w', t', st')"
  obtains "worker_step no_exchange run (w, t, st) (w', t', st')"
  | n req ok r where "w_pc w = In_handle n (Counted req)" "pdu req \<noteq> []"
      "gw_transact transact t req = Some (ok, r, t')" "w' = w\<lparr>w_pc := In_handle n (Answered req ok r)\<rparr>" "st' = st"
proof -
  have "worker_step no_exchange run (w, t, st) (w', t', st') \<or> (\<exists>n req ok r. w_pc w = In_handle n (Counted req) \<and>
      pdu req \<noteq> [] \<and> gw_transact transact t req = Some (ok, r, t') \<and>
      w' = w\<lparr>w_pc := In_handle n (Answered req ok r)\<rparr> \<and> st' = st)"
    using assms by (cases rule: worker_step_cases) (auto intro: worker_step.intros)
  then show thesis using that by blast
qed

context staged_transport
begin

lemma staged_step_settled:
  assumes "staged_step X a (s, h) (s', h')" and "staged_ok (s, h)" and "process_reach transact t0 (settled s t)"
    and "call_of transact remaining (s, h) t" and "inv t" and "kept_by X D" and "during D (s, h) t"
  shows "\<exists>t'. process_reach transact t0 (settled s' t') \<and> call_of transact remaining (s', h') t' \<and> inv t' \<and>
    during D (s', h') t'"
  using assms(1)
proof cases
  case other
  have "call_of transact remaining (s', h) t"
    using assms(2,4) no_exchange_rtu [OF other(2)] counted_stays [OF other(2)]
    by (auto simp: call_of_def staged_ok_def split: option.splits)
  moreover have "during D (s', h) t"
    using assms(7) no_exchange_rtu [OF other(2)] by (auto simp: during_def)
  ultimately show ?thesis
    using settled_process_step [OF other(2)] process_reach.reach_step [OF assms(3)] assms(3,5) other(1) by metis
next
  case (lock i n req adu)
  then show ?thesis
    using assms(3-6) by (auto simp: call_of_def remaining_begins during_def kept_by_def)
next
  case (stage p p' u i)
  obtain n req adu where c: "w_pc (workers s i) = In_handle n (Counted req)" "pdu req \<noteq> []"
    "tcp_to_rtu req = Some adu" "remaining p (rtu s) = transact t adu []"
    using assms(4) stage(2) by (auto simp: call_of_def)
  then have "remaining p (rtu s) \<noteq> None"
    using transact_returns [OF assms(5), of adu "[]"] by auto
  then have "remaining p' u = transact t adu []"
    using remaining_advance [OF stage(5)] c(4) by simp
  moreover have "D t p' u"
    using assms(6,7) stage by (auto simp: kept_by_def during_def)
  ultimately show ?thesis
    using assms(3,5) stage c by (intro exI [of _ t]) (auto simp: call_of_def during_def)
next
  case (unlock p ok rsp i n req)
  obtain adu where c: "tcp_to_rtu req = Some adu" "pdu req \<noteq> []" "remaining p (rtu s) = transact t adu []"
    using assms(4) unlock by (auto simp: call_of_def)
  then have tr: "transact t adu [] = Some (ok, rsp, rtu s)"
    using remaining_returns [OF unlock(5)] by simp
  then have inv': "inv (rtu s)"
    using transact_returns [OF assms(5), of adu "[]"] by simp
  let ?w = "(workers s i)\<lparr>w_pc := In_handle n (Answered req ok rsp)\<rparr>"
  have "worker_step transact (running s) (workers s i, t, counters s) (?w, rtu s, counters s)"
    using unlock(6) c tr by (intro worker_step.exchange) (simp_all add: gw_transact_def)
  from process_step.worker [of transact "settled s t" i, simplified, OF this unlock(7)]
  have "process_step transact (Worker i) (settled s t)
      ((settled s t)\<lparr>workers := (workers s)(i := ?w), rtu := rtu s, counters := counters s\<rparr>)" .
  moreover have "(settled s t)\<lparr>workers := (workers s)(i := ?w), rtu := rtu s, counters := counters s\<rparr> = settled s' (rtu s)"
    using unlock(3) by (cases s) (simp add: settled_def)
  ultimately have "process_reach transact t0 (settled s' (rtu s))"
    using process_reach.reach_step [OF assms(3)] by metis
  then show ?thesis
    using unlock inv' by (intro exI [of _ "rtu s"]) (simp add: call_of_def during_def)
qed

lemma staged_reach_during:
  assumes "staged_reach X t0 c" and "inv t0" and "kept_by X D"
  shows "\<exists>t. process_reach transact t0 (settled (fst c) t) \<and> call_of transact remaining c t \<and> inv t \<and> during D c t"
  using assms(1)
proof (induction rule: staged_reach.induct)
  case (staged_boot ptr)
  have "settled (boot_process t0 ptr) t0 = boot_process t0 None"
    by (simp add: settled_def boot_process_def)
  then show ?case
    using process_reach.reach_boot [of transact t0 None] assms(2)
    by (auto simp: call_of_def during_def boot_process_def)
next
  case (staged_next c a c')
  then show ?case
    using staged_step_settled [of a "fst c" "snd c" "fst c'" "snd c'" t0 _ D] staged_reach_ok [OF staged_next(1)] assms(3)
    by auto
qed

lemma staged_reach_settled:
  assumes "staged_reach X t0 c" and "inv t0"
  shows "\<exists>t. process_reach transact t0 (settled (fst c) t) \<and> call_of transact remaining c t \<and> inv t"
  using staged_reach_during [OF assms, of "\<lambda>_ _ _. True"] by (auto simp: kept_by_def)

text \<open>Conversely, \<open>Process\<close> adds nothing: each of its states is one here, with the mutex free.\<close>

lemma stage_run_staged:
  assumes "stage_run (p, t) (p', t')" and "staged_reach X t0 (s\<lparr>rtu := t\<rparr>, Some (i, p))" and "\<not> ended (main_pc s)"
  shows "staged_reach X t0 (s\<lparr>rtu := t'\<rparr>, Some (i, p'))"
  using assms(1)[unfolded stage_run_def]
proof (induction "(p', t')" arbitrary: p' t' rule: rtranclp_induct)
  case base
  then show ?case using assms(2) by simp
next
  case (step c)
  then obtain q u where c: "c = (q, u)" "advance X q u = Some (p', t')"
    by (cases c) auto
  then have "staged_step X (Worker i) (s\<lparr>rtu := u\<rparr>, Some (i, q)) ((s\<lparr>rtu := u\<rparr>)\<lparr>rtu := t'\<rparr>, Some (i, p'))"
    by (intro staged_step.stage) (simp_all add: assms(3))
  then show ?case
    using staged_next [OF step(3) [OF c(1)]] by simp
qed

lemma process_step_cases:
  assumes "process_step transact a s s'"
  obtains (other) "process_step no_exchange a s s'"
  | (exchange) i n req ok r t where "\<not> ended (main_pc s)" "a = Worker i" "w_pc (workers s i) = In_handle n (Counted req)" "pdu req \<noteq> []"
      "gw_transact transact (rtu s) req = Some (ok, r, t)"
      "s' = s\<lparr>workers := (workers s)(i := (workers s i)\<lparr>w_pc := In_handle n (Answered req ok r)\<rparr>), rtu := t\<rparr>"
  using assms
proof cases
  case (worker i w t st)
  from worker(3) show ?thesis
  proof (cases rule: worker_step_exchange)
    case other
    then show ?thesis
      using that(1) process_step.worker [OF _ worker(4)] worker(1,2) by blast
  next
    case (exchange n req ok r)
    then show ?thesis
      using that(2) [OF worker(4,1)] worker(2) by simp
  qed
qed (use that(1) in \<open>auto intro: process_step.intros\<close>)

lemma process_reach_staged:
  assumes "process_reach transact t0 s" and "inv t0"
  shows "staged_reach X t0 (s, None)"
  using assms(1)
proof (induction rule: process_reach.induct)
  case (reach_boot ptr)
  show ?case by (rule staged_boot)
next
  case (reach_step s a s')
  from reach_step(2) show ?case
  proof (cases rule: process_step_cases)
    case other
    then show ?thesis
      using staged_next [OF reach_step(3) staged_step.other] by blast
  next
    case (exchange i n req ok r t)
    then obtain adu where adu: "tcp_to_rtu req = Some adu" "transact (rtu s) adu [] = Some (ok, r, t)"
      by (auto simp: gw_transact_def bind_eq_Some_conv)
    then obtain p where run: "stage_run (begins X (rtu s) adu [], rtu s) (p, t)" "returns X p = Some (ok, r)"
      using stages_compute [OF reach_legal [OF reach_step(1) assms(2)], of adu "[]"] by auto
    have "staged_reach X t0 (s\<lparr>rtu := rtu s\<rparr>, Some (i, begins X (rtu s) adu []))"
      using staged_next [OF reach_step(3) staged_step.lock [OF exchange(3,4) adu(1) exchange(1)]] by simp
    then have "staged_reach X t0 (s\<lparr>rtu := t\<rparr>, Some (i, p))"
      by (rule stage_run_staged [OF run(1) _ exchange(1)])
    from staged_next [OF this staged_step.unlock [OF run(2), of _ i n req]] exchange(1,3)
    have "staged_reach X t0 ((s\<lparr>rtu := t\<rparr>)\<lparr>workers := (workers s)(i := (workers s i)\<lparr>w_pc := In_handle n (Answered req ok r)\<rparr>)\<rparr>, None)"
      by simp
    then show ?thesis
      unfolding exchange(6) by (cases s) simp
  qed
qed

end

section \<open>Termination and progress\<close>

text \<open>The rank of the process, then the mutex: free, or held with the stages to come.\<close>

definition call_state :: "'t process \<times> (nat \<times> 'p) option \<Rightarrow> ('p \<times> 't) option" where
  "call_state = (\<lambda>(s, h). map_option (\<lambda>(i, p). (p, rtu s)) h)"

definition staged_less :: "(('p \<times> 't) \<times> ('p \<times> 't)) set \<Rightarrow>
    (('t process \<times> (nat \<times> 'p) option) \<times> ('t process \<times> (nat \<times> 'p) option)) set" where
  "staged_less closer = inv_image
     (process_less <*lex*> less_than <*lex*> {(Some x, Some y) | x y. (x, y) \<in> closer})
     (\<lambda>c. (process_rank (fst c), if snd c = None then 1 else 0, call_state c))"

lemma wf_staged_less: "wf closer \<Longrightarrow> wf (staged_less closer)"
  unfolding staged_less_def by (intro wf_inv_image wf_lex_prod wf_process_less wf_less_than wf_some)

lemma process_rank_rtu [simp]: "process_rank (s\<lparr>rtu := t\<rparr>) = process_rank s"
  by (simp add: process_rank_def workers_rank_def split: main_pc.split)

context staged_transport
begin

lemma call_returns:
  assumes "staged_reach X t0 (s, Some (i, p))" and "inv t0"
  shows "remaining p (rtu s) \<noteq> None"
proof -
  obtain t n req adu where "inv t" "remaining p (rtu s) = transact t adu []"
    using staged_reach_settled [OF assms] by (auto simp: call_of_def)
  then show ?thesis
    using transact_returns [of t adu "[]"] by auto
qed

lemma staged_step_less:
  assumes "staged_step X a c c'" and "a \<noteq> Signal" and "\<not> running (fst c)" and "staged_reach X t0 c" and "inv t0"
  shows "(c', c) \<in> staged_less closer"
proof -
  obtain s h s' h' where c: "c = (s, h)" "c' = (s', h')" by (cases c; cases c') auto
  have ok: "workers_ok s" "holder_ok (s, h)"
    using staged_reach_ok [OF assms(4)] c(1) by (auto simp: staged_ok_def)
  have "staged_step X a (s, h) (s', h')"
    using assms(1) c by simp
  then have "((s', h'), (s, h)) \<in> staged_less closer"
  proof cases
    case other
    then show ?thesis
      using process_step_rank [OF other(2) assms(2) _ ok(1)] assms(3) c(1) by (simp add: staged_less_def)
  next
    case (lock i n req adu)
    then show ?thesis by (simp add: staged_less_def)
  next
    case (stage p p' u i)
    then have "((p', u), (p, rtu s)) \<in> closer"
      using remaining_advance [OF stage(5)] call_returns [of t0 s i p] assms(4,5) c(1) by simp
    then show ?thesis
      using stage by (simp add: staged_less_def call_state_def)
  next
    case (unlock p ok' rsp i n req)
    then have "pdu req \<noteq> []" using ok(2) by (auto simp: holder_ok_def)
    from process_step_rank [OF unlock_process_step [OF ok(1) unlock(6) this unlock(7)]] show ?thesis
      using assms(3) ok(1) unlock c(1) by (simp add: staged_less_def)
  qed
  then show ?thesis by (simp add: c)
qed

lemma holder_can_step:
  assumes "staged_reach X t0 (s, Some (i, p))" and "inv t0" and "\<not> ended (main_pc s)"
  shows "\<exists>c'. staged_step X (Worker i) (s, Some (i, p)) c'"
proof (cases "returns X p")
  case None
  then obtain p' t where "advance X p (rtu s) = Some (p', t)"
    using advances [OF call_returns [OF assms(1,2)]] by blast
  from staged_step.stage [OF this assms(3)] show ?thesis by blast
next
  case (Some r)
  obtain n req where "w_pc (workers s i) = In_handle n (Counted req)"
    using counted_holder staged_reach_ok [OF assms(1)] by (fastforce simp: staged_ok_def)
  then show ?thesis
    using staged_step.unlock [of X p "fst r" "snd r" s i n req] Some assms(3) by auto
qed

lemma free_worker_can_step:
  assumes "worker_step transact (running s) (workers s i, rtu s, counters s) (w, t, st)" and "\<not> ended (main_pc s)"
  shows "\<exists>c'. staged_step X (Worker i) (s, None) c'"
  using assms(1)
proof (cases rule: worker_step_exchange)
  case other
  then show ?thesis
    using staged_step.other [OF process_step.worker [OF _ assms(2)]] by blast
next
  case (exchange n req ok r)
  then show ?thesis
    using staged_step.lock [of s i n req] assms(2) by (auto simp: gw_transact_def bind_eq_Some_conv)
qed

end

text \<open>A state in which the thread of the first master holds the mutex.\<close>

lemma reach_holding:
  assumes "\<And>s. process_reach transact t0 s \<Longrightarrow> staged_reach X t0 (s, None)" and "wf_frame q"
  shows "\<exists>adu. tcp_to_rtu q = Some adu \<and>
    staged_reach X t0 (one_master ptr t0 (counted_worker q) t0 (gw_count zero_stats), Some (0, begins X t0 adu []))"
proof -
  let ?s = "one_master ptr t0 (counted_worker q) t0 (gw_count zero_stats)"
  have pc: "w_pc (workers ?s 0) = In_handle (length (encode q)) (Counted q)"
    by (simp add: counted_worker_def)
  have "pdu q \<noteq> []"
    using assms(2) by (auto simp: wf_frame_def mbap_consts)
  moreover obtain adu where "tcp_to_rtu q = Some adu"
    using assms(2) by (auto simp: wf_frame_def mbap_consts tcp_to_rtu_eq)
  ultimately have adu: "tcp_to_rtu q = Some adu" "pdu q \<noteq> []" by simp_all
  have "staged_reach X t0 (?s, None)"
    by (rule assms(1) [OF reach_counted [OF assms(2)]])
  from staged_next [OF this staged_step.lock [OF pc adu(2,1)]] adu(1) show ?thesis by simp
qed

section \<open>Properties\<close>

text \<open>C7: The mutex makes an exchange one step. Let a transport be implemented by stages. The process
  whose threads go through these stages under the mutex, with all other threads, \<open>main\<close> and the
  signal handlers in between, and the process that takes each exchange as one step reach the
  same states: every state of the first, with the transport as it was when the running call
  began, is one of the second (all but what the SIGUSR1 diagnostics print about the serial line), and
  every state of the second is one of the first with the mutex free.\<close>

theorem exchange_is_atomic:
  assumes "staged_transport transact legal X remaining closer" and "legal t0"
  shows "(\<forall>s h. staged_reach X t0 (s, h) \<longrightarrow>
      (\<exists>t. process_reach transact t0 (settled s t) \<and> legal t \<and> (h = None \<longrightarrow> t = rtu s))) \<and>
    (\<forall>s. process_reach transact t0 s \<longrightarrow> staged_reach X t0 (s, None))"
proof (intro conjI allI impI)
  fix s h
  assume "staged_reach X t0 (s, h)"
  from staged_transport.staged_reach_settled [OF assms(1) this assms(2)]
  show "\<exists>t. process_reach transact t0 (settled s t) \<and> legal t \<and> (h = None \<longrightarrow> t = rtu s)"
    by (auto simp: call_of_def)
qed (rule staged_transport.process_reach_staged [OF assms(1) _ assms(2)])

theorem exchange_is_atomic_witness:
  "\<exists>s p t. staged_reach (in_process_stages (\<lambda>_. 0)) demo_bus (s, Some (0, p)) \<and> w_in (workers s 0) = encode demo_request \<and>
    process_reach (in_process_transact (\<lambda>_. 0)) demo_bus (settled s t)"
proof -
  let ?X = "in_process_stages (\<lambda>_. 0)"
  let ?s = "one_master None demo_bus (counted_worker demo_request) demo_bus (gw_count zero_stats)"
  obtain p where "staged_reach ?X demo_bus (?s, Some (0, p))"
    using reach_holding [OF inproc_stages.process_reach_staged [OF _ demo_bus_ok(1)] demo_request_ok(3)] by metis
  moreover from this obtain t where "process_reach (in_process_transact (\<lambda>_. 0)) demo_bus (settled ?s t)"
    using exchange_is_atomic [OF inproc_stages.staged_transport_axioms demo_bus_ok(1)] by blast
  ultimately show ?thesis
    by (intro exI [of _ ?s] exI [of _ p] exI [of _ t]) (simp add: counted_worker_def)
qed

lemma staged_progress:
  assumes "staged_transport transact legal X remaining closer" and "legal t0" and "staged_reach X t0 (s, h)"
    and "\<not> ended (main_pc s)" and "\<not> (main_pc s = M_Accept \<and> running s)"
    and "\<And>i. w_pc (workers s i) \<noteq> At_recv" and "\<And>i n out k. w_pc (workers s i) = At_send n out k \<Longrightarrow> \<not> k < length out"
  shows "\<exists>a c'. a \<in> {Setup, Main, Handler} \<union> range Worker \<and> staged_step X a (s, h) c'"
proof (cases h)
  case (Some ip)
  then show ?thesis
    using staged_transport.holder_can_step [OF assms(1) _ assms(2,4), of "fst ip" "snd ip"] assms(3) by auto
next
  case None
  note ok = staged_reach_ok [OF assms(3), unfolded staged_ok_def, simplified]
  have legal: "legal (rtu s)"
    using staged_transport.staged_reach_settled [OF assms(1,3,2)] None by (auto simp: call_of_def)
  show ?thesis
  proof (rule ccontr)
    assume stuck: "\<not> ?thesis"
    have quiet: "\<not> process_step no_exchange a s s'" if "a \<in> {Setup, Main, Handler}" for a s'
      using stuck that staged_step.other [of a s s' X h] by blast
    have "\<not> main_step s s'" "\<not> setup_step s s'" "\<not> handler_step s s'" for s'
      using quiet [of Main s'] process_step.main [of s s'] quiet [of Setup s'] process_step.prepare [of s s']
        quiet [of Handler s'] process_step.handler [of s s'] assms(4) by auto
    from stuck_in_join [OF _ _ _ assms(4) this assms(5)] ok
    obtain k where k: "worker_ok (workers s k)" "w_pc (workers s k) \<noteq> Absent" "\<nexists>why. w_pc (workers s k) = Returned why"
      by metis
    then obtain w t st where "worker_step transact (running s) (workers s k, rtu s, counters s) (w, t, st)"
      using rtu_transport.worker_can_step [OF staged_transport.axioms(1) [OF assms(1)] k(1) legal, of "running s" "counters s"]
        assms(6,7) by auto
    from staged_transport.free_worker_can_step [OF assms(1) this assms(4)] show False
      using stuck None by blast
  qed
qed

text \<open>A state in which the thread of the first master holds the mutex after a signal.\<close>

lemma reach_holding_stopped:
  "\<exists>s p. staged_reach (in_process_stages (\<lambda>_. 0)) demo_bus (s, Some (0, p)) \<and> \<not> running s \<and> main_pc s = M_Test"
proof -
  let ?s = "one_master None demo_bus (counted_worker demo_request) demo_bus (gw_count zero_stats)"
  obtain p where "staged_reach (in_process_stages (\<lambda>_. 0)) demo_bus (?s, Some (0, p))"
    using reach_holding [OF inproc_stages.process_reach_staged [OF _ demo_bus_ok(1)] demo_request_ok(3)] by metis
  from staged_next [OF this staged_step.other [OF process_step.signal [OF signal_step.on_signal [of SIGTERM]]]]
  show ?thesis by fastforce
qed

text \<open>C12: Shutdown completes, stages included. Once \<open>g_running\<close> is false there is no infinite run without
  further signals in which the threads go through the stages of their exchanges, and a run can
  only come to a stop where the process has ended: until then \<open>main\<close>, a handler or a thread can step, or a
  call of \<open>recv\<close> or \<open>send\<close> returns once its master sends, reads or disconnects.\<close>

theorem staged_shutdown_completes:
  assumes "staged_transport transact legal X remaining closer" and "legal t0"
  shows "wf {(c', c). staged_reach X t0 c \<and> \<not> running (fst c) \<and> (\<exists>a. a \<noteq> Signal \<and> staged_step X a c c')} \<and>
    (\<forall>c. staged_reach X t0 c \<and> \<not> running (fst c) \<and> \<not> ended (main_pc (fst c)) \<longrightarrow> (\<exists>a c'. a \<noteq> Signal \<and> staged_step X a c c'))"
proof (intro conjI allI impI)
  show "wf {(c', c). staged_reach X t0 c \<and> \<not> running (fst c) \<and> (\<exists>a. a \<noteq> Signal \<and> staged_step X a c c')}"
  proof (rule wf_subset)
    show "wf (staged_less closer)"
      by (rule wf_staged_less [OF staged_transport.wf_closer [OF assms(1)]])
  qed (auto intro: staged_transport.staged_step_less [OF assms(1) _ _ _ _ assms(2)])
next
  fix c
  assume c: "staged_reach X t0 c \<and> \<not> running (fst c) \<and> \<not> ended (main_pc (fst c))"
  obtain s h where s: "c = (s, h)" by (cases c)
  show "\<exists>a c'. a \<noteq> Signal \<and> staged_step X a c c'"
  proof (rule ccontr)
    assume stuck: "\<not> ?thesis"
    have "\<not> socket_step (workers s i) w" for i w
      using stuck staged_step.other [OF process_step.socket [of s i w], of X h] s c by auto
    then have "w_pc (workers s i) \<noteq> At_recv" "w_pc (workers s i) = At_send n out k \<Longrightarrow> \<not> k < length out" for i n out k
      using socket_step.recv_end [of "workers s i"] socket_step.send_fail [of "workers s i" n out k] by blast+
    moreover have "staged_reach X t0 (s, h)" "\<not> ended (main_pc s)" "\<not> (main_pc s = M_Accept \<and> running s)"
      using c s by simp_all
    ultimately obtain a c' where "a \<in> {Setup, Main, Handler} \<union> range Worker" "staged_step X a (s, h) c'"
      using staged_progress [OF assms, of s h] by metis
    moreover from this(1) have "a \<noteq> Signal" by auto
    ultimately show False using stuck s by blast
  qed
qed

theorem staged_shutdown_completes_witness:
  "\<exists>s p. staged_reach (in_process_stages (\<lambda>_. 0)) demo_bus (s, Some (0, p)) \<and> \<not> running s \<and>
    wf {(c', c). staged_reach (in_process_stages (\<lambda>_. 0)) demo_bus c \<and> \<not> running (fst c) \<and>
      (\<exists>a. a \<noteq> Signal \<and> staged_step (in_process_stages (\<lambda>_. 0)) a c c')} \<and>
    (\<exists>a c'. a \<noteq> Signal \<and> staged_step (in_process_stages (\<lambda>_. 0)) a (s, Some (0, p)) c')"
proof -
  obtain s p where s: "staged_reach (in_process_stages (\<lambda>_. 0)) demo_bus (s, Some (0, p))" "\<not> running s" "main_pc s = M_Test"
    using reach_holding_stopped by blast
  then have "\<not> ended (main_pc s)" by simp
  then have "staged_reach (in_process_stages (\<lambda>_. 0)) demo_bus (s, Some (0, p)) \<and> \<not> running (fst (s, Some (0, p))) \<and>
      \<not> ended (main_pc (fst (s, Some (0, p))))"
    using s(1,2) by simp
  with staged_shutdown_completes [OF inproc_stages.staged_transport_axioms demo_bus_ok(1)] s(1,2) show ?thesis
    by blast
qed



end
