(* ===== verification/Serial_Accounts.thy ===== *)
theory Serial_Accounts
  imports Startup Serial_Stages Staged_Process
begin

text \<open>
  Double-entry accounts of the exchanges on the serial line. Each exchange has one outcome; the
  counters of \<open>SerialRtu\<close> (\<open>src/serial_rtu.hpp\<close>) and those of the gateway (\<open>GatewayStats\<close>,
  \<open>src/gateway.hpp\<close>) are shown to be counts of the same outcomes, however the threads interleave.
\<close>

section \<open>Outcomes and the counters of the gateway\<close>

definition waiting :: "'t system \<Rightarrow> bool \<Rightarrow> nat set" where
  "waiting g ok = {i. \<exists>q r. threads g i = Answered q ok r}"

lemma waiting_finite: "accounted g \<Longrightarrow> finite (waiting g ok)"
  by (rule finite_subset [of _ "busy g"]) (auto simp: waiting_def busy_def accounted_def)

text \<open>The threads back from the bus, after one thread has moved.\<close>

lemma waiting_move:
  assumes "threads g' = (threads g)(i := p)"
  shows "waiting g' ok = (if \<exists>q r. p = Answered q ok r then insert i (waiting g ok) else waiting g ok - {i})"
  using assms by (auto simp: waiting_def)

text \<open>
  \<open>outs\<close> are the outcomes of the exchanges so far, in the order of the bus; \<open>good\<close> outcomes are those
  in which \<open>transact\<close> returned true.
\<close>

definition gateway_books :: "('o \<Rightarrow> bool) \<Rightarrow> 't system \<Rightarrow> 'o list \<Rightarrow> bool" where
  "gateway_books good g outs \<longleftrightarrow>
     responses (stats g) + crc_failures (stats g) + of_nat (card (waiting g True)) =
       of_nat (length (filter good outs)) \<and>
     timeouts (stats g) + of_nat (card (waiting g False)) = of_nat (length (filter (\<lambda>x. \<not> good x) outs)) \<and>
     length outs + length (filter (\<lambda>(q, f). pdu (snd q) = []) (delivered g)) =
       length (delivered g) + card (waiting g True) + card (waiting g False)"

text \<open>Every exchange enters one outcome into the books \<open>books t outs\<close> of the transport.\<close>

definition books_kept :: "'t transact \<Rightarrow> ('o \<Rightarrow> bool) \<Rightarrow> ('t \<Rightarrow> 'o list \<Rightarrow> bool) \<Rightarrow> bool" where
  "books_kept transact good books \<longleftrightarrow> (\<forall>t outs req rsp ok r t'. books t outs \<longrightarrow>
     transact t req rsp = Some (ok, r, t') \<longrightarrow> (\<exists>x. books t' (outs @ [x]) \<and> good x = ok))"

lemma books_keptD:
  assumes "books_kept transact good books" and "books t outs" and "gw_transact transact t req = Some (ok, r, t')"
  shows "\<exists>x. books t' (outs @ [x]) \<and> good x = ok"
  using assms unfolding books_kept_def gw_transact_def bind_eq_Some_conv by blast

lemma gw_finish_outcome:
  assumes "gw_finish st req ok r = Some (f, st')"
  shows "if ok then timeouts st' = timeouts st \<and>
      responses st' + crc_failures st' = responses st + crc_failures st + 1
    else timeouts st' = timeouts st + 1 \<and> responses st' = responses st \<and> crc_failures st' = crc_failures st"
proof (cases ok)
  case True
  then obtain tcp where "rtu_to_tcp r (transaction_id req) = Some tcp"
    using assms by (auto simp: gw_finish_def Let_def bind_eq_Some_conv)
  then show ?thesis
    using assms True by (cases tcp) (auto simp: gw_finish_def Let_def)
qed (use assms in \<open>auto simp: gw_finish_def Let_def\<close>)

lemma gw_step_books:
  assumes "gw_step transact g g'" and "accounted g" and "gateway_books good g outs" and "books (bus g) outs"
    and "books_kept transact good books"
    and "\<And>i q ok r. threads g i = Answered q ok r \<Longrightarrow> pdu q \<noteq> []"
  shows "\<exists>outs'. gateway_books good g' outs' \<and> books (bus g') outs'"
  using assms(1)
proof cases
  case (start i req)
  then have "waiting g' ok = waiting g ok" for ok
    by (auto simp: waiting_def)
  then show ?thesis
    using assms(3,4) start by (intro exI [of _ outs]) (simp add: gateway_books_def gw_count_def)
next
  case (reject i req f st)
  then have "waiting g' ok = waiting g ok" for ok
    by (auto simp: waiting_def)
  then show ?thesis
    using assms(3,4) reject by (intro exI [of _ outs]) (auto simp: gateway_books_def gw_reject_def)
next
  case (exchange i req ok r t)
  obtain x where x: "books t (outs @ [x])" "good x = ok"
    using books_keptD [OF assms(5) _ exchange(4), of outs] assms(4) by blast
  have "waiting g' ok = insert i (waiting g ok)" "waiting g' (\<not> ok) = waiting g (\<not> ok)" "i \<notin> waiting g ok"
    using exchange by (auto simp: waiting_def)
  then show ?thesis
    using assms(3) x exchange waiting_finite [OF assms(2)]
    by (intro exI [of _ "outs @ [x]"]; cases ok) (auto simp: gateway_books_def algebra_simps)
next
  case (finish i req ok r f st)
  have w: "waiting g' ok = waiting g ok - {i}" "waiting g' (\<not> ok) = waiting g (\<not> ok)" "i \<in> waiting g ok"
    using finish by (auto simp: waiting_def)
  then have "card (waiting g ok) = Suc (card (waiting g' ok))"
    using card_Suc_Diff1 [OF waiting_finite [OF assms(2)], of i ok] by simp
  then show ?thesis
    using assms(3,4,6) w(2) finish gw_finish_outcome [OF finish(3)]
    by (intro exI [of _ outs]; cases ok) (auto simp: gateway_books_def algebra_simps)
qed

lemma gw_answered_nonempty:
  "gw_reach transact t0 g \<Longrightarrow> threads g i = Answered q ok r \<Longrightarrow> pdu q \<noteq> []"
proof (induction arbitrary: i q ok r rule: gw_reach.induct)
  case reach_boot
  then show ?case by (simp add: boot_def)
next
  case (reach_step g g')
  from reach_step(2) show ?case
    using reach_step.IH reach_step.prems by cases (auto split: if_splits)
qed

lemma gw_reach_books:
  assumes "gw_reach transact t0 g" and "books t0 []"
    and "books_kept transact good books"
  shows "\<exists>outs. gateway_books good g outs \<and> books (bus g) outs"
  using assms(1)
proof (induction rule: gw_reach.induct)
  case reach_boot
  show ?case
    using assms(2) by (intro exI [of _ "[]"]) (simp add: gateway_books_def waiting_def boot_def zero_stats_def)
next
  case (reach_step g g')
  then obtain outs where "gateway_books good g outs" "books (bus g) outs" by blast
  from gw_step_books [where books = books, OF reach_step(2) gw_reach_accounted [OF reach_step(1)] this assms(3)]
    gw_answered_nonempty [OF reach_step(1)]
  show ?case by blast
qed

text \<open>The same for the process: the threads back from the bus with a result.\<close>

definition off_bus :: "'t process \<Rightarrow> bool \<Rightarrow> nat set" where
  "off_bus s ok = {i. \<exists>n q r. w_pc (workers s i) = In_handle n (Answered q ok r)}"

lemma off_bus_waiting: "waiting (gateway_view s ds lg) ok = off_bus s ok"
proof -
  have "thread_of pc = Answered q ok r \<longleftrightarrow> (\<exists>n. pc = In_handle n (Answered q ok r))" for pc q r
    by (cases pc) auto
  then show ?thesis
    by (auto simp: waiting_def off_bus_def gateway_view_def)
qed

lemma delivered_nonempty:
  assumes "process_reach transact t0 s" and "refines transact t0 s ds lg"
  shows "filter (\<lambda>(q, f). pdu (snd q) = []) ds = []"
proof -
  have "pdu (snd q) \<noteq> []" if "(q, f) \<in> set ds" for q f
  proof -
    have "(q, f) \<in> set (of_client (fst q) ds)"
      using that by (auto simp: of_client_def)
    then have "(snd q, f) \<in> set (w_answers (workers s (fst q)))"
      using assms(2) by (cases q) (auto simp: refines_def tagged_def)
    moreover have "list_all wf_frame (requests_of (workers s (fst q)))"
      using reach_workers_ok [OF assms(1)] by (simp add: workers_ok_def worker_ok_def)
    ultimately have "wf_frame (snd q)"
      by (force simp: list_all_iff)
    then show ?thesis by (auto simp: wf_frame_def)
  qed
  then show ?thesis by (auto simp: filter_empty_conv)
qed

lemma reach_books:
  assumes "process_reach transact t0 s" and "books t0 []"
    and "books_kept transact good books"
  shows "\<exists>outs. books (rtu s) outs \<and>
    responses (counters s) + crc_failures (counters s) + of_nat (card (off_bus s True)) =
      of_nat (length (filter good outs)) \<and>
    timeouts (counters s) + of_nat (card (off_bus s False)) = of_nat (length (filter (\<lambda>x. \<not> good x) outs)) \<and>
    length outs = answered s + card (off_bus s True) + card (off_bus s False)"
proof -
  obtain ds lg where ref: "refines transact t0 s ds lg"
    using reach_refines [OF assms(1)] by blast
  then have "gw_reach transact t0 (gateway_view s ds lg)"
    by (simp add: refines_def)
  from gw_reach_books [where books = books, OF this assms(2,3)]
  obtain outs where "gateway_books good (gateway_view s ds lg) outs" "books (bus (gateway_view s ds lg)) outs"
    by blast
  then show ?thesis
    using ref delivered_nonempty [OF assms(1) ref]
    by (intro exI [of _ outs]) (simp add: gateway_books_def off_bus_waiting, simp add: gateway_view_def refines_def answered_def)
qed

section \<open>The counters of the serial line\<close>

text \<open>
  The outcome of an exchange: nothing was sent, because the port could not be opened or the fault
  injector dropped the request; \<open>write\<close> failed; \<open>poll\<close> or \<open>read\<close> failed; the device was silent;
  it answered.
\<close>

datatype exchange_outcome = Not_sent | Write_failed | Read_failed | Silent | Replied

definition tally :: "exchange_outcome list \<Rightarrow> exchange_outcome set \<Rightarrow> nat" where
  "tally outs xs = length (filter (\<lambda>x. x \<in> xs) outs)"

lemma tally_simps [simp]: "tally [] xs = 0" "tally (outs @ [x]) xs = tally outs xs + (if x \<in> xs then 1 else 0)"
  by (simp_all add: tally_def)

text \<open>The outcomes are finitely many, and a count of several is the sum of the counts of each.\<close>

instantiation exchange_outcome :: enum
begin

definition enum_exchange_outcome :: "exchange_outcome list" where
  "enum_exchange_outcome = [Not_sent, Write_failed, Read_failed, Silent, Replied]"

definition enum_all_exchange_outcome :: "(exchange_outcome \<Rightarrow> bool) \<Rightarrow> bool" where
  "enum_all_exchange_outcome P \<longleftrightarrow> P Not_sent \<and> P Write_failed \<and> P Read_failed \<and> P Silent \<and> P Replied"

definition enum_ex_exchange_outcome :: "(exchange_outcome \<Rightarrow> bool) \<Rightarrow> bool" where
  "enum_ex_exchange_outcome P \<longleftrightarrow> P Not_sent \<or> P Write_failed \<or> P Read_failed \<or> P Silent \<or> P Replied"

instance
proof
  show univ: "(UNIV :: exchange_outcome set) = set Enum.enum"
    using exchange_outcome.exhaust by (auto simp: enum_exchange_outcome_def)
  show "Enum.enum_all P \<longleftrightarrow> Ball UNIV P" "Enum.enum_ex P \<longleftrightarrow> Bex UNIV P" for P :: "exchange_outcome \<Rightarrow> bool"
    by (simp_all add: univ enum_exchange_outcome_def enum_all_exchange_outcome_def enum_ex_exchange_outcome_def)
qed (simp add: enum_exchange_outcome_def)

end

lemma tally_insert: "x \<notin> xs \<Longrightarrow> xs \<noteq> {} \<Longrightarrow> tally outs (insert x xs) = tally outs {x} + tally outs xs"
  by (induction outs rule: rev_induct) auto

lemma tally_UNIV: "tally outs UNIV = length outs"
  by (simp add: tally_def)

definition ledger :: "'e serial \<Rightarrow> exchange_outcome list \<Rightarrow> bool" where
  "ledger s outs \<longleftrightarrow> bus_requests s = of_nat (tally outs {Read_failed, Silent, Replied}) \<and>
     bus_replies s = of_nat (tally outs {Replied}) \<and> bus_timeouts s = of_nat (tally outs {Silent}) \<and>
     io_errors s = of_nat (tally outs {Write_failed, Read_failed})"

lemma ledger_new [simp]: "ledger (new_serial sc e) []"
  by (simp add: ledger_def new_serial_def)

lemma serial_ledger:
  assumes "posix_ok px rank" and "ledger s outs" and "serial_transact px s req rsp = Some (ok, r, s')"
  shows "\<exists>x. ledger s' (outs @ [x]) \<and> (x = Replied) = ok"
  using assms(1)
proof (cases rule: serial_cases [where s = s and req = req and rsp = rsp])
  case (not_open s1)
  then show ?thesis
    using assms(2,3) ensure_open_keeps [OF not_open(1)] by (intro exI [of _ Not_sent]) (simp add: ledger_def)
next
  case (write_failed s1 e)
  then show ?thesis
    using assms(2,3) ensure_open_keeps [OF write_failed(1)] by (intro exI [of _ Write_failed]) (auto simp: ledger_def)
next
  case (read_failed s1 e rsp')
  then show ?thesis
    using assms(2,3) ensure_open_keeps [OF read_failed(1)] by (intro exI [of _ Read_failed]) (auto simp: ledger_def)
next
  case (silent s1 e)
  then show ?thesis
    using assms(2,3) ensure_open_keeps [OF silent(1)] by (intro exI [of _ Silent]) (auto simp: ledger_def)
next
  case (answered s1 e rsp')
  then show ?thesis
    using assms(2,3) ensure_open_keeps [OF answered(1)] by (intro exI [of _ Replied]) (auto simp: ledger_def)
qed

section \<open>The transport of the process\<close>

text \<open>The serial line below the dispatch: what \<open>serial_ptr\<close> of \<open>main\<close> points to.\<close>

fun backend_serial :: "'e rtu_backend \<Rightarrow> 'e serial option" where
  "backend_serial (Serial_rtu s) = Some s"
| "backend_serial (In_process_rtu t) = None"

fun serial_of :: "('e, 'g, 'd) gateway_rtu \<Rightarrow> 'e serial option" where
  "serial_of (Plain b) = backend_serial b"
| "serial_of (With_faults f) = backend_serial (inner f)"

definition rtu_books :: "('e, 'g, 'd) gateway_rtu \<Rightarrow> exchange_outcome list \<Rightarrow> bool" where
  "rtu_books t outs \<longleftrightarrow> (\<exists>s. serial_of t = Some s \<and> ledger s outs)"

lemma backend_ledger:
  assumes "posix_ok px rank" and "backend_serial b = Some s" and "ledger s outs"
    and "backend_transact px garbage b req rsp = Some (ok, r, b')"
  shows "\<exists>x s'. backend_serial b' = Some s' \<and> ledger s' (outs @ [x]) \<and> (x = Replied) = ok"
proof -
  have b: "b = Serial_rtu s"
    using assms(2) by (cases b) auto
  then obtain s' where s': "serial_transact px s req rsp = Some (ok, r, s')" "b' = Serial_rtu s'"
    using assms(4) by (auto simp: bind_eq_Some_conv)
  show ?thesis
    using serial_ledger [OF assms(1,3) s'(1)] s'(2) by auto
qed

lemma rtu_books_kept:
  fixes below :: "'d \<Rightarrow> 'g \<Rightarrow> bool \<times> 'g" and px :: "('e, 'm) posix"
  assumes "posix_ok px rank" and "\<And>n g. fst (pick n g) \<le> n"
  shows "books_kept (rtu_transact px garbage below pick) (\<lambda>x. x = Replied) rtu_books"
  unfolding books_kept_def
proof (intro allI impI)
  fix t t' :: "('e, 'g, 'd) gateway_rtu" and outs req rsp ok r
  assume "rtu_books t outs" and tr: "rtu_transact px garbage below pick t req rsp = Some (ok, r, t')"
  then obtain s where s: "serial_of t = Some s" "ledger s outs"
    by (auto simp: rtu_books_def)
  note entry = backend_ledger [OF assms(1) _ s(2)]
  show "\<exists>x. rtu_books t' (outs @ [x]) \<and> (x = Replied) = ok"
  proof (cases t)
    case (Plain b)
    then obtain b' where "backend_transact px garbage b req rsp = Some (ok, r, b')" "t' = Plain b'"
      using tr by (auto simp: bind_eq_Some_conv)
    then show ?thesis
      using entry [of b] s(1) Plain by (fastforce simp: rtu_books_def)
  next
    case (With_faults f)
    then obtain f' where f': "faulty_transact below pick (backend_transact px garbage) f req rsp = Some (ok, r, f')"
      "t' = With_faults f'"
      using tr by (auto simp: bind_eq_Some_conv)
    have f: "backend_serial (inner f) = Some s" "backend_ok (inner f)"
      using s(1) With_faults by (cases "inner f"; simp)+
    from assms(2) f(2) show ?thesis
    proof (cases rule: rtu_transport.faulty_cases [OF backend_transport [OF assms(1), of garbage],
          where t = f and below = below and pick = pick and req = req and rsp = rsp,
          consumes 2, case_names dropped lost clean flipped])
      case (dropped u)
      then have "rtu_books t' (outs @ [Not_sent])" "\<not> ok"
        using f' s(2) f(1) by (auto simp: rtu_books_def ledger_def)
      then show ?thesis by blast
    next
      case (lost rsp' u i')
      then show ?thesis
        using entry [OF f(1) lost(2)] f' by (auto simp: rtu_books_def)
    next
      case (clean rsp' u i')
      then show ?thesis
        using entry [OF f(1) clean(2)] f' by (auto simp: rtu_books_def)
    next
      case (flipped orig i rsp' u i')
      then show ?thesis
        using entry [OF f(1) flipped(2)] f' by (auto simp: rtu_books_def)
    qed
  qed
qed

text \<open>\<open>main\<close> sets the pointer exactly when it builds the serial transport.\<close>

definition serial_ptr_of :: "'d options \<Rightarrow> (('e, 'g, 'd) gateway_rtu \<Rightarrow> bool \<times> u64 list) option" where
  "serial_ptr_of opt = (if opt_serial_port opt \<noteq> ''''
     then Some (\<lambda>t. case serial_of t of Some s \<Rightarrow> serial_view s | None \<Rightarrow> (False, [])) else None)"

lemma construct_serial:
  assumes "construct_rtu F mt19937 opt e = Some t0" and "opt_serial_port opt \<noteq> ''''"
  shows "rtu_books t0 []"
  using assms
  by (auto simp: construct_rtu_def select_backend_def rtu_books_def new_faulty_def split: option.splits)

end
