(* ===== verification/Staged_Gateway.thy ===== *)
theory Staged_Gateway
  imports Serial_Accounts
begin

text \<open>
  The stages of the transport that \<open>main\<close> of \<open>src/main.cpp\<close> builds from the options, and the
  properties of the gateway at this level: in every configuration an exchange is one step for the
  masters; what SIGUSR1 and the final report print about the serial line; and the one access to
  the transport that no mutex protects.
\<close>

section \<open>The stages of the transport\<close>

datatype 'm backend_pc = Serial_call "'m serial_call" | In_process_call poll_pc

fun backend_begins :: "'e rtu_backend \<Rightarrow> u8 list \<Rightarrow> u8 list \<Rightarrow> 'm backend_pc" where
  "backend_begins (Serial_rtu s) req rsp = Serial_call (serial_begins req rsp)"
| "backend_begins (In_process_rtu t) req rsp = In_process_call (Poll_begin req rsp)"

fun backend_advance :: "('e, 'm) posix \<Rightarrow> (nat \<Rightarrow> u8) \<Rightarrow> 'm backend_pc \<Rightarrow> 'e rtu_backend \<Rightarrow>
    ('m backend_pc \<times> 'e rtu_backend) option" where
  "backend_advance px garbage (Serial_call x) (Serial_rtu s) =
     map_option (\<lambda>(x, s). (Serial_call x, Serial_rtu s)) (serial_advance px x s)"
| "backend_advance px garbage (In_process_call p) (In_process_rtu t) =
     map_option (\<lambda>(p, t). (In_process_call p, In_process_rtu t)) (poll_advance garbage p t)"
| "backend_advance px garbage _ _ = None"

fun backend_returns :: "'m backend_pc \<Rightarrow> (bool \<times> u8 list) option" where
  "backend_returns (Serial_call x) = serial_returns x"
| "backend_returns (In_process_call p) = poll_returns p"

definition backend_stages :: "('e, 'm) posix \<Rightarrow> (nat \<Rightarrow> u8) \<Rightarrow> ('e rtu_backend, 'm backend_pc) stages" where
  "backend_stages px garbage = \<lparr>begins = backend_begins, advance = backend_advance px garbage,
     returns = backend_returns\<rparr>"

fun backend_remaining :: "('e, 'm) posix \<Rightarrow> (nat \<Rightarrow> u8) \<Rightarrow> 'm backend_pc \<Rightarrow> 'e rtu_backend \<Rightarrow>
    (bool \<times> u8 list \<times> 'e rtu_backend) option" where
  "backend_remaining px garbage (Serial_call x) (Serial_rtu s) =
     map_option (\<lambda>(ok, rsp, s). (ok, rsp, Serial_rtu s)) (serial_remaining px x s)"
| "backend_remaining px garbage (In_process_call p) (In_process_rtu t) =
     map_option (\<lambda>(ok, rsp, t). (ok, rsp, In_process_rtu t)) (poll_remaining garbage p t)"
| "backend_remaining px garbage (Serial_call x) (In_process_rtu t) =
     map_option (\<lambda>(ok, rsp). (ok, rsp, In_process_rtu t)) (serial_returns x)"
| "backend_remaining px garbage (In_process_call p) (Serial_rtu s) =
     map_option (\<lambda>(ok, rsp). (ok, rsp, Serial_rtu s)) (poll_returns p)"

definition backend_closer :: "('e \<Rightarrow> nat) \<Rightarrow> (('m backend_pc \<times> 'e rtu_backend) \<times> ('m backend_pc \<times> 'e rtu_backend)) set" where
  "backend_closer rank =
     map_prod (map_prod Serial_call Serial_rtu) (map_prod Serial_call Serial_rtu) ` serial_closer rank \<union>
     map_prod (map_prod In_process_call In_process_rtu) (map_prod In_process_call In_process_rtu) ` measure poll_rank"

lemma inj_calls: "inj (map_prod Serial_call Serial_rtu)" "inj (map_prod In_process_call In_process_rtu)"
  by (auto simp: inj_on_def)

lemma wf_backend_closer: "wf (backend_closer rank)"
  unfolding backend_closer_def
  by (intro wf_Un wf_map_prod_image wf_serial_closer inj_calls wf_measure) auto

lemma backend_staged:
  assumes "posix_ok px rank"
  shows "staged_transport (backend_transact px garbage) backend_ok (backend_stages px garbage)
    (backend_remaining px garbage) (backend_closer rank)"
proof (intro staged_transport.intro backend_transport [OF assms] staged_transport_axioms.intro wf_backend_closer)
  fix t :: "'a rtu_backend" and req rsp
  show "backend_remaining px garbage (begins (backend_stages px garbage) t req rsp) t = backend_transact px garbage t req rsp"
    by (cases t) (auto simp: backend_stages_def serial_begins_def serial_remaining_def split: bind_splits)
next
  fix p :: "'b backend_pc" and t :: "'a rtu_backend" and ok rsp
  assume "returns (backend_stages px garbage) p = Some (ok, rsp)"
  then show "backend_remaining px garbage p t = Some (ok, rsp, t)"
    using staged_transport.remaining_returns [OF serial_staged [OF assms]] inproc_stages.remaining_returns
    by (cases p; cases t) (auto simp: backend_stages_def serial_stages_def in_process_stages_def)
next
  fix p :: "'b backend_pc" and t :: "'a rtu_backend"
  assume "backend_remaining px garbage p t \<noteq> None" "returns (backend_stages px garbage) p = None"
  then show "\<exists>p' t'. advance (backend_stages px garbage) p t = Some (p', t')"
    using serial_advances poll_advances by (cases p; cases t) (fastforce simp: backend_stages_def)+
next
  fix p p' :: "'b backend_pc" and t t' :: "'a rtu_backend"
  assume adv: "advance (backend_stages px garbage) p t = Some (p', t')"
  consider x s where "p = Serial_call x" "t = Serial_rtu s" | q b where "p = In_process_call q" "t = In_process_rtu b"
    using adv by (cases p; cases t) (auto simp: backend_stages_def)
  then show "backend_remaining px garbage p' t' = backend_remaining px garbage p t \<and>
      ((p', t'), (p, t)) \<in> backend_closer rank"
  proof cases
    case 1
    then obtain x' s' where x: "serial_advance px x s = Some (x', s')" "p' = Serial_call x'" "t' = Serial_rtu s'"
      using adv by (auto simp: backend_stages_def)
    have "((p', t'), (p, t)) \<in> backend_closer rank"
      unfolding backend_closer_def
      by (rule UnI1, rule image_eqI [OF _ serial_advance_closer [OF assms x(1)]]) (simp add: 1 x)
    then show ?thesis
      using 1 x serial_remaining_advance [OF x(1)] by simp
  next
    case 2
    then obtain q' b' where q: "poll_advance garbage q b = Some (q', b')" "p' = In_process_call q'" "t' = In_process_rtu b'"
      using adv by (auto simp: backend_stages_def)
    have down: "((q', b'), (q, b)) \<in> measure poll_rank"
      using poll_step [OF q(1)] by simp
    have "((p', t'), (p, t)) \<in> backend_closer rank"
      unfolding backend_closer_def by (rule UnI2, rule image_eqI [OF _ down]) (simp add: 2 q)
    then show ?thesis
      using 2 q poll_step [OF q(1)] by simp
  qed
qed

text \<open>The dispatch of \<open>rtu_transact\<close> over them.\<close>

datatype 'm rtu_pc = Plain_call "'m backend_pc" | Faulty_call "'m backend_pc faulty_pc"

fun rtu_begins :: "('e, 'g, 'd) gateway_rtu \<Rightarrow> u8 list \<Rightarrow> u8 list \<Rightarrow> 'm rtu_pc" where
  "rtu_begins (Plain b) req rsp = Plain_call (backend_begins b req rsp)"
| "rtu_begins (With_faults f) req rsp = Faulty_call (Draw_drop req rsp)"

fun rtu_advance :: "('e, 'm) posix \<Rightarrow> (nat \<Rightarrow> u8) \<Rightarrow> ('d \<Rightarrow> 'g \<Rightarrow> bool \<times> 'g) \<Rightarrow> (nat \<Rightarrow> 'g \<Rightarrow> nat \<times> 'g) \<Rightarrow>
    'm rtu_pc \<Rightarrow> ('e, 'g, 'd) gateway_rtu \<Rightarrow> ('m rtu_pc \<times> ('e, 'g, 'd) gateway_rtu) option" where
  "rtu_advance px garbage below pick (Plain_call p) (Plain b) =
     map_option (\<lambda>(p, b). (Plain_call p, Plain b)) (backend_advance px garbage p b)"
| "rtu_advance px garbage below pick (Faulty_call p) (With_faults f) =
     map_option (\<lambda>(p, f). (Faulty_call p, With_faults f))
       (faulty_advance below pick (backend_stages px garbage) p f)"
| "rtu_advance px garbage below pick _ _ = None"

fun rtu_returns :: "'m rtu_pc \<Rightarrow> (bool \<times> u8 list) option" where
  "rtu_returns (Plain_call p) = backend_returns p"
| "rtu_returns (Faulty_call p) = faulty_returns_pc p"

definition rtu_stages :: "('e, 'm) posix \<Rightarrow> (nat \<Rightarrow> u8) \<Rightarrow> ('d \<Rightarrow> 'g \<Rightarrow> bool \<times> 'g) \<Rightarrow> (nat \<Rightarrow> 'g \<Rightarrow> nat \<times> 'g) \<Rightarrow>
    (('e, 'g, 'd) gateway_rtu, 'm rtu_pc) stages" where
  "rtu_stages px garbage below pick = \<lparr>begins = rtu_begins, advance = rtu_advance px garbage below pick,
     returns = rtu_returns\<rparr>"

fun rtu_remaining :: "('e, 'm) posix \<Rightarrow> (nat \<Rightarrow> u8) \<Rightarrow> ('d \<Rightarrow> 'g \<Rightarrow> bool \<times> 'g) \<Rightarrow> (nat \<Rightarrow> 'g \<Rightarrow> nat \<times> 'g) \<Rightarrow>
    'm rtu_pc \<Rightarrow> ('e, 'g, 'd) gateway_rtu \<Rightarrow> (bool \<times> u8 list \<times> ('e, 'g, 'd) gateway_rtu) option" where
  "rtu_remaining px garbage below pick (Plain_call p) (Plain b) =
     map_option (\<lambda>(ok, rsp, b). (ok, rsp, Plain b)) (backend_remaining px garbage p b)"
| "rtu_remaining px garbage below pick (Faulty_call p) (With_faults f) =
     map_option (\<lambda>(ok, rsp, f). (ok, rsp, With_faults f))
       (faulty_remaining below pick (backend_transact px garbage) (backend_remaining px garbage) p f)"
| "rtu_remaining px garbage below pick (Plain_call p) (With_faults f) =
     map_option (\<lambda>(ok, rsp). (ok, rsp, With_faults f)) (backend_returns p)"
| "rtu_remaining px garbage below pick (Faulty_call p) (Plain b) =
     map_option (\<lambda>(ok, rsp). (ok, rsp, Plain b)) (faulty_returns_pc p)"

definition rtu_closer :: "('e \<Rightarrow> nat) \<Rightarrow>
    (('m rtu_pc \<times> ('e, 'g, 'd) gateway_rtu) \<times> ('m rtu_pc \<times> ('e, 'g, 'd) gateway_rtu)) set" where
  "rtu_closer rank =
     map_prod (map_prod Plain_call Plain) (map_prod Plain_call Plain) ` backend_closer rank \<union>
     map_prod (map_prod Faulty_call With_faults) (map_prod Faulty_call With_faults) ` faulty_closer (backend_closer rank)"

lemma inj_rtu_calls: "inj (map_prod Plain_call Plain)" "inj (map_prod Faulty_call With_faults)"
  by (auto simp: inj_on_def)

lemma wf_rtu_closer: "wf (rtu_closer rank)"
  unfolding rtu_closer_def
  by (intro wf_Un wf_map_prod_image wf_backend_closer wf_faulty_closer inj_rtu_calls) auto

lemma rtu_staged:
  fixes px :: "('e, 'm) posix" and below :: "'d \<Rightarrow> 'g \<Rightarrow> bool \<times> 'g"
  assumes "posix_ok px rank" and "\<And>n g. fst (pick n g) \<le> n"
  shows "staged_transport (rtu_transact px garbage below pick) (over backend_ok) (rtu_stages px garbage below pick)
    (rtu_remaining px garbage below pick) (rtu_closer rank)"
proof -
  note plain = backend_staged [OF assms(1), of garbage]
  have faulty: "staged_transport (faulty_transact below pick (backend_transact px garbage))
      (\<lambda>t. backend_ok (inner t)) (faulty_stages below pick (backend_stages px garbage))
      (faulty_remaining below pick (backend_transact px garbage) (backend_remaining px garbage))
      (faulty_closer (backend_closer rank))"
    by (rule staged_transport.faulty_staged [OF plain]) (rule assms(2))
  have faulty_simps: "begins (faulty_stages below pick X) t = Draw_drop" "advance (faulty_stages below pick X) = faulty_advance below pick X"
    "returns (faulty_stages below pick X) = faulty_returns_pc"
    "begins (backend_stages px garbage) = backend_begins" "advance (backend_stages px garbage) = backend_advance px garbage"
    "returns (backend_stages px garbage) = backend_returns" for X t
    by (simp_all add: faulty_stages_def backend_stages_def)
  note part = plain faulty
  note simps = rtu_stages_def faulty_simps
  show ?thesis
  proof (intro staged_transport.intro rtu_over [OF backend_transport [OF assms(1)] assms(2)] staged_transport_axioms.intro wf_rtu_closer)
    fix t :: "('e, 'g, 'd) gateway_rtu" and req rsp
    show "rtu_remaining px garbage below pick (begins (rtu_stages px garbage below pick) t req rsp) t =
        rtu_transact px garbage below pick t req rsp"
      using staged_transport.remaining_begins [OF plain]
      by (cases t) (auto simp: simps split: bind_splits)
  next
    fix p :: "'m rtu_pc" and t :: "('e, 'g, 'd) gateway_rtu" and ok rsp
    assume "returns (rtu_stages px garbage below pick) p = Some (ok, rsp)"
    then show "rtu_remaining px garbage below pick p t = Some (ok, rsp, t)"
      using part [THEN staged_transport.remaining_returns, unfolded faulty_simps]
      by (cases p; cases t) (auto simp: simps)
  next
    fix p :: "'m rtu_pc" and t :: "('e, 'g, 'd) gateway_rtu"
    assume "rtu_remaining px garbage below pick p t \<noteq> None" "returns (rtu_stages px garbage below pick) p = None"
    then show "\<exists>p' t'. advance (rtu_stages px garbage below pick) p t = Some (p', t')"
      using part [THEN staged_transport.advances, unfolded faulty_simps]
      by (cases p; cases t) (fastforce simp: simps)+
  next
    fix p p' :: "'m rtu_pc" and t t' :: "('e, 'g, 'd) gateway_rtu"
    assume adv: "advance (rtu_stages px garbage below pick) p t = Some (p', t')"
      and rem: "rtu_remaining px garbage below pick p t \<noteq> None"
    note step = part [THEN staged_transport.remaining_advance, unfolded faulty_simps]
    consider q b where "p = Plain_call q" "t = Plain b" | q f where "p = Faulty_call q" "t = With_faults f"
      using adv by (cases p; cases t) (auto simp: simps)
    then show "rtu_remaining px garbage below pick p' t' = rtu_remaining px garbage below pick p t \<and>
        ((p', t'), (p, t)) \<in> rtu_closer rank"
    proof cases
      case 1
      then obtain q' b' where q: "backend_advance px garbage q b = Some (q', b')" "p' = Plain_call q'" "t' = Plain b'"
        using adv by (auto simp: simps)
      have s: "backend_remaining px garbage q' b' = backend_remaining px garbage q b" "((q', b'), (q, b)) \<in> backend_closer rank"
        using step(1) [OF q(1)] rem 1 by auto
      have "((p', t'), (p, t)) \<in> rtu_closer rank"
        unfolding rtu_closer_def by (rule UnI1, rule image_eqI [OF _ s(2)]) (simp add: 1 q)
      then show ?thesis using 1 q s by simp
    next
      case 2
      then obtain q' f' where q: "faulty_advance below pick (backend_stages px garbage) q f = Some (q', f')"
        "p' = Faulty_call q'" "t' = With_faults f'"
        using adv by (auto simp: simps)
      have s: "faulty_remaining below pick (backend_transact px garbage) (backend_remaining px garbage) q' f' =
          faulty_remaining below pick (backend_transact px garbage) (backend_remaining px garbage) q f"
        "((q', f'), (q, f)) \<in> faulty_closer (backend_closer rank)"
        using step(2) [OF q(1)] rem 2 by auto
      have "((p', t'), (p, t)) \<in> rtu_closer rank"
        unfolding rtu_closer_def by (rule UnI2, rule image_eqI [OF _ s(2)]) (simp add: 2 q)
      then show ?thesis using 2 q s by simp
    qed
  qed
qed

section \<open>The counters of the serial line at any moment\<close>

text \<open>What the running call has added to the counters of the serial line, by its place.\<close>

fun backend_accounts :: "'m backend_pc \<Rightarrow> (nat \<times> nat \<times> nat \<times> nat) set" where
  "backend_accounts (Serial_call x) = accounts (s_pc x)"
| "backend_accounts (In_process_call p) = {}"

fun call_accounts :: "'m rtu_pc \<Rightarrow> (nat \<times> nat \<times> nat \<times> nat) set" where
  "call_accounts (Plain_call p) = backend_accounts p"
| "call_accounts (Faulty_call (Draw_drop req rsp)) = {(0, 0, 0, 0)}"
| "call_accounts (Faulty_call (Inner p)) = backend_accounts p"
| "call_accounts (Faulty_call (Draw_corrupt rsp)) = {(1, 1, 0, 0)}"
| "call_accounts (Faulty_call (Faulty_end ok rsp)) =
     (if ok then {(1, 1, 0, 0)} else {(0, 0, 0, 0), (0, 0, 0, 1), (1, 0, 0, 1), (1, 0, 1, 0)})"

definition rtu_booked :: "('e, 'g, 'd) gateway_rtu \<Rightarrow> 'm rtu_pc \<Rightarrow> ('e, 'g, 'd) gateway_rtu \<Rightarrow> bool" where
  "rtu_booked t p u \<longleftrightarrow> (\<forall>s0. serial_of t = Some s0 \<longrightarrow>
     (\<exists>s1. serial_of u = Some s1 \<and> (\<exists>a \<in> call_accounts p. booked s0 a s1)))"

lemma backend_booked_advance:
  assumes "backend_advance px garbage p b = Some (p', b')" and "backend_serial b = Some s1"
    and "a \<in> backend_accounts p" and "booked s0 a s1"
  shows "\<exists>s2. backend_serial b' = Some s2 \<and> (\<exists>a' \<in> backend_accounts p'. booked s0 a' s2)"
proof -
  obtain x where b: "b = Serial_rtu s1" "p = Serial_call x"
    using assms(1,2) by (cases b; cases p) auto
  then obtain x' s2 where s2: "serial_advance px x s1 = Some (x', s2)" "p' = Serial_call x'" "b' = Serial_rtu s2"
    using assms(1) by auto
  then show ?thesis
    using call_booked_advance [OF s2(1), of s0] assms(3,4) b by (auto simp: call_booked_def)
qed

lemma backend_returned_accounts:
  assumes "backend_returns p = Some (ok, rsp)"
  shows "backend_accounts p \<subseteq> (if ok then {(1, 1, 0, 0)} else {(0, 0, 0, 0), (0, 0, 0, 1), (1, 0, 0, 1), (1, 0, 1, 0)})"
  using assms by (cases p) (auto simp: serial_returns_def split: serial_pc.splits)

lemma backend_begins_accounts:
  "backend_serial b = Some s \<Longrightarrow> (0, 0, 0, 0) \<in> backend_accounts (backend_begins b req rsp)"
  by (cases b) (auto simp: serial_begins_def)

lemma booked_none [simp]: "booked s (0, 0, 0, 0) s"
  by (simp add: booked_def)

lemma corrupt_answer_inner: "corrupt_answer below pick rsp f = Some (ok, r, f') \<Longrightarrow> inner f' = inner f \<and> ok"
  by (auto simp: corrupt_answer_def Let_def bind_eq_Some_conv split: prod.splits if_splits)

lemma rtu_booked_advance:
  assumes "rtu_booked t p u" and "rtu_advance px garbage below pick p u = Some (p', u')"
  shows "rtu_booked t p' u'"
  unfolding rtu_booked_def
proof (intro allI impI)
  fix s0
  assume "serial_of t = Some s0"
  then obtain s1 a where s1: "serial_of u = Some s1" "a \<in> call_accounts p" "booked s0 a s1"
    using assms(1) by (auto simp: rtu_booked_def)
  consider q b where "p = Plain_call q" "u = Plain b" | q f where "p = Faulty_call q" "u = With_faults f"
    using assms(2) by (cases p; cases u) auto
  then show "\<exists>s1. serial_of u' = Some s1 \<and> (\<exists>a \<in> call_accounts p'. booked s0 a s1)"
  proof cases
    case 1
    then obtain q' b' where "backend_advance px garbage q b = Some (q', b')" "p' = Plain_call q'" "u' = Plain b'"
      using assms(2) by auto
    then show ?thesis
      using backend_booked_advance s1 1 by fastforce
  next
    case 2
    then obtain q' f' where q: "faulty_advance below pick (backend_stages px garbage) q f = Some (q', f')"
      "p' = Faulty_call q'" "u' = With_faults f'"
      using assms(2) by auto
    show ?thesis
    proof (cases q)
      case (Draw_drop req rsp)
      then show ?thesis
        using q 2 s1 backend_begins_accounts [of "inner f" s1]
        by (auto simp: Let_def backend_stages_def split: prod.splits if_splits
            intro!: bexI [of _ "(0, 0, 0, 0) :: nat \<times> nat \<times> nat \<times> nat"])
    next
      case (Inner r)
      show ?thesis
      proof (cases "backend_returns r")
        case None
        then obtain r' b' where "backend_advance px garbage r (inner f) = Some (r', b')"
          "q' = faulty_pc.Inner r'" "f' = f\<lparr>inner := b'\<rparr>"
          using q(1) Inner by (auto simp: backend_stages_def bind_eq_Some_conv)
        then show ?thesis
          using backend_booked_advance [of px garbage r "inner f" r' b' s1 a s0] s1 2 q Inner by auto
      next
        case (Some z)
        obtain ok rsp where z: "z = (ok, rsp)" by fastforce
        have "a \<in> (if ok then {(1, 1, 0, 0)} else {(0, 0, 0, 0), (0, 0, 0, 1), (1, 0, 0, 1), (1, 0, 1, 0)})"
          using backend_returned_accounts [of r ok rsp] Some z s1(2) 2 Inner by auto
        moreover have "q' = (if ok then Draw_corrupt rsp else Faulty_end False rsp)" "f' = f"
          using q(1) Inner Some z by (simp_all add: backend_stages_def)
        ultimately show ?thesis
          using s1 2 q by (cases ok) auto
      qed
    next
      case (Draw_corrupt rsp)
      then show ?thesis
        using q 2 s1 by (auto simp: bind_eq_Some_conv dest!: corrupt_answer_inner)
    next
      case (Faulty_end ok rsp)
      then show ?thesis using q by simp
    qed
  qed
qed

lemma rtu_booked_kept: "kept_by (rtu_stages px garbage below pick) rtu_booked"
  unfolding kept_by_def
proof (intro conjI allI impI)
  fix t :: "('a, 'b, 'c) gateway_rtu" and req rsp
  show "rtu_booked t (begins (rtu_stages px garbage below pick) t req rsp) t"
    using backend_begins_accounts by (cases t) (auto simp: rtu_booked_def rtu_stages_def intro!: bexI [of _ "(0, 0, 0, 0)"])
next
  fix t u u' :: "('a, 'b, 'c) gateway_rtu" and p p'
  assume "rtu_booked t p u" "advance (rtu_stages px garbage below pick) p u = Some (p', u')"
  then show "rtu_booked t p' u'"
    using rtu_booked_advance by (auto simp: rtu_stages_def)
qed

text \<open>
  The accounts of a reachable state: \<open>outs\<close> are the outcomes of the exchanges that have returned
  to their threads, \<open>a\<close> what the running one has booked.
\<close>

definition serial_accounts :: "('e, 'g, 'd) gateway_rtu process \<Rightarrow> exchange_outcome list \<Rightarrow>
    nat \<times> nat \<times> nat \<times> nat \<Rightarrow> 'e serial \<Rightarrow> bool" where
  "serial_accounts s outs = (\<lambda>(q, r, m, i) srl.
     serial_of (rtu s) = Some srl \<and>
     bus_requests srl = of_nat (tally outs {Read_failed, Silent, Replied} + q) \<and>
     bus_replies srl = of_nat (tally outs {Replied} + r) \<and>
     bus_timeouts srl = of_nat (tally outs {Silent} + m) \<and>
     io_errors srl = of_nat (tally outs {Write_failed, Read_failed} + i) \<and>
     responses (counters s) + crc_failures (counters s) + of_nat (card (off_bus s True)) =
       of_nat (tally outs {Replied}) \<and>
     timeouts (counters s) + of_nat (card (off_bus s False)) =
       of_nat (tally outs {Not_sent, Write_failed, Read_failed, Silent}) \<and>
     length outs = answered s + card (off_bus s True) + card (off_bus s False))"

lemma tally_good: "length (filter (\<lambda>x. x = Replied) outs) = tally outs {Replied}"
  "length (filter (\<lambda>x. x \<noteq> Replied) outs) = tally outs {Not_sent, Write_failed, Read_failed, Silent}"
proof -
  have "x \<noteq> Replied \<longleftrightarrow> x \<in> {Not_sent, Write_failed, Read_failed, Silent}" for x
    by (cases x) simp_all
  then show "length (filter (\<lambda>x. x \<noteq> Replied) outs) = tally outs {Not_sent, Write_failed, Read_failed, Silent}"
    by (simp add: tally_def)
qed (simp add: tally_def)

lemma staged_accounts:
  fixes px :: "('e, 'm) posix" and below :: "'d \<Rightarrow> 'g \<Rightarrow> bool \<times> 'g"
  assumes "posix_ok px rank" and "\<And>n g. fst (pick n g) \<le> n"
    and "construct_rtu F mt19937 opt e = Some t0" and "opt_serial_port opt \<noteq> ''''"
    and "staged_reach (rtu_stages px garbage below pick) t0 (s, h)"
  shows "\<exists>outs a srl. serial_accounts s outs a srl \<and>
    a \<in> (case h of None \<Rightarrow> {(0, 0, 0, 0)} | Some (i, p) \<Rightarrow> call_accounts p)"
proof -
  let ?T = "rtu_transact px garbage below pick"
  have ok: "over backend_ok t0"
    using construct_rtu_ok [of F mt19937 opt e] assms(3) by simp
  have books: "books_kept ?T (\<lambda>x. x = Replied) rtu_books"
    by (rule rtu_books_kept [OF assms(1)]) (rule assms(2))
  have staged: "staged_transport ?T (over backend_ok) (rtu_stages px garbage below pick)
      (rtu_remaining px garbage below pick) (rtu_closer rank)"
    by (rule rtu_staged [OF assms(1)]) (rule assms(2))
  obtain t where t: "process_reach ?T t0 (settled s t)" "call_of ?T (rtu_remaining px garbage below pick) (s, h) t"
    "during rtu_booked (s, h) t"
    using staged_transport.staged_reach_during [OF staged assms(5) ok rtu_booked_kept] by auto
  have same: "off_bus (settled s t) b = off_bus s b" "answered (settled s t) = answered s" for b
    by (simp_all add: off_bus_def answered_def)
  obtain outs where outs: "rtu_books t outs"
    "responses (counters s) + crc_failures (counters s) + of_nat (card (off_bus s True)) = of_nat (tally outs {Replied})"
    "timeouts (counters s) + of_nat (card (off_bus s False)) =
      of_nat (tally outs {Not_sent, Write_failed, Read_failed, Silent})"
    "length outs = answered s + card (off_bus s True) + card (off_bus s False)"
    using reach_books [where books = rtu_books, OF t(1) construct_serial [OF assms(3,4)] books]
    by (auto simp: tally_good same)
  then obtain s0 where s0: "serial_of t = Some s0" "ledger s0 outs"
    by (auto simp: rtu_books_def)
  obtain a srl where a: "serial_of (rtu s) = Some srl" "booked s0 a srl"
    "a \<in> (case h of None \<Rightarrow> {(0, 0, 0, 0)} | Some (i, p) \<Rightarrow> call_accounts p)"
  proof (cases h)
    case None
    then show thesis
      using that [of s0 "(0, 0, 0, 0)"] t(2) s0(1) by (auto simp: call_of_def)
  next
    case (Some ip)
    then show thesis
      using that t(3) s0(1) by (cases ip) (auto simp: during_def rtu_booked_def)
  qed
  then have "serial_accounts s outs a srl"
    using s0(2) outs by (cases a) (auto simp: serial_accounts_def booked_def ledger_def)
  with a(3) show ?thesis by blast
qed

lemma none_in_handle:
  assumes "workers_ok s" and "\<forall>j<accepted s. returned (workers s j)"
  shows "w_pc (workers s i) \<noteq> In_handle n p" and "off_bus s ok = {}" and "in_progress s = {}"
proof -
  show none: "w_pc (workers s i) \<noteq> In_handle n p" for i n p
    using started [OF assms(1), of i] assms(2) by (auto simp: returned_def)
  then show "off_bus s ok = {}"
    by (auto simp: off_bus_def)
  have "thread_of (w_pc (workers s i)) = Idle" for i
    using none by (cases "w_pc (workers s i)") auto
  then show "in_progress s = {}"
    by (simp add: in_progress_def)
qed

lemma tally_split:
  "length outs = tally outs {Not_sent} + tally outs {Write_failed} + tally outs {Read_failed} +
     tally outs {Silent} + tally outs {Replied}"
  "tally outs {Read_failed, Silent, Replied} = tally outs {Read_failed} + tally outs {Silent} + tally outs {Replied}"
  "tally outs {Write_failed, Read_failed} = tally outs {Write_failed} + tally outs {Read_failed}"
  "tally outs {Not_sent, Write_failed, Read_failed, Silent} =
     tally outs {Not_sent} + tally outs {Write_failed} + tally outs {Read_failed} + tally outs {Silent}"
proof -
  have "length outs = tally outs {Not_sent, Write_failed, Read_failed, Silent, Replied}"
    by (simp add: tally_UNIV [symmetric] UNIV_enum enum_exchange_outcome_def)
  then show "length outs = tally outs {Not_sent} + tally outs {Write_failed} + tally outs {Read_failed} +
     tally outs {Silent} + tally outs {Replied}"
    by (simp add: tally_insert)
qed (simp_all add: tally_insert)

section \<open>Examples\<close>

text \<open>A gateway on a serial line whose device is silent.\<close>

definition serial_options :: "int options" where
  "serial_options = (default_options demo_floating)\<lparr>opt_serial_port := ''/dev/ttyUSB0''\<rparr>"

definition silent_line :: "(u8 list list, unit, int) gateway_rtu" where
  "silent_line = Plain (Serial_rtu (new_serial \<lparr>port = ''/dev/ttyUSB0'', baud = 19200, response_timeout_ms = 300,
     frame_gap_ms = 5, reconnect_backoff_ms = 500\<rparr> []))"

abbreviation demo_below :: "int \<Rightarrow> unit \<Rightarrow> bool \<times> unit" where
  "demo_below r g \<equiv> (r > 0, g)"

abbreviation demo_rtu :: "(u8 list list, unit, int) gateway_rtu transact" where
  "demo_rtu \<equiv> rtu_transact demo_posix (\<lambda>_. 0) demo_below Pair"

abbreviation demo_stages :: "((u8 list list, unit, int) gateway_rtu, unit rtu_pc) stages" where
  "demo_stages \<equiv> rtu_stages demo_posix (\<lambda>_. 0) demo_below Pair"

lemma serial_example:
  "opt_serial_port serial_options \<noteq> ''''"
  "construct_rtu demo_floating (\<lambda>_. ()) serial_options [] = Some silent_line" "over backend_ok silent_line"
  "process_reach demo_rtu silent_line s \<Longrightarrow> staged_reach demo_stages silent_line (s, None)"
  "\<exists>f t st. process_reach demo_rtu silent_line (one_master ptr silent_line (answered_worker demo_request f) t st)"
proof -
  have pick: "fst (Pair n g) \<le> n" for n :: nat and g :: unit by simp
  show "opt_serial_port serial_options \<noteq> ''''"
    by (simp add: serial_options_def)
  show "construct_rtu demo_floating (\<lambda>_. ()) serial_options [] = Some silent_line"
    by (simp add: construct_rtu_def select_backend_def serial_options_def silent_line_def default_options_def
        default_serial_config_def fault_injection_def demo_floating_def)
  show ok: "over backend_ok silent_line"
    by (simp add: silent_line_def)
  show "process_reach demo_rtu silent_line s \<Longrightarrow> staged_reach demo_stages silent_line (s, None)"
    by (rule staged_transport.process_reach_staged [OF rtu_staged [OF demo_posix_ok] _ ok]) simp_all
  show "\<exists>f t st. process_reach demo_rtu silent_line (one_master ptr silent_line (answered_worker demo_request f) t st)"
    by (rule rtu_transport.reach_answered [OF rtu_over [OF backend_transport [OF demo_posix_ok]] ok demo_request_ok(3)]) simp
qed

text \<open>SIGUSR1 while \<open>main\<close> is in the accept loop: the first line of the diagnostics is printed.\<close>

lemma reach_bus_dump:
  assumes "process_reach transact t0 s" and "main_pc s = M_Test" and "running s" and "shutdowns s = 0"
    and "serial_ptr s = Some ptr"
  shows "process_reach transact t0 (s\<lparr>main_pc := M_Bus_Dump (-1) Map.empty, dump_stats := False,
    dumps := dumps s @ [report_of (counters s)]\<rparr>)"
proof -
  note reach = process_reach.reach_step [of transact t0]
  from reach [OF assms(1) process_step.main [OF main_step.test_run]] assms(2,3)
  have "process_reach transact t0 (s\<lparr>main_pc := M_Accept\<rparr>)" by simp
  from reach [OF this process_step.signal [OF signal_step.on_sigusr1 [of SIGUSR1]]]
  have "process_reach transact t0 (s\<lparr>main_pc := M_Accept, dump_stats := True\<rparr>)" by simp
  from reach [OF this process_step.accepts [OF accept_step.accept_error]] assms(4)
  have "process_reach transact t0 (s\<lparr>main_pc := M_Accepted (-1), dump_stats := True\<rparr>)" by (cases s) simp
  from reach [OF this process_step.main [OF main_step.dump]]
  have start: "process_reach transact t0 (s\<lparr>main_pc := M_Dump (-1) Map.empty, dump_stats := False\<rparr>)" by (cases s) simp
  let ?got = "\<lambda>k j. if j < k then Some (report_of (counters s) ! j) else None"
  have "k \<le> 5 \<Longrightarrow> process_reach transact t0 (s\<lparr>main_pc := M_Dump (-1) (?got k), dump_stats := False\<rparr>)" for k :: nat
  proof (induction k)
    case (Suc k)
    have next_got: "(?got k)(k \<mapsto> report_of (counters s) ! k) = ?got (Suc k)"
      by (auto simp: fun_eq_iff less_Suc_eq)
    have "main_step (s\<lparr>main_pc := M_Dump (-1) (?got k), dump_stats := False\<rparr>)
        (s\<lparr>main_pc := M_Dump (-1) (?got (Suc k)), dump_stats := False\<rparr>)"
      using main_step.load [of "s\<lparr>main_pc := M_Dump (-1) (?got k), dump_stats := False\<rparr>" "-1" "?got k" k] Suc(2)
      unfolding next_got [symmetric] by (cases s) simp
    then show ?case
      using reach [OF Suc(1) process_step.main] Suc(2) by simp
  qed (use start in simp)
  then have loaded: "process_reach transact t0 (s\<lparr>main_pc := M_Dump (-1) (?got 5), dump_stats := False\<rparr>)" by simp
  have len: "length (report_of (counters s)) = 5"
    by (simp add: report_of_def)
  have "map (?got 5) [0..<5] = map Some (report_of (counters s))"
    by (rule nth_equalityI) (simp_all add: len del: upt_rec_numeral)
  then have print: "main_step (s\<lparr>main_pc := M_Dump (-1) (?got 5), dump_stats := False\<rparr>)
      (s\<lparr>main_pc := M_Bus_Dump (-1) Map.empty, dump_stats := False, dumps := dumps s @ [report_of (counters s)]\<rparr>)"
    using main_step.print [of "s\<lparr>main_pc := M_Dump (-1) (?got 5), dump_stats := False\<rparr>" "-1" "?got 5"
        "report_of (counters s)"] assms(5)
    by (cases s) (simp del: upt_rec_numeral)
  from reach [OF loaded process_step.main [OF print]] show ?thesis .
qed

section \<open>Properties\<close>

text \<open>C8: Every configuration answers in order, stage by stage. Whatever the options, \<open>main\<close> builds a
  transport, and in every state the process reaches while its threads go through the stages of
  their exchanges, each connection has handled the first requests of its byte stream, one
  response per request with the transaction id of the request, and has sent a prefix of the
  encoded responses.\<close>

theorem configurations_answer_in_order:
  fixes px :: "('e, 'm) posix" and below :: "'d \<Rightarrow> 'g \<Rightarrow> bool \<times> 'g"
  assumes "posix_ok px rank" and "\<And>n g. fst (pick n g) \<le> n"
  shows "\<exists>t0. construct_rtu F mt19937 opt e = Some t0 \<and>
    (\<forall>s h i. staged_reach (rtu_stages px garbage below pick) t0 (s, h) \<longrightarrow>
      prefix (requests_of (workers s i)) (frames_in (w_in (workers s i))) \<and>
      map transaction_id (responses_of (workers s i)) = map transaction_id (requests_of (workers s i)) \<and>
      prefix (w_out (workers s i)) (wire (responses_of (workers s i))))"
proof -
  have staged: "staged_transport (rtu_transact px garbage below pick) (over backend_ok) (rtu_stages px garbage below pick)
      (rtu_remaining px garbage below pick) (rtu_closer rank)"
    by (rule rtu_staged [OF assms(1)]) (rule assms(2))
  obtain t0 where t0: "construct_rtu F mt19937 opt e = Some t0" "over backend_ok t0"
    "\<And>s i. process_reach (rtu_transact px garbage below pick) t0 s \<Longrightarrow>
      prefix (requests_of (workers s i)) (frames_in (w_in (workers s i))) \<and>
      map transaction_id (responses_of (workers s i)) = map transaction_id (requests_of (workers s i)) \<and>
      prefix (w_out (workers s i)) (wire (responses_of (workers s i)))"
    using every_configuration_answers_in_order [OF assms, of F mt19937 opt e garbage below]
      construct_rtu_ok [of F mt19937 opt e] by (auto intro: that)
  show ?thesis
  proof (intro exI [of _ t0] conjI allI impI t0(1))
    fix s h i
    assume "staged_reach (rtu_stages px garbage below pick) t0 (s, h)"
    then obtain t where "process_reach (rtu_transact px garbage below pick) t0 (settled s t)"
      using staged_transport.staged_reach_settled [OF staged _ t0(2)] by fastforce
    from t0(3) [OF this, of i]
    show "prefix (requests_of (workers s i)) (frames_in (w_in (workers s i)))"
      "map transaction_id (responses_of (workers s i)) = map transaction_id (requests_of (workers s i))"
      "prefix (w_out (workers s i)) (wire (responses_of (workers s i)))"
      by simp_all
  qed
qed

theorem configurations_answer_in_order_witness:
  "\<exists>t0 s. construct_rtu demo_floating (\<lambda>_. ()) serial_options [] = Some t0 \<and>
    staged_reach demo_stages t0 (s, None) \<and> w_in (workers s 0) = encode demo_request \<and>
    prefix (requests_of (workers s 0)) (frames_in (encode demo_request)) \<and>
    map transaction_id (responses_of (workers s 0)) = map transaction_id (requests_of (workers s 0)) \<and>
    prefix (w_out (workers s 0)) (wire (responses_of (workers s 0)))"
proof -
  obtain f t st where "process_reach demo_rtu silent_line
      (one_master None silent_line (answered_worker demo_request f) t st)"
    using serial_example(5) by blast
  from serial_example(4) [OF this]
  have s: "staged_reach demo_stages silent_line (one_master None silent_line (answered_worker demo_request f) t st, None)" .
  have pick: "fst (Pair n g) \<le> n" for n :: nat and g :: unit by simp
  obtain t0 where t0: "construct_rtu demo_floating (\<lambda>_. ()) serial_options [] = Some t0"
    "\<And>s h i. staged_reach demo_stages t0 (s, h) \<Longrightarrow> prefix (requests_of (workers s i)) (frames_in (w_in (workers s i))) \<and>
      map transaction_id (responses_of (workers s i)) = map transaction_id (requests_of (workers s i)) \<and>
      prefix (w_out (workers s i)) (wire (responses_of (workers s i)))"
    using configurations_answer_in_order [where pick = Pair, OF demo_posix_ok pick] by blast
  from this(1) have eq: "t0 = silent_line"
    using serial_example(2) by simp
  let ?s = "one_master None silent_line (answered_worker demo_request f) t st"
  have "w_in (workers ?s 0) = encode demo_request"
    by (simp add: answered_worker_def)
  with t0(2) [unfolded eq, OF s, of 0] s serial_example(2) show ?thesis
    by - (rule exI [of _ silent_line], rule exI [of _ ?s], simp only: simp_thms)
qed

text \<open>What one running exchange can have booked.\<close>

definition in_flight :: "(nat \<times> nat \<times> nat \<times> nat) set" where
  "in_flight = {(0, 0, 0, 0), (1, 0, 0, 0), (0, 0, 0, 1), (1, 0, 0, 1), (1, 0, 1, 0), (1, 1, 0, 0)}"

text \<open>C9: The counters of the serial line are those of the gateway. At every moment of a gateway on a
  serial line, also in the middle of an exchange and with injected faults, there is one list of
  outcomes, one for each answered request and each thread back from the bus, of which both sides are
  counts: \<open>requests_\<close>, \<open>replies_\<close>, \<open>timeouts_\<close> and \<open>io_errors_\<close> of the line up to what the one running
  exchange has booked, and \<open>responses + crc_failures\<close> and \<open>timeouts\<close> of the gateway.\<close>

theorem serial_counters_account:
  fixes px :: "('e, 'm) posix" and below :: "'d \<Rightarrow> 'g \<Rightarrow> bool \<times> 'g"
  assumes "posix_ok px rank" and "\<And>n g. fst (pick n g) \<le> n"
    and "construct_rtu F mt19937 opt e = Some t0" and "opt_serial_port opt \<noteq> ''''"
    and "staged_reach (rtu_stages px garbage below pick) t0 (s, h)"
  shows "\<exists>outs a srl. serial_accounts s outs a srl \<and>
    a \<in> in_flight \<and> (h = None \<longrightarrow> a = (0, 0, 0, 0))"
proof -
  have backend: "backend_accounts p \<subseteq> in_flight" for p :: "'m backend_pc"
  proof (cases p)
    case (Serial_call x)
    then show ?thesis by (cases "s_pc x") (auto simp: in_flight_def)
  qed simp
  have "call_accounts p \<subseteq> in_flight" for p :: "'m rtu_pc"
  proof (cases p)
    case (Plain_call q)
    then show ?thesis using backend by simp
  next
    case (Faulty_call q)
    then show ?thesis using backend by (cases q) (auto simp: in_flight_def)
  qed
  moreover obtain outs a srl where "serial_accounts s outs a srl"
    "a \<in> (case h of None \<Rightarrow> {(0, 0, 0, 0)} | Some (i, p) \<Rightarrow> call_accounts p)"
    using staged_accounts [where pick = pick, OF assms(1) _ assms(3-5)] assms(2) by auto
  ultimately have "a \<in> in_flight" "h = None \<longrightarrow> a = (0, 0, 0, 0)" "serial_accounts s outs a srl"
    by (auto simp: in_flight_def split: option.splits)
  then show ?thesis by blast
qed

theorem serial_counters_account_witness:
  "\<exists>s p outs a srl. staged_reach demo_stages silent_line (s, Some (0, p)) \<and>
    w_in (workers s 0) = encode demo_request \<and> serial_accounts s outs a srl \<and> a \<in> in_flight"
proof -
  let ?s = "one_master None silent_line (counted_worker demo_request) silent_line (gw_count zero_stats)"
  obtain p where p: "staged_reach demo_stages silent_line (?s, Some (0, p))"
    using reach_holding [OF serial_example(4) demo_request_ok(3)] by metis
  have "fst (Pair n g) \<le> n" for n :: nat and g :: unit by simp
  then obtain outs a srl where "serial_accounts ?s outs a srl" "a \<in> in_flight"
    using serial_counters_account [where pick = Pair, OF demo_posix_ok _ serial_example(2,1) p] by blast
  with p show ?thesis
    by - (rule exI [of _ ?s], rule exI [of _ p], rule exI [of _ outs], rule exI [of _ a], rule exI [of _ srl],
      simp add: counted_worker_def)
qed

text \<open>C10: The two lines of the final report agree. When \<open>main\<close> returns 0 on a serial line, what it prints
  are counts of the same exchanges: each answered request was not sent, or failed in writing or
  reading, or timed out, or was answered by the device. \<open>responses\<close> and \<open>crc_failures\<close> of the
  gateway add up to \<open>replies\<close> of the line, and its \<open>timeouts\<close> to everything else; \<open>requests\<close> of the
  line leaves out what was never written.\<close>

theorem serial_report_exact:
  fixes px :: "('e, 'm) posix" and below :: "'d \<Rightarrow> 'g \<Rightarrow> bool \<times> 'g"
  assumes "posix_ok px rank" and "\<And>n g. fst (pick n g) \<le> n"
    and "construct_rtu F mt19937 opt e = Some t0" and "opt_serial_port opt \<noteq> ''''"
    and "staged_reach (rtu_stages px garbage below pick) t0 (s, h)"
    and "main_pc s = M_Exit 0" and "serial_ptr s = serial_ptr_of opt"
  shows "\<exists>not_sent write_failed read_failed silent replied rsp crc mal rec.
    answered s = not_sent + write_failed + read_failed + silent + replied \<and>
    report s = Some [of_nat (answered s), rsp, of_nat (not_sent + write_failed + read_failed + silent), crc, mal] \<and>
    rsp + crc = of_nat replied \<and>
    bus_report s = Some [of_nat (read_failed + silent + replied), of_nat replied, of_nat silent,
      of_nat (write_failed + read_failed), rec]"
proof -
  have ok: "workers_ok s" "main_ok s" "holder_ok (s, h)"
    using staged_reach_ok [OF assms(5)] by (auto simp: staged_ok_def)
  then have exit: "\<forall>j<accepted s. returned (workers s j)" "report s = Some (report_of (counters s))"
    "bus_report s = bus_report_of s"
    using assms(6) by (auto simp: main_ok_def)
  have none: "h = None"
    using ok(3) none_in_handle(1) [OF ok(1) exit(1)] by (auto simp: holder_ok_def split: option.splits)
  then obtain outs srl where acc: "serial_accounts s outs (0, 0, 0, 0) srl"
    using staged_accounts [where pick = pick, OF assms(1) _ assms(3-5)] assms(2) none by auto
  obtain t where "process_reach (rtu_transact px garbage below pick) t0 (settled s t)"
    using staged_transport.staged_reach_settled [OF rtu_staged [where pick = pick, OF assms(1)] assms(5)] assms(2)
      construct_rtu_ok [of F mt19937 opt e] assms(3) by fastforce
  from reach_counters(1) [OF this] have req: "requests (counters s) = of_nat (answered s)"
    using none_in_handle(3) [OF ok(1) exit(1)] by (simp add: answered_def in_progress_def)
  have srl: "serial_of (rtu s) = Some srl" "bus_requests srl = of_nat (tally outs {Read_failed, Silent, Replied})"
    "bus_replies srl = of_nat (tally outs {Replied})" "bus_timeouts srl = of_nat (tally outs {Silent})"
    "io_errors srl = of_nat (tally outs {Write_failed, Read_failed})"
    "responses (counters s) + crc_failures (counters s) = of_nat (tally outs {Replied})"
    "timeouts (counters s) = of_nat (tally outs {Not_sent, Write_failed, Read_failed, Silent})"
    "answered s = length outs"
    using acc by (simp_all add: serial_accounts_def none_in_handle(2) [OF ok(1) exit(1)])
  have bus: "bus_report s = Some [bus_requests srl, bus_replies srl, bus_timeouts srl, io_errors srl, reconnects srl]"
    using exit(3) assms(4,7) srl(1) by (simp add: bus_report_of_def serial_ptr_of_def serial_view_def serial_counters_def)
  have gw: "report s = Some [of_nat (length outs), responses (counters s),
      of_nat (tally outs {Not_sent, Write_failed, Read_failed, Silent}), crc_failures (counters s), malformed (counters s)]"
    using exit(2) req srl(7,8) by (simp add: report_of_def)
  show ?thesis
    using srl(6) bus gw
    by - (rule exI [of _ "tally outs {Not_sent}"], rule exI [of _ "tally outs {Write_failed}"],
      rule exI [of _ "tally outs {Read_failed}"], rule exI [of _ "tally outs {Silent}"],
      rule exI [of _ "tally outs {Replied}"], rule exI [of _ "responses (counters s)"],
      rule exI [of _ "crc_failures (counters s)"], rule exI [of _ "malformed (counters s)"], rule exI [of _ "reconnects srl"],
      simp only: srl(2-5,8) tally_split(2-4) tally_split(1) [of outs] simp_thms)
qed

theorem serial_report_exact_witness:
  "\<exists>s not_sent write_failed read_failed silent replied rsp crc mal rec.
    staged_reach demo_stages silent_line (s, None) \<and> main_pc s = M_Exit 0 \<and>
    answered s = not_sent + write_failed + read_failed + silent + replied \<and>
    report s = Some [of_nat (answered s), rsp, of_nat (not_sent + write_failed + read_failed + silent), crc, mal] \<and>
    rsp + crc = of_nat replied \<and>
    bus_report s = Some [of_nat (read_failed + silent + replied), of_nat replied, of_nat silent,
      of_nat (write_failed + read_failed), rec]"
proof -
  have pick: "fst (Pair n g) \<le> n" for n :: nat and g :: unit by simp
  obtain f t st where "process_reach demo_rtu silent_line
      (one_master (serial_ptr_of serial_options) silent_line (answered_worker demo_request f) t st)"
    using serial_example(5) by blast
  from reach_exit [OF this] obtain s where "process_reach demo_rtu silent_line s" and s: "main_pc s = M_Exit 0"
    "serial_ptr s = serial_ptr_of serial_options"
    by blast
  from serial_example(4) [OF this(1)] have reach: "staged_reach demo_stages silent_line (s, None)" .
  from serial_report_exact [where pick = Pair, OF demo_posix_ok pick serial_example(2,1) this s] reach s(1)
  show ?thesis by blast
qed

text \<open>The stages of a call, one after the other.\<close>

fun advance_n :: "('t, 'p) stages \<Rightarrow> nat \<Rightarrow> 'p \<Rightarrow> 't \<Rightarrow> ('p \<times> 't) option" where
  "advance_n X 0 p t = Some (p, t)"
| "advance_n X (Suc n) p t = Option.bind (advance X p t) (\<lambda>(p, t). advance_n X n p t)"

lemma advance_n_reach:
  assumes "advance_n X n p t = Some (p', t')" and "staged_reach X t0 (s\<lparr>rtu := t\<rparr>, Some (i, p))"
    and "\<not> ended (main_pc s)"
  shows "staged_reach X t0 (s\<lparr>rtu := t'\<rparr>, Some (i, p'))"
  using assms(1,2)
proof (induction n arbitrary: p t)
  case (Suc n)
  then obtain q u where q: "advance X p t = Some (q, u)" "advance_n X n q u = Some (p', t')"
    by (auto simp: bind_eq_Some_conv)
  from staged_next [OF Suc(3) staged_step.stage] q(1) assms(3)
  have "staged_reach X t0 (s\<lparr>rtu := u\<rparr>, Some (i, q))" by simp
  then show ?case by (rule Suc(1) [OF q(2)])
qed simp

text \<open>The line up to \<open>fd_ = fd\<close>, and after it.\<close>

definition opening_line :: "int \<Rightarrow> (u8 list list, unit, int) gateway_rtu" where
  "opening_line h = Plain (Serial_rtu ((new_serial \<lparr>port = ''/dev/ttyUSB0'', baud = 19200, response_timeout_ms = 300,
     frame_gap_ms = 5, reconnect_backoff_ms = 500\<rparr> [])\<lparr>last_attempt := 1, fd := h\<rparr>))"

abbreviation call_at :: "unit serial_pc \<Rightarrow> u8 list \<Rightarrow> unit rtu_pc" where
  "call_at pc adu \<equiv> Plain_call (Serial_call ((serial_begins adu [])\<lparr>s_pc := pc\<rparr>))"

lemma opening_stages:
  "advance_n demo_stages 7 (begins demo_stages silent_line adu []) silent_line = Some (call_at (S_Publish 3) adu, opening_line (-1))"
  "advance demo_stages (call_at (S_Publish 3) adu) (opening_line (-1)) = Some (call_at S_Opened adu, opening_line 3)"
  by (simp_all add: numeral_eq_Suc silent_line_def opening_line_def rtu_stages_def backend_stages_def serial_begins_def
      serial_advance_def new_serial_def Let_def demo_posix_def)

text \<open>C27: \<open>connected()\<close> races with the reopening of the port. There is a reachable state in which
  \<open>main\<close>, about to print the diagnostics, reads \<open>fd_\<close> for \<open>connected()\<close> while a connection thread,
  inside the mutex that \<open>main\<close> does not take, stores \<open>fd_\<close>, which is no atomic: both steps are
  possible, in either order, and what \<open>main\<close> reads depends on the order.\<close>

theorem connected_races_with_open:
  "\<exists>s p s' p' ptr. staged_reach demo_stages silent_line (s, Some (0, p)) \<and>
    serial_ptr s = serial_ptr_of serial_options \<and> main_pc s = M_Bus_Dump (-1) Map.empty \<and>
    main_step s (s\<lparr>main_pc := M_Bus_Dump (-1) [0 \<mapsto> 0]\<rparr>) \<and>
    staged_step demo_stages (Worker 0) (s, Some (0, p)) (s', Some (0, p')) \<and>
    main_step s' (s'\<lparr>main_pc := M_Bus_Dump (-1) [0 \<mapsto> 1]\<rparr>)"
proof -
  let ?ptr = "serial_ptr_of serial_options :: ((u8 list list, unit, int) gateway_rtu \<Rightarrow> bool \<times> u64 list) option"
  let ?m = "one_master ?ptr silent_line (counted_worker demo_request) silent_line (gw_count zero_stats)"
  obtain ptr where ptr: "?ptr = Some ptr" "\<And>h. fst (ptr (opening_line h)) = (h \<ge> 0)"
    by (auto simp: serial_ptr_of_def serial_options_def opening_line_def serial_view_def connected_def new_serial_def)
  let ?s = "?m\<lparr>main_pc := M_Bus_Dump (-1) Map.empty, dump_stats := False, dumps := dumps ?m @ [report_of (counters ?m)]\<rparr>"
  have same: "serial_ptr ?m = ?ptr"
    by (simp add: one_master_def boot_process_def)
  then have m: "serial_ptr ?m = Some ptr"
    using ptr(1) by (rule trans)
  have "process_reach demo_rtu silent_line ?s"
    by (rule reach_bus_dump [OF reach_counted [OF demo_request_ok(3)] _ _ _ m]) simp_all
  from serial_example(4) [OF this] have free: "staged_reach demo_stages silent_line (?s, None)" .
  obtain adu where adu: "tcp_to_rtu demo_request = Some adu"
    using wf_frame_def demo_request_ok(3) by (auto simp: wf_frame_def mbap_consts tcp_to_rtu_eq)
  have "staged_reach demo_stages silent_line (?s, Some (0, begins demo_stages (rtu ?s) adu []))"
    by (rule staged_next [OF free staged_step.lock [of _ _ "length (encode demo_request)" demo_request]])
      (simp_all add: counted_worker_def adu)
  moreover have "?s\<lparr>rtu := silent_line\<rparr> = ?s" "rtu ?s = silent_line"
    by (simp_all add: one_master_def)
  ultimately have "staged_reach demo_stages silent_line (?s\<lparr>rtu := silent_line\<rparr>, Some (0, begins demo_stages silent_line adu []))"
    by (simp only:)
  from advance_n_reach [OF opening_stages(1) this]
  have reach: "staged_reach demo_stages silent_line (?s\<lparr>rtu := opening_line (-1)\<rparr>, Some (0, call_at (S_Publish 3) adu))" by simp
  let ?a = "?s\<lparr>rtu := opening_line (-1)\<rparr>" and ?b = "?s\<lparr>rtu := opening_line 3\<rparr>"
  have "staged_step demo_stages (Worker 0) (?a, Some (0, call_at (S_Publish 3) adu))
      (?a\<lparr>rtu := opening_line 3\<rparr>, Some (0, call_at S_Opened adu))"
    by (rule staged_step.stage) (simp_all add: opening_stages(2))
  then have step: "staged_step demo_stages (Worker 0) (?a, Some (0, call_at (S_Publish 3) adu)) (?b, Some (0, call_at S_Opened adu))"
    by simp
  have "main_step ?a (?a\<lparr>main_pc := M_Bus_Dump (-1) [0 \<mapsto> 0]\<rparr>)" "main_step ?b (?b\<lparr>main_pc := M_Bus_Dump (-1) [0 \<mapsto> 1]\<rparr>)"
    using main_step.load_bus [of ?a "-1" Map.empty ptr 0] main_step.load_bus [of ?b "-1" Map.empty ptr 0] m ptr(2)
    by (simp_all add: bus_line_def)
  with reach step show ?thesis
    by - (rule exI [of _ ?a], rule exI [of _ "call_at (S_Publish 3) adu"], rule exI [of _ ?b],
      rule exI [of _ "call_at S_Opened adu"], simp add: same)
qed

end
