(* ===== verification/Console.thy ===== *)
theory Console
  imports Staged_Gateway "HOL-Library.Sublist"
begin

text \<open>
  What \<open>main\<close> of \<open>src/main.cpp\<close> writes, character by character: the usage text, the messages of
  a start that fails, the line that tells the configuration, the SIGUSR1 diagnostics and the final
  report; and the address it listens on. A failed start says why; the console is only ever
  appended to; and the counters can be read off it under their names.
\<close>

section \<open>Formats\<close>

abbreviation newline :: char where
  "newline \<equiv> CHR 0x0A"

text \<open>\<open>%u\<close>, \<open>%llu\<close> and \<open>%zu\<close>.\<close>

definition decimal :: "'a::len word \<Rightarrow> string" where
  "decimal v = to_string_nat (unat v)"

text \<open>Pairs \<open>name=%llu\<close>, separated by spaces.\<close>

fun counters_text :: "string list \<Rightarrow> u64 list \<Rightarrow> string" where
  "counters_text (n # names) (v # vals) = n @ ''='' @ decimal v @
     (if names = [] then '''' else '' '' @ counters_text names vals)"
| "counters_text _ _ = ''''"

definition gateway_names :: "string list" where
  "gateway_names = [''requests'', ''responses'', ''timeouts'', ''crc_failures'', ''malformed'']"

definition bus_names :: "string list" where
  "bus_names = [''requests'', ''replies'', ''timeouts'', ''io_errors'', ''reconnects'']"

section \<open>The diagnostics and the report\<close>

text \<open>The two lines of the diagnostics, from the numbers that were loaded for them.\<close>

definition gateway_dump :: "u64 list \<Rightarrow> string" where
  "gateway_dump vals = [newline] @ ''--- diagnostics ---'' @ [newline] @
     ''  tcp   '' @ counters_text gateway_names vals @ [newline]"

definition bus_dump :: "u64 list \<Rightarrow> string" where
  "bus_dump vals = ''  bus   connected='' @ (if hd vals \<noteq> 0 then ''yes'' else ''no'') @ '' '' @
     counters_text bus_names (tl vals) @ [newline]"

definition dump_end :: string where
  "dump_end = ''-------------------'' @ [newline]"

definition report_text :: "u64 list \<Rightarrow> u64 list option \<Rightarrow> string" where
  "report_text vals bus_vals = [newline] @ ''shutdown'' @ [newline] @ ''  '' @
     counters_text gateway_names vals @ [newline] @
     (case bus_vals of None \<Rightarrow> '''' | Some bvals \<Rightarrow> ''  bus: '' @ counters_text bus_names bvals @ [newline])"

text \<open>
  All the diagnostics printed so far. With a serial line the second line may still be missing from
  the last block.
\<close>

fun dumps_text :: "bool \<Rightarrow> u64 list list \<Rightarrow> u64 list list \<Rightarrow> string" where
  "dumps_text on_serial (d # ds) (b # bs) = gateway_dump d @
     (if on_serial then bus_dump b else '''') @ dump_end @ dumps_text on_serial ds bs"
| "dumps_text on_serial (d # ds) [] = gateway_dump d @
     (if on_serial then '''' else dump_end) @ dumps_text on_serial ds []"
| "dumps_text on_serial [] bs = ''''"

definition final_text :: "u64 list option \<Rightarrow> u64 list option \<Rightarrow> string" where
  "final_text vals bus_vals = (case vals of None \<Rightarrow> '''' | Some vals \<Rightarrow> report_text vals bus_vals)"

text \<open>What \<open>main\<close> has written since it entered the accept loop.\<close>

definition loop_text :: "'t process \<Rightarrow> string" where
  "loop_text s = dumps_text (serial_ptr s \<noteq> None) (dumps s) (bus_dumps s) @ final_text (report s) (bus_report s)"

lemma final_text_simps [simp]: "final_text None bus_vals = ''''"
  "final_text (Some vals) bus_vals = report_text vals bus_vals"
  by (simp_all add: final_text_def)

section \<open>The start\<close>

text \<open>
  The socket address \<open>main\<close> binds to, as the bytes \<open>htonl\<close> and \<open>htons\<close> put in memory. \<open>AF_INET\<close> has
  the value of Linux.
\<close>

record sockaddr_in =
  sin_family :: u16
  sin_addr :: "u8 list"
  sin_port :: "u8 list"

definition htons :: "u16 \<Rightarrow> u8 list" where
  "htons v = [hi8 v, lo8 v]"

definition htonl :: "u32 \<Rightarrow> u8 list" where
  "htonl v = htons (ucast (drop_bit 16 v)) @ htons (ucast v)"

definition INADDR_LOOPBACK :: u32 where
  "INADDR_LOOPBACK = 0x7F000001"

definition AF_INET :: u16 where
  "AF_INET = 2"

definition listen_address :: "'d options \<Rightarrow> sockaddr_in" where
  "listen_address opt = \<lparr>sin_family = AF_INET, sin_addr = htonl INADDR_LOOPBACK, sin_port = htons (opt_port opt)\<rparr>"

text \<open>The line after the listener is set up. \<open>fixed2\<close> is the format \<open>%.2f\<close>.\<close>

definition banner :: "'d floating \<Rightarrow> ('d \<Rightarrow> string) \<Rightarrow> 'd options \<Rightarrow> string" where
  "banner F fixed2 opt = ''gateway on 127.0.0.1:'' @ decimal (opt_port opt) @
     (if opt_serial_port opt \<noteq> ''''
      then '', serial '' @ opt_serial_port opt @ '' @ '' @ decimal (opt_baud opt) @ '' 8E1''
      else '', in-process units:'' @ concat (map (\<lambda>u. '' '' @ decimal u) (opt_units opt))) @
     (if is_positive F (opt_drop opt) \<or> is_positive F (opt_corrupt opt)
      then ''  [faults drop='' @ fixed2 (opt_drop opt) @ '' corrupt='' @ fixed2 (opt_corrupt opt) @
        '' seed='' @ decimal (opt_seed opt) @ '']''
      else '''') @ [newline]"

definition usage :: string where
  "usage = concat (map (\<lambda>l. l @ [newline])
    [''usage: gateway [options]'',
     ''  --config FILE     load settings from a config file'',
     ''  --port N          TCP listen port (default 5020)'',
     ''  --serial DEV      drive a real serial bus instead of in-process'',
     ''  --baud N          serial baud (default 19200, 8E1)'',
     ''  --timeout MS      RTU response timeout (default 300)'',
     ''  --units A,B,C     in-process slave unit ids'',
     ''  --drop F          inject response loss, 0.0-1.0'',
     ''  --corrupt F       inject bit corruption, 0.0-1.0'',
     ''  --seed N          fault injector seed (replayable)'',
     ''  --quiet           suppress per-connection logging'',
     '''',
     ''diagnostics: kill -USR1 <pid> dumps live counters''])"

text \<open>
  The argument at which the loop over \<open>argv\<close> returns: the first in the position of an option that
  is none of those with an effect on \<open>opt\<close>.
\<close>

definition valued_options :: "string list" where
  "valued_options = [''--port'', ''--units'', ''--drop'', ''--corrupt'', ''--seed'', ''--config'', ''--serial'',
     ''--baud'', ''--timeout'']"

fun stopped_at :: "string list \<Rightarrow> string option" where
  "stopped_at [] = None"
| "stopped_at (a # args) =
     (if a \<in> set valued_options then (case args of [] \<Rightarrow> None | v # rest \<Rightarrow> stopped_at rest)
      else if a = ''--quiet'' then stopped_at args
      else Some a)"

text \<open>What is written to the standard output and to the standard error before the transport is built.\<close>

definition start_text :: "'d floating \<Rightarrow> (string \<Rightarrow> string option) \<Rightarrow> string list \<Rightarrow> string \<times> string" where
  "start_text F files args = (case parse_args F args (default_options F) of
     Start opt \<Rightarrow>
       if opt_config_file opt \<noteq> '''' then
         (case load (opt_config_file opt) (files (opt_config_file opt)) Map.empty of
            (Some err, kv) \<Rightarrow> ('''', ''config: '' @ err @ [newline])
          | (None, kv) \<Rightarrow> ('''', ''config: loaded '' @ to_string_nat (card (dom kv)) @ '' settings from '' @
              opt_config_file opt @ [newline]))
       else ('''', '''')
   | Exit n \<Rightarrow> (case stopped_at args of
       Some a \<Rightarrow> if a = ''--help'' then (usage, '''') else ('''', ''unknown option '' @ a @ [newline])
     | None \<Rightarrow> ('''', ''''))
   | Uncaught e \<Rightarrow> ('''', ''''))"

text \<open>
  All that \<open>main\<close> has written to the standard error: what it writes before the transport is built, the
  line after the listener is set up, and what it writes from the accept loop on. The message of \<open>perror\<close>
  when the listener cannot be set up is left out.
\<close>

definition main_text :: "'d floating \<Rightarrow> ('d \<Rightarrow> string) \<Rightarrow> (string \<Rightarrow> string option) \<Rightarrow> string list \<Rightarrow> 't process \<Rightarrow> string" where
  "main_text F fixed2 files args s = snd (start_text F files args) @ (case start_options F files args of
     Start opt \<Rightarrow> (if published (main_pc s) then banner F fixed2 opt else '''') @ loop_text s
   | _ \<Rightarrow> '''')"

section \<open>Reading numbers off a text\<close>

function numbers :: "string \<Rightarrow> nat list" where
  "numbers s = (case dropWhile (\<lambda>c. \<not> is_digit 10 c) s of
     [] \<Rightarrow> []
   | c # t \<Rightarrow> digits_value 10 (takeWhile (is_digit 10) (c # t)) # numbers (dropWhile (is_digit 10) (c # t)))"
  by pat_completeness auto
termination
proof (relation "measure length", goal_cases)
  case (2 s c t)
  from 2 have "length (c # t) \<le> length s"
    by (metis length_dropWhile_le)
  moreover have "is_digit 10 c"
    using 2 by (metis hd_dropWhile list.distinct(1) list.sel(1))
  ultimately show ?case
    using length_dropWhile_le [of "is_digit 10" t] by simp
qed simp

declare numbers.simps [simp del]

definition digit_free :: "string \<Rightarrow> bool" where
  "digit_free s \<longleftrightarrow> list_all (\<lambda>c. \<not> is_digit 10 c) s"

lemma digit_free_simps [simp]: "digit_free []" "digit_free (c # s) \<longleftrightarrow> \<not> is_digit 10 c \<and> digit_free s"
  "digit_free (s @ t) \<longleftrightarrow> digit_free s \<and> digit_free t"
  by (simp_all add: digit_free_def)

lemma numbers_Nil [simp]: "numbers [] = []"
  by (simp add: numbers.simps)

lemma numbers_skip: "digit_free a \<Longrightarrow> numbers (a @ s) = numbers s"
proof (induction a)
  case (Cons c a)
  then have "numbers ((c # a) @ s) = numbers (a @ s)"
    by (simp add: numbers.simps [of "c # a @ s"] numbers.simps [of "a @ s"])
  then show ?case using Cons by simp
qed simp

lemma to_string_all_digits: "\<forall>c \<in> set (to_string_nat n). is_digit 10 c"
  using to_string_digits by fastforce

lemma numbers_digit:
  "is_digit 10 c \<Longrightarrow> numbers (c # s) =
    digits_value 10 (takeWhile (is_digit 10) (c # s)) # numbers (dropWhile (is_digit 10) (c # s))"
  by (subst numbers.simps) simp

lemma numbers_decimal:
  assumes "s = [] \<or> \<not> is_digit 10 (hd s)"
  shows "numbers (to_string_nat n @ s) = n # numbers s"
proof -
  obtain c t where t: "to_string_nat n = c # t"
    using to_string_nonempty [of n] by (cases "to_string_nat n") auto
  then have "is_digit 10 c"
    using to_string_all_digits [of n] by simp
  from numbers_digit [OF this, of "t @ s"]
  have "numbers (to_string_nat n @ s) = digits_value 10 (takeWhile (is_digit 10) (to_string_nat n @ s)) #
      numbers (dropWhile (is_digit 10) (to_string_nat n @ s))"
    by (simp only: t append_Cons)
  moreover have "takeWhile (is_digit 10) (to_string_nat n @ s) = to_string_nat n"
    "dropWhile (is_digit 10) (to_string_nat n @ s) = s"
    using assms to_string_all_digits [of n] by (cases s; simp add: takeWhile_append dropWhile_append)+
  ultimately show ?thesis
    using digits_value_to_string [of n] by simp
qed

lemma newline_no_digit [simp]: "\<not> is_digit 10 newline"
  by code_simp

lemma numbers_newline [simp]: "numbers (newline # s) = numbers s"
  using numbers_skip [of "[newline]" s] by simp

section \<open>Reading named counters off a text\<close>

text \<open>The words of a text, and those of the form \<open>name=digits\<close>.\<close>

fun separator :: "char \<Rightarrow> bool" where
  "separator c \<longleftrightarrow> c = CHR '' '' \<or> c = newline"

fun words :: "string \<Rightarrow> string \<Rightarrow> string list" where
  "words w [] = [w]"
| "words w (c # s) = (if separator c then w # words [] s else words (w @ [c]) s)"

definition field_of :: "string \<Rightarrow> (string \<times> nat) option" where
  "field_of w = (case dropWhile (\<lambda>c. c \<noteq> CHR ''='') w of
     [] \<Rightarrow> None
   | c # v \<Rightarrow> if v \<noteq> [] \<and> list_all (is_digit 10) v then Some (takeWhile (\<lambda>c. c \<noteq> CHR ''='') w, digits_value 10 v)
       else None)"

definition fields :: "string \<Rightarrow> (string \<times> nat) list" where
  "fields s = List.map_filter field_of (words [] s)"

lemma words_append: "separator c \<Longrightarrow> words w (u @ c # s) = words w u @ words [] s"
  by (induction u arbitrary: w) simp_all

lemma words_whole: "list_all (\<lambda>c. \<not> separator c) u \<Longrightarrow> words w u = [w @ u]"
  by (induction u arbitrary: w) simp_all

lemma fields_append: "separator c \<Longrightarrow> fields (u @ c # s) = fields u @ fields s"
  by (simp add: fields_def words_append map_filter_def)

lemma fields_Nil [simp]: "fields [] = []"
  by (simp add: fields_def map_filter_def field_of_def)

lemma fields_newline [simp]: "fields (newline # s) = fields s"
  using fields_append [of newline "[]" s] by simp

lemma fields_skip: "separator c \<Longrightarrow> fields u = [] \<Longrightarrow> fields (u @ [c] @ s) = fields s"
  by (simp add: fields_append)

text \<open>A name, as the code has them.\<close>

definition plain_name :: "string \<Rightarrow> bool" where
  "plain_name n \<longleftrightarrow> list_all (\<lambda>c. \<not> separator c \<and> c \<noteq> CHR ''='') n"

lemma digit_no_separator: "is_digit 10 c \<Longrightarrow> \<not> separator c"
  by (auto simp: is_digit_def digit_value_def)

lemma fields_counter:
  assumes "plain_name n"
  shows "fields (n @ ''='' @ decimal v) = [(n, unat v)]"
proof -
  have digits: "list_all (is_digit 10) (decimal v)" "decimal v \<noteq> []" "digits_value 10 (decimal v) = unat v"
    using to_string_all_digits [of "unat v"] digits_value_to_string [of "unat v"] by (simp_all add: decimal_def list_all_iff)
  have "list_all (\<lambda>c. \<not> separator c) (decimal v)"
    using digits(1) by (rule list.pred_mono_strong) (rule digit_no_separator)
  moreover have "list_all (\<lambda>c. \<not> separator c) n"
    using assms by (auto simp: plain_name_def list_all_iff)
  ultimately have "list_all (\<lambda>c. \<not> separator c) (n @ ''='' @ decimal v)"
    by simp
  moreover have "takeWhile (\<lambda>c. c \<noteq> CHR ''='') (n @ ''='' @ decimal v) = n"
    "dropWhile (\<lambda>c. c \<noteq> CHR ''='') (n @ ''='' @ decimal v) = CHR ''='' # decimal v"
    using assms by (auto simp: plain_name_def list_all_iff takeWhile_append dropWhile_append)
  ultimately show ?thesis
    using words_whole digits by (simp add: fields_def field_of_def map_filter_def)
qed

lemma fields_counters:
  assumes "length names = length vals" and "list_all plain_name names" and "names \<noteq> []"
  shows "fields (counters_text names vals @ newline # s) = zip names (map unat vals) @ fields s"
  using assms
proof (induction names vals rule: list_induct2)
  case (Cons n names v vals)
  show ?case
  proof (cases "names = []")
    case True
    then show ?thesis
      using Cons fields_append [of newline "n @ ''='' @ decimal v" s] fields_counter [of n v] by simp
  next
    case False
    then show ?thesis
      using Cons fields_append [of "CHR '' ''" "n @ ''='' @ decimal v" "counters_text names vals @ newline # s"] fields_counter [of n v]
      by simp
  qed
qed simp

lemma names_ok: "length gateway_names = 5" "length bus_names = 5" "list_all plain_name gateway_names"
  "list_all plain_name bus_names" "gateway_names \<noteq> []" "bus_names \<noteq> []"
  by code_simp+

lemma fields_gateway_dump:
  assumes "length vals = 5"
  shows "fields (gateway_dump vals @ s) = zip gateway_names (map unat vals) @ fields s"
proof -
  have free: "fields ([newline] @ ''--- diagnostics ---'' @ [newline] @ ''  tcp  '') = []" and sep: "separator (CHR '' '')"
    by (simp_all add: fields_def map_filter_def field_of_def is_digit_def digit_value_def)
  have "gateway_dump vals @ s = ([newline] @ ''--- diagnostics ---'' @ [newline] @ ''  tcp  '') @ [CHR '' ''] @
      counters_text gateway_names vals @ newline # s"
    by (simp add: gateway_dump_def)
  then show ?thesis
    using fields_skip [OF sep free] fields_counters [of gateway_names vals s] names_ok assms by simp
qed

lemma fields_bus_dump:
  assumes "length vals = 6"
  shows "fields (bus_dump vals @ s) = zip bus_names (map unat (tl vals)) @ fields s"
proof -
  have free: "fields (''  bus   connected='' @ ''yes'') = []" "fields (''  bus   connected='' @ ''no'') = []"
    and sep: "separator (CHR '' '')"
    by (simp_all add: fields_def map_filter_def field_of_def is_digit_def digit_value_def)
  have "bus_dump vals @ s = (''  bus   connected='' @ (if hd vals \<noteq> 0 then ''yes'' else ''no'')) @ [CHR '' ''] @
      counters_text bus_names (tl vals) @ newline # s"
    by (simp add: bus_dump_def)
  then show ?thesis
    using fields_skip [OF sep free(1)] fields_skip [OF sep free(2)] fields_counters [of bus_names "tl vals" s] names_ok assms
    by simp
qed

lemma fields_dump_end: "fields (dump_end @ s) = fields s"
proof -
  have "fields ''-------------------'' = []" "separator newline"
    by (simp_all add: fields_def map_filter_def field_of_def is_digit_def digit_value_def)
  from fields_skip [OF this(2,1)] show ?thesis by (simp add: dump_end_def)
qed

lemma fields_report:
  assumes "length vals = 5" and "\<And>b. bus_vals = Some b \<Longrightarrow> length b = 5"
  shows "fields (report_text vals bus_vals) = zip gateway_names (map unat vals) @
    (case bus_vals of None \<Rightarrow> [] | Some b \<Rightarrow> zip bus_names (map unat b))"
proof -
  have free: "fields ([newline] @ ''shutdown'' @ [newline] @ '' '') = []" "fields ''  bus:'' = []" and sep: "separator (CHR '' '')"
    by (simp_all add: fields_def map_filter_def field_of_def is_digit_def digit_value_def)
  have "report_text vals bus_vals = ([newline] @ ''shutdown'' @ [newline] @ '' '') @ [CHR '' ''] @
      counters_text gateway_names vals @ newline #
      (case bus_vals of None \<Rightarrow> '''' | Some b \<Rightarrow> ''  bus:'' @ [CHR '' ''] @ counters_text bus_names b @ [newline])"
    by (simp add: report_text_def split: option.split)
  moreover have "fields (case bus_vals of None \<Rightarrow> '''' | Some b \<Rightarrow> ''  bus:'' @ [CHR '' ''] @ counters_text bus_names b @ [newline]) =
      (case bus_vals of None \<Rightarrow> [] | Some b \<Rightarrow> zip bus_names (map unat b))"
    using fields_skip [OF sep free(2)] fields_counters [of bus_names _ "[]"] names_ok assms(2) by (auto split: option.split)
  ultimately show ?thesis
    using fields_skip [OF sep free(1)] fields_counters [of gateway_names vals] names_ok assms(1) by simp
qed

section \<open>The console of the process\<close>

fun in_bus_dump :: "main_pc \<Rightarrow> bool" where
  "in_bus_dump (M_Bus_Dump cfd got) = True"
| "in_bus_dump _ = False"

definition console_ok :: "'t process \<Rightarrow> bool" where
  "console_ok s \<longleftrightarrow> list_all (\<lambda>v. length v = 5) (dumps s) \<and> list_all (\<lambda>v. length v = 6) (bus_dumps s) \<and>
     (serial_ptr s = None \<longrightarrow> bus_dumps s = [] \<and> \<not> in_bus_dump (main_pc s)) \<and>
     (serial_ptr s \<noteq> None \<longrightarrow>
        length (dumps s) = length (bus_dumps s) + (if in_bus_dump (main_pc s) then 1 else 0))"

lemma dumps_text_open:
  "length ds = length bs \<Longrightarrow> dumps_text True (ds @ [d]) bs = dumps_text True ds bs @ gateway_dump d"
  by (induction ds bs rule: list_induct2) simp_all

lemma dumps_text_bus:
  "length ds = length bs \<Longrightarrow> dumps_text True (ds @ [d]) (bs @ [b]) =
    dumps_text True (ds @ [d]) bs @ bus_dump b @ dump_end"
  by (induction ds bs rule: list_induct2) simp_all

lemma dumps_text_plain: "dumps_text False (ds @ [d]) [] = dumps_text False ds [] @ gateway_dump d @ dump_end"
  by (induction ds) simp_all

text \<open>A step of the process keeps the shape and appends to the text.\<close>

lemma length_vals: "map got [0..<n] = map Some vals \<Longrightarrow> length vals = n"
  using map_eq_imp_length_eq by fastforce

lemma main_step_console:
  assumes "main_step s s'" and "console_ok s" and "main_ok s"
  shows "console_ok s' \<and> prefix (loop_text s) (loop_text s')"
  using assms(1)
proof cases
  case (print cfd got vals)
  have len: "length vals = 5"
    using length_vals [OF print(3)] .
  have none: "report s = None"
    using assms(3) print(2) by (simp add: main_ok_def)
  show ?thesis
  proof (cases "serial_ptr s")
    case None
    then show ?thesis
      using print assms(2) none len by (simp add: console_ok_def loop_text_def dumps_text_plain)
  next
    case (Some p)
    then show ?thesis
      using print assms(2) none len by (simp add: console_ok_def loop_text_def dumps_text_open)
  qed
next
  case (print_bus cfd got vals)
  have len: "length vals = 6"
    using length_vals [OF print_bus(3)] .
  have none: "report s = None" "serial_ptr s \<noteq> None"
    using assms(3) print_bus(2) by (simp_all add: main_ok_def)
  then have n: "length (dumps s) = length (bus_dumps s) + 1"
    using assms(2) print_bus(2) by (simp add: console_ok_def)
  then obtain ds d where ds: "dumps s = ds @ [d]" "length ds = length (bus_dumps s)"
    by (cases "dumps s" rule: rev_cases) auto
  then show ?thesis
    using print_bus assms(2) none len by (simp add: console_ok_def loop_text_def dumps_text_bus)
next
  case last
  have "report s = None"
    using assms(3) last(2) by (simp add: main_ok_def)
  then show ?thesis
    using last assms(2) by (simp add: console_ok_def loop_text_def)
qed (use assms(2) in \<open>simp_all add: console_ok_def loop_text_def\<close>)

lemma same_console:
  assumes "serial_ptr s' = serial_ptr s" and "dumps s' = dumps s" and "bus_dumps s' = bus_dumps s"
    and "report s' = report s" and "bus_report s' = bus_report s" and "in_bus_dump (main_pc s') = in_bus_dump (main_pc s)"
    and "console_ok s"
  shows "console_ok s' \<and> prefix (loop_text s) (loop_text s')"
  using assms by (simp add: console_ok_def loop_text_def)

lemma process_step_console:
  assumes "process_step transact a s s'" and "console_ok s" and "main_ok s"
  shows "console_ok s' \<and> prefix (loop_text s) (loop_text s')"
  using assms(1)
proof cases
  case prepare
  from prepare(2) show ?thesis
    by cases (rule same_console, simp_all add: assms(2))+
next
  case accepts
  from accepts(2) show ?thesis
    by cases (rule same_console, simp_all add: assms(2))+
next
  case main
  then show ?thesis using main_step_console assms by blast
next
  case handler
  from handler(2) show ?thesis
    by cases (rule same_console, simp_all add: assms(2))+
next
  case signal
  from signal(2) show ?thesis
    by cases (rule same_console, simp_all add: assms(2))+
qed (rule same_console, simp_all add: assms(2))+

lemma staged_step_console:
  assumes "staged_step X a (s, h) (s', h')" and "console_ok s" and "main_ok s"
  shows "console_ok s' \<and> prefix (loop_text s) (loop_text s')"
  using assms(1)
proof cases
  case other
  then show ?thesis using process_step_console assms(2,3) by blast
qed (rule same_console, simp_all add: assms(2))+

lemma staged_reach_console: "staged_reach X t0 c \<Longrightarrow> console_ok (fst c)"
proof (induction rule: staged_reach.induct)
  case (staged_boot ptr)
  show ?case by (simp add: console_ok_def boot_process_def)
next
  case (staged_next c a c')
  then show ?case
    using staged_step_console [of X a "fst c" "snd c" "fst c'" "snd c'"] staged_reach_ok [OF staged_next(1)]
    by (simp add: staged_ok_def case_prod_unfold)
qed

text \<open>The counters of each line of the diagnostics; \<open>connected()\<close> is printed as a word.\<close>

fun dump_blocks :: "u64 list list \<Rightarrow> u64 list list \<Rightarrow> (string \<times> nat) list list" where
  "dump_blocks (d # ds) (b # bs) = zip gateway_names (map unat d) # zip bus_names (map unat (tl b)) # dump_blocks ds bs"
| "dump_blocks (d # ds) [] = zip gateway_names (map unat d) # dump_blocks ds []"
| "dump_blocks [] bs = []"

lemma fields_dumps:
  assumes "list_all (\<lambda>v. length v = 5) ds" and "list_all (\<lambda>v. length v = 6) bs" and "\<not> on_serial \<longrightarrow> bs = []"
  shows "fields (dumps_text on_serial ds bs @ s) = concat (dump_blocks ds bs) @ fields s"
  using assms
  by (induction on_serial ds bs rule: dumps_text.induct)
    (auto simp: fields_gateway_dump fields_bus_dump fields_dump_end)

lemma nth_dump_blocks:
  "i < length (dump_blocks ds []) \<Longrightarrow> i < length ds \<and> dump_blocks ds [] ! i = zip gateway_names (map unat (ds ! i))"
  by (induction ds arbitrary: i) (auto simp: less_Suc_eq_0_disj)

lemma nth_dump_blocks_bus:
  assumes "length ds = length bs" and "i < length (dump_blocks ds bs)"
  shows "i div 2 < length ds \<and> dump_blocks ds bs ! i =
    (if odd i then zip bus_names (map unat (tl (bs ! (i div 2)))) else zip gateway_names (map unat (ds ! (i div 2))))"
  using assms
proof (induction ds bs arbitrary: i rule: list_induct2)
  case (Cons d ds b bs)
  consider "i = 0" | "i = 1" | j where "i = Suc (Suc j)"
    by (metis One_nat_def not0_implies_Suc)
  then show ?case
  proof cases
    case 3
    then show ?thesis using Cons(2) [of j] Cons(3) by simp
  qed simp_all
qed simp

section \<open>What the diagnostics show\<close>

text \<open>Something was true of the process in a reachable state from which the present one was reached.\<close>

definition was :: "('t, 'p) stages \<Rightarrow> 't \<Rightarrow> 't process \<times> (nat \<times> 'p) option \<Rightarrow> ('t process \<Rightarrow> bool) \<Rightarrow> bool" where
  "was X t0 c Q \<longleftrightarrow> (\<exists>c0. staged_reach X t0 c0 \<and> (\<lambda>d d'. \<exists>a. staged_step X a d d')\<^sup>*\<^sup>* c0 c \<and> Q (fst c0))"

lemma was_now: "staged_reach X t0 c \<Longrightarrow> Q (fst c) \<Longrightarrow> was X t0 c Q"
  unfolding was_def by (intro exI [of _ c]) simp

lemma was_step:
  assumes "was X t0 c Q" and "staged_step X a c c'"
  shows "was X t0 c' Q"
proof -
  obtain c0 where c0: "staged_reach X t0 c0" "(\<lambda>d d'. \<exists>a. staged_step X a d d')\<^sup>*\<^sup>* c0 c" "Q (fst c0)"
    using assms(1) by (auto simp: was_def)
  have "\<exists>a. staged_step X a c c'"
    using assms(2) by (rule exI)
  with c0(2) have "(\<lambda>d d'. \<exists>a. staged_step X a d d')\<^sup>*\<^sup>* c0 c'"
    by (rule rtranclp.rtrancl_into_rtrancl)
  with c0(1,3) show ?thesis
    unfolding was_def by (intro exI [of _ c0]) simp
qed

lemma was_mono:
  assumes "was X t0 c Q" and "\<And>s h. staged_reach X t0 (s, h) \<Longrightarrow> Q s \<Longrightarrow> R s"
  shows "was X t0 c R"
proof -
  obtain s h where "staged_reach X t0 (s, h)" "(\<lambda>d d'. \<exists>a. staged_step X a d d')\<^sup>*\<^sup>* (s, h) c" "Q s"
    using assms(1) by (auto simp: was_def)
  with assms(2) show ?thesis
    unfolding was_def by (intro exI [of _ "(s, h)"]) simp
qed

text \<open>The value loaded for a place of the first and of the second line.\<close>

abbreviation gateway_value :: "nat \<Rightarrow> u64 \<Rightarrow> 't process \<Rightarrow> bool" where
  "gateway_value k v \<equiv> \<lambda>s. report_of (counters s) ! k = v"

abbreviation bus_value :: "('t \<Rightarrow> bool \<times> u64 list) option \<Rightarrow> nat \<Rightarrow> u64 \<Rightarrow> 't process \<Rightarrow> bool" where
  "bus_value ptr k v \<equiv> \<lambda>s. serial_ptr s = ptr \<and> ptr \<noteq> None \<and> bus_line (the ptr (rtu s)) ! k = v"

definition loads_ok :: "('t, 'p) stages \<Rightarrow> 't \<Rightarrow> 't process \<times> (nat \<times> 'p) option \<Rightarrow> main_pc \<Rightarrow> bool" where
  "loads_ok X t0 c pc \<longleftrightarrow> (case pc of
     M_Dump cfd got \<Rightarrow> \<forall>k v. got k = Some v \<longrightarrow> was X t0 c (gateway_value k v)
   | M_Bus_Dump cfd got \<Rightarrow> \<forall>k v. got k = Some v \<longrightarrow> was X t0 c (bus_value (serial_ptr (fst c)) k v)
   | _ \<Rightarrow> True)"

definition dumps_ok :: "('t, 'p) stages \<Rightarrow> 't \<Rightarrow> 't process \<times> (nat \<times> 'p) option \<Rightarrow> bool" where
  "dumps_ok X t0 c \<longleftrightarrow> loads_ok X t0 c (main_pc (fst c)) \<and>
     (\<forall>vals \<in> set (dumps (fst c)). \<forall>k < 5. was X t0 c (gateway_value k (vals ! k))) \<and>
     (\<forall>vals \<in> set (bus_dumps (fst c)). \<forall>k < 6. was X t0 c (bus_value (serial_ptr (fst c)) k (vals ! k)))"

lemma loaded_vals: "map got [0..<n] = map Some vals \<Longrightarrow> k < n \<Longrightarrow> got k = Some (vals ! k)"
  by (metis add_0 length_map length_upt minus_nat.diff_0 nth_map nth_upt)

lemma step_keeps_ptr: "staged_step X a (s, h) (s', h') \<Longrightarrow> serial_ptr s' = serial_ptr s"
  by (auto elim!: staged_stepE process_step.cases step_cases)

lemma loads_ok_step:
  "loads_ok X t0 c pc \<Longrightarrow> staged_step X a c c' \<Longrightarrow> serial_ptr (fst c') = serial_ptr (fst c) \<Longrightarrow> loads_ok X t0 c' pc"
  by (cases pc) (auto simp: loads_ok_def intro: was_step)

lemma main_step_loads:
  assumes "main_step s s'" and "dumps_ok X t0 (s, h)" and "staged_reach X t0 (s, h)"
  shows "loads_ok X t0 (s, h) (main_pc s') \<and>
    (\<forall>vals \<in> set (dumps s'). \<forall>k < 5. was X t0 (s, h) (gateway_value k (vals ! k))) \<and>
    (\<forall>vals \<in> set (bus_dumps s'). \<forall>k < 6. was X t0 (s, h) (bus_value (serial_ptr s) k (vals ! k)))"
  using assms(1)
proof cases
  case (load cfd got k)
  then have "was X t0 (s, h) (gateway_value k (report_of (counters s) ! k))"
    using was_now [OF assms(3)] by simp
  then show ?thesis
    using load assms(2) by (simp add: dumps_ok_def loads_ok_def)
next
  case (print cfd got vals)
  have "was X t0 (s, h) (gateway_value k (vals ! k))" if "k < 5" for k
    using print(2) assms(2) loaded_vals [OF print(3) that] by (simp add: dumps_ok_def loads_ok_def)
  then show ?thesis
    using print assms(2) by (simp add: dumps_ok_def loads_ok_def)
next
  case (load_bus cfd got ptr k)
  then have "was X t0 (s, h) (bus_value (serial_ptr s) k (bus_line (ptr (rtu s)) ! k))"
    using was_now [OF assms(3)] by simp
  then show ?thesis
    using load_bus assms(2) by (simp add: dumps_ok_def loads_ok_def)
next
  case (print_bus cfd got vals)
  have "was X t0 (s, h) (bus_value (serial_ptr s) k (vals ! k))" if "k < 6" for k
    using print_bus(2) assms(2) loaded_vals [OF print_bus(3) that] by (simp add: dumps_ok_def loads_ok_def)
  then show ?thesis
    using print_bus assms(2) by (simp add: dumps_ok_def loads_ok_def)
qed (use assms(2) in \<open>simp_all add: dumps_ok_def loads_ok_def\<close>)

lemma process_step_loads:
  assumes "process_step transact a s s'" and "dumps_ok X t0 (s, h)" and "staged_reach X t0 (s, h)"
  shows "loads_ok X t0 (s, h) (main_pc s') \<and>
    (\<forall>vals \<in> set (dumps s'). \<forall>k < 5. was X t0 (s, h) (gateway_value k (vals ! k))) \<and>
    (\<forall>vals \<in> set (bus_dumps s'). \<forall>k < 6. was X t0 (s, h) (bus_value (serial_ptr s) k (vals ! k)))"
  using assms(1)
proof cases
  case prepare
  from prepare(2) assms(2) show ?thesis
    by cases (simp_all add: dumps_ok_def loads_ok_def)
next
  case accepts
  from accepts(2) assms(2) show ?thesis
    by cases (simp_all add: dumps_ok_def loads_ok_def)
next
  case main
  show ?thesis by (rule main_step_loads [OF main(2) assms(2,3)])
next
  case handler
  from handler(2) assms(2) show ?thesis
    by cases (simp_all add: dumps_ok_def)
next
  case signal
  from signal(2) assms(2) show ?thesis
    by cases (simp_all add: dumps_ok_def)
qed (use assms(2) in \<open>simp_all add: dumps_ok_def\<close>)

lemma staged_reach_dumps_ok: "staged_reach X t0 c \<Longrightarrow> dumps_ok X t0 c"
proof (induction rule: staged_reach.induct)
  case (staged_boot ptr)
  show ?case by (simp add: dumps_ok_def loads_ok_def boot_process_def)
next
  case (staged_next c a c')
  obtain s h s' h' where c: "c = (s, h)" "c' = (s', h')" by (cases c; cases c') auto
  have step: "staged_step X a (s, h) (s', h')" using staged_next(2) c by simp
  have "loads_ok X t0 (s, h) (main_pc s') \<and>
    (\<forall>vals \<in> set (dumps s'). \<forall>k < 5. was X t0 (s, h) (gateway_value k (vals ! k))) \<and>
    (\<forall>vals \<in> set (bus_dumps s'). \<forall>k < 6. was X t0 (s, h) (bus_value (serial_ptr s) k (vals ! k)))"
    using step
  proof cases
    case other
    show ?thesis by (rule process_step_loads [OF other(2) staged_next(3,1) [unfolded c]])
  qed (use staged_next(3) c in \<open>simp_all add: dumps_ok_def\<close>)
  then show ?case
    using was_step [OF _ step] loads_ok_step [OF _ step] step_keeps_ptr [OF step] c by (simp add: dumps_ok_def)
qed

text \<open>The counters under the names the console gives them.\<close>

definition gateway_counters :: "gateway_stats \<Rightarrow> (string \<times> nat) list" where
  "gateway_counters st = [(''requests'', unat (requests st)), (''responses'', unat (responses st)),
     (''timeouts'', unat (timeouts st)), (''crc_failures'', unat (crc_failures st)), (''malformed'', unat (malformed st))]"

definition line_counters :: "'e serial \<Rightarrow> (string \<times> nat) list" where
  "line_counters srl = [(''requests'', unat (bus_requests srl)), (''replies'', unat (bus_replies srl)),
     (''timeouts'', unat (bus_timeouts srl)), (''io_errors'', unat (io_errors srl)), (''reconnects'', unat (reconnects srl))]"

lemma gateway_fields: "zip gateway_names (map unat (report_of st)) = gateway_counters st"
  by (simp add: gateway_names_def report_of_def gateway_counters_def)

lemma line_fields: "zip bus_names (map unat (serial_counters srl)) = line_counters srl"
  by (simp add: bus_names_def serial_counters_def line_counters_def)

lemma length_counters: "length (report_of st) = 5" "length (serial_counters srl) = 5"
  by (simp_all add: report_of_def serial_counters_def)

lemma nth_gateway_counters: "k < 5 \<Longrightarrow> gateway_counters st ! k = (gateway_names ! k, unat (report_of st ! k))"
  using names_ok by (simp add: gateway_fields [symmetric] length_counters)

lemma nth_line_counters: "k < 5 \<Longrightarrow> line_counters srl ! k = (bus_names ! k, unat (serial_counters srl ! k))"
  using names_ok by (simp add: line_fields [symmetric] length_counters)

text \<open>A place of a line of the diagnostics, as read off the text, held the counter of that name.\<close>

lemma gateway_block:
  assumes "dumps_ok X t0 c" and "d \<in> set (dumps (fst c))" and "length d = 5" and "k < 5"
  shows "was X t0 c (\<lambda>s0. zip gateway_names (map unat d) ! k = gateway_counters (counters s0) ! k)"
proof (rule was_mono)
  show "was X t0 c (gateway_value k (d ! k))"
    using assms by (simp add: dumps_ok_def)
qed (use assms names_ok in \<open>simp add: nth_gateway_counters\<close>)

lemma line_block:
  assumes "dumps_ok X t0 c" and "v \<in> set (bus_dumps (fst c))" and "length v = 6" and "k < 5"
    and "serial_ptr (fst c) = Some ptr"
    and "\<And>s h. staged_reach X t0 (s, h) \<Longrightarrow> \<exists>srl. serial_of (rtu s) = Some srl \<and> snd (ptr (rtu s)) = serial_counters srl"
  shows "was X t0 c (\<lambda>s0. zip bus_names (map unat (tl v)) ! k = line_counters (the (serial_of (rtu s0))) ! k)"
proof (rule was_mono)
  show "was X t0 c (bus_value (serial_ptr (fst c)) (Suc k) (v ! Suc k))"
    using assms(1,2,4) by (simp add: dumps_ok_def)
next
  fix s h
  assume "staged_reach X t0 (s, h)" and "bus_value (serial_ptr (fst c)) (Suc k) (v ! Suc k) s"
  with assms(3-6) names_ok show "zip bus_names (map unat (tl v)) ! k = line_counters (the (serial_of (rtu s))) ! k"
    by (fastforce simp: nth_line_counters bus_line_def nth_tl)
qed

section \<open>The start\<close>

definition bad_line :: "string \<Rightarrow> bool" where
  "bad_line l \<longleftrightarrow> CHR ''='' \<notin> set (uncomment l) \<and> \<not> list_all blank (uncomment l)"

lemma load_line_error:
  "load_line path n l kv = Inl err \<longleftrightarrow>
    bad_line l \<and> err = path @ '':'' @ to_string_nat n @ '': expected key = value''"
proof (cases "find_first (\<lambda>c. c = CHR ''='') (uncomment l)")
  case None
  moreover have "find_first (\<lambda>c. \<not> blank c) (uncomment l) = None \<longleftrightarrow> list_all blank (uncomment l)"
    by (simp add: find_first_None list_all_iff)
  moreover have "CHR ''='' \<notin> set (uncomment l)"
    using None unfolding find_first_None by blast
  ultimately show ?thesis
    unfolding load_line_def bad_line_def Let_def by (cases "list_all blank (uncomment l)") (simp_all, blast)
next
  case (Some eq)
  then have "CHR ''='' \<in> set (uncomment l)"
    using find_first_None [of "\<lambda>c. c = CHR ''=''" "uncomment l"] by auto
  then show ?thesis
    using Some unfolding load_line_def bad_line_def Let_def by simp
qed

lemma load_lines_error:
  "load_lines path n ls kv = (Some err, kv') \<Longrightarrow> \<exists>k < length ls. bad_line (ls ! k) \<and> (\<forall>j<k. \<not> bad_line (ls ! j)) \<and>
    err = path @ '':'' @ to_string_nat (n + k + 1) @ '': expected key = value''"
proof (induction path n ls kv rule: load_lines.induct)
  case (2 path n l lines kv)
  show ?case
  proof (cases "load_line path (n + 1) l kv")
    case (Inl e)
    then show ?thesis
      using 2(2) load_line_error [of path "n + 1" l kv e] by (intro exI [of _ 0]) simp
  next
    case (Inr kv2)
    then have "\<not> bad_line l"
      using load_line_error [of path "n + 1" l kv] by force
    moreover obtain k where "k < length lines" "bad_line (lines ! k)" "\<forall>j<k. \<not> bad_line (lines ! j)"
      "err = path @ '':'' @ to_string_nat (n + 1 + k + 1) @ '': expected key = value''"
      using 2 Inr by auto
    ultimately show ?thesis
      by (intro exI [of _ "Suc k"]) (auto simp: nth_Cons less_Suc_eq_0_disj split: nat.split)
  qed
qed simp

text \<open>The effect of an option with a value.\<close>

definition set_option :: "'d floating \<Rightarrow> string \<Rightarrow> string \<Rightarrow> 'd options \<Rightarrow> std_exception + 'd options" where
  "set_option F a v opt =
     (if a = ''--port'' then map_sum id (\<lambda>i. opt\<lparr>opt_port := word_of_int i\<rparr>) (stoi v)
      else if a = ''--units'' then map_sum id (\<lambda>u. opt\<lparr>opt_units := u\<rparr>) (parse_units v)
      else if a = ''--drop'' then map_sum id (\<lambda>d. opt\<lparr>opt_drop := d\<rparr>) (stod F v)
      else if a = ''--corrupt'' then map_sum id (\<lambda>d. opt\<lparr>opt_corrupt := d\<rparr>) (stod F v)
      else if a = ''--seed'' then map_sum id (\<lambda>n. opt\<lparr>opt_seed := of_nat n\<rparr>) (stoul v)
      else if a = ''--config'' then Inr (opt\<lparr>opt_config_file := v\<rparr>)
      else if a = ''--serial'' then Inr (opt\<lparr>opt_serial_port := v\<rparr>)
      else if a = ''--baud'' then map_sum id (\<lambda>n. opt\<lparr>opt_baud := of_nat n\<rparr>) (stoul v)
      else map_sum id (\<lambda>n. opt\<lparr>opt_resp_timeout_ms := of_nat n\<rparr>) (stoul v))"

definition the_value :: "string list \<Rightarrow> string" where
  "the_value args = (if args = [] then '''' else hd args)"

lemma parse_valued:
  assumes "a \<in> set valued_options"
  shows "parse_args F (a # args) opt = (case set_option F a (the_value args) opt of
     Inl e \<Rightarrow> Uncaught e | Inr opt' \<Rightarrow> parse_args F (drop 1 args) opt')"
proof -
  have "a \<in> {''--port'', ''--units'', ''--drop'', ''--corrupt'', ''--seed'', ''--config'', ''--serial'',
     ''--baud'', ''--timeout''}"
    using assms by (simp add: valued_options_def)
  then show ?thesis
    by (elim insertE emptyE; simp add: set_option_def the_value_def Let_def split: sum.split)
qed

lemma set_option_config:
  "set_option F a v opt = Inr opt' \<Longrightarrow> opt_config_file opt' \<in> {opt_config_file opt, v}"
  by (auto simp: set_option_def map_sum_def split: if_splits sum.splits)

lemma parse_quiet: "parse_args F (''--quiet'' # args) opt = parse_args F args (opt\<lparr>opt_quiet := True\<rparr>)"
  by (simp add: Let_def)

lemma parse_other:
  "a \<notin> set valued_options \<Longrightarrow> a \<noteq> ''--quiet'' \<Longrightarrow> parse_args F (a # args) opt = Exit (if a = ''--help'' then 0 else 2)"
  by (simp add: Let_def valued_options_def)

declare parse_args.simps(2) [simp del]

lemma stopped_valued: "a \<in> set valued_options \<Longrightarrow> stopped_at (a # args) = stopped_at (drop 1 args)"
  by (cases args) simp_all

lemma drop_1_args: "set (drop 1 args) \<subseteq> set (a # args)" "length (drop 1 args) < length (a # args)"
  "the_value args \<in> insert '''' (set (a # args))"
  by (auto dest: in_set_dropD simp: the_value_def)

lemma parse_args_exit:
  "parse_args F args opt = Exit n \<Longrightarrow> \<exists>a. stopped_at args = Some a \<and> a \<in> set args \<and>
    a \<notin> set valued_options \<and> a \<noteq> ''--quiet'' \<and> n = (if a = ''--help'' then 0 else 2)"
proof (induction args arbitrary: opt rule: measure_induct_rule [of length])
  case (less args)
  show ?case
  proof (cases args)
    case (Cons a rest)
    consider "a \<in> set valued_options" | "a = ''--quiet''" | "a \<notin> set valued_options" "a \<noteq> ''--quiet''" by blast
    then show ?thesis
    proof cases
      case 1
      then obtain opt' where "parse_args F (drop 1 rest) opt' = Exit n"
        using parse_valued [OF 1, of F rest opt] less.prems Cons by (auto split: sum.splits)
      from less.IH [OF _ this] obtain b where "stopped_at (drop 1 rest) = Some b" "b \<in> set (drop 1 rest)"
        "b \<notin> set valued_options \<and> b \<noteq> ''--quiet'' \<and> n = (if b = ''--help'' then 0 else 2)"
        using drop_1_args(2) [of rest a] Cons by blast
      then show ?thesis
        using stopped_valued [OF 1, of rest] drop_1_args(1) [of rest a] unfolding Cons
        by (intro exI [of _ b]) (simp only: subsetD simp_thms)
    next
      case 2
      then have parse: "parse_args F rest (opt\<lparr>opt_quiet := True\<rparr>) = Exit n" and stop: "stopped_at args = stopped_at rest"
        using less.prems Cons parse_quiet [of F rest opt] by (auto simp: valued_options_def)
      from less.IH [OF _ parse] obtain b where "stopped_at rest = Some b" "b \<in> set rest"
        "b \<notin> set valued_options \<and> b \<noteq> ''--quiet'' \<and> n = (if b = ''--help'' then 0 else 2)"
        using Cons by fastforce
      then show ?thesis
        using stop Cons by (intro exI [of _ b]) (simp only: list.set_intros simp_thms)
    next
      case 3
      then show ?thesis
        using less.prems parse_other [OF 3, of F rest opt] unfolding Cons by simp
    qed
  qed (use less.prems in simp)
qed

lemma parse_args_config:
  "parse_args F args opt = Start opt' \<Longrightarrow> opt_config_file opt' \<in> {opt_config_file opt, ''''} \<union> set args"
proof (induction args arbitrary: opt rule: measure_induct_rule [of length])
  case (less args)
  show ?case
  proof (cases args)
    case (Cons a rest)
    consider "a \<in> set valued_options" | "a = ''--quiet''" | "a \<notin> set valued_options" "a \<noteq> ''--quiet''" by blast
    then show ?thesis
    proof cases
      case 1
      then obtain opt2 where opt2: "parse_args F (drop 1 rest) opt2 = Start opt'"
        "set_option F a (the_value rest) opt = Inr opt2"
        using parse_valued [OF 1, of F rest opt] less.prems Cons by (auto split: sum.splits)
      have "opt_config_file opt' \<in> {opt_config_file opt2, ''''} \<union> set (drop 1 rest)"
        using less.IH [OF _ opt2(1)] drop_1_args(2) [of rest a] Cons by blast
      then show ?thesis
        using set_option_config [OF opt2(2)] drop_1_args(1,3) [of rest a] unfolding Cons by auto
    next
      case 2
      then have "parse_args F rest (opt\<lparr>opt_quiet := True\<rparr>) = Start opt'"
        using less.prems Cons parse_quiet [of F rest opt] by simp
      from less.IH [OF _ this] show ?thesis
        using Cons by auto
    next
      case 3
      then show ?thesis
        using less.prems parse_other [OF 3, of F rest opt] unfolding Cons by simp
    qed
  qed (use less.prems in simp)
qed

text \<open>A number after a text, and the unit ids.\<close>

lemma numbers_field:
  assumes "digit_free a" and "digit_free b" and "b \<noteq> []"
  shows "numbers (a @ to_string_nat n @ b @ s) = n # numbers (b @ s)"
  using numbers_skip [OF assms(1)] numbers_decimal [of "b @ s" n] assms(2,3) by (cases b) simp_all

lemma space_free: "digit_free '' ''" "\<not> is_digit 10 (CHR '' '')"
  by code_simp+

lemma numbers_ids: "numbers (concat (map (\<lambda>u. '' '' @ decimal u) us) @ [newline]) = map unat us"
proof (induction us)
  case (Cons u us)
  let ?s = "concat (map (\<lambda>u. '' '' @ decimal u) us) @ [newline]"
  have "\<not> is_digit 10 (hd ?s)"
    using space_free by (cases us) simp_all
  then show ?case
    using numbers_skip [OF space_free(1)] numbers_decimal [of ?s "unat u"] Cons by (simp add: decimal_def)
qed simp

section \<open>The lines of the connection threads\<close>

text \<open>What \<open>serve_client\<close> writes when it closes a connection for a framing error.\<close>

definition framing_text :: "bool \<Rightarrow> worker \<Rightarrow> string" where
  "framing_text quiet w =
     (if w_pc w = Returned Framing_error \<and> \<not> quiet
      then ''  framing error: '' @ to_string (error (the (decode (w_buf w) (length (w_buf w))))) @ '', closing'' @ [newline]
      else '''')"

definition framing_ok :: "worker \<Rightarrow> bool" where
  "framing_ok w \<longleftrightarrow> (w_pc w = Returned Framing_error \<longrightarrow>
     w_in w = wire (requests_of w) @ w_buf w \<and> (\<exists>e. parse_adu (w_buf w) = Bad e))"

lemma worker_step_framing_ok:
  assumes "worker_step transact run (w, t, st) (w', t', st')" and "worker_ok w" and "framing_ok w"
  shows "framing_ok w'"
  using assms(1)
proof (cases rule: worker_step_cases)
  case (framing r)
  then show ?thesis
    using assms(2) decode_no_frameD [OF framing(2,3)] by (simp add: worker_ok_def framing_ok_def)
qed (use assms(3) in \<open>simp_all add: framing_ok_def\<close>)

lemma socket_step_framing_ok: "socket_step w w' \<Longrightarrow> framing_ok w \<Longrightarrow> framing_ok w'"
  by (auto elim!: socket_stepE simp: framing_ok_def)

lemma reach_framing_ok: "process_reach transact t0 s \<Longrightarrow> framing_ok (workers s i)"
proof (induction rule: process_reach.induct)
  case (reach_boot ptr)
  show ?case by (simp add: boot_process_def idle_worker_def framing_ok_def)
next
  case (reach_step s a s')
  have ok: "worker_ok (workers s j)" for j
    using reach_workers_ok [OF reach_step(1)] by (simp add: workers_ok_def)
  from reach_step(2) show ?case
  proof cases
    case (worker j w t st)
    then show ?thesis
      using worker_step_framing_ok [OF worker(3) ok] reach_step(3) by (cases "j = i") auto
  next
    case (socket j w)
    then show ?thesis
      using socket_step_framing_ok [OF socket(3)] reach_step(3) by (cases "j = i") auto
  next
    case main
    have "framing_ok start_worker"
      by (simp add: start_worker_def framing_ok_def)
    then show ?thesis
      using main(2) reach_step(3) by (auto elim!: main_stepE)
  qed (use quiet_step [OF reach_step(2)] reach_step(3) in auto)
qed

text \<open>The line names the error that follows the requests the thread has answered.\<close>

lemma framing_line_explains:
  assumes "process_reach transact t0 s" and "w_pc (workers s i) = Returned Framing_error"
  shows "\<exists>rest e. w_in (workers s i) = wire (requests_of (workers s i)) @ rest \<and> parse_adu rest = Bad e \<and>
    e \<noteq> NeedMoreData \<and> framing_text False (workers s i) = ''  framing error: '' @ to_string e @ '', closing'' @ [newline]"
proof -
  obtain e where e: "w_in (workers s i) = wire (requests_of (workers s i)) @ w_buf (workers s i)"
    "parse_adu (w_buf (workers s i)) = Bad e"
    using reach_framing_ok [OF assms(1), of i] assms(2) by (auto simp: framing_ok_def)
  with parse_Bad_error [OF e(2)] show ?thesis
    by (intro exI [of _ "w_buf (workers s i)"] exI [of _ e])
      (simp add: framing_text_def assms(2) decode_parse)
qed

section \<open>Properties\<close>

text \<open>C26: A failed start says why. When \<open>main\<close> returns before it builds the transport, it has returned 0
  and written the usage text, or it has returned 2 and written one line to the standard error: it
  names the argument that is no option; or the configuration file, given on the command line, that
  cannot be opened; or the first line of that file that is neither blank, comment nor setting.\<close>

theorem failed_start_explained:
  assumes "start_options F files args = Exit n"
  shows "(n = 0 \<and> ''--help'' \<in> set args \<and> start_text F files args = (usage, '''')) \<or>
    (n = 2 \<and> (\<exists>a \<in> set args. a \<notin> set valued_options \<and> a \<noteq> ''--quiet'' \<and> a \<noteq> ''--help'' \<and>
       start_text F files args = ('''', ''unknown option '' @ a @ [newline]))) \<or>
    (n = 2 \<and> (\<exists>path \<in> set args. files path = None \<and>
       start_text F files args = ('''', ''config: cannot open '' @ path @ [newline]))) \<or>
    (n = 2 \<and> (\<exists>path \<in> set args. \<exists>content k. files path = Some content \<and>
       k < length (getlines newline content) \<and> bad_line (getlines newline content ! k) \<and>
       (\<forall>j<k. \<not> bad_line (getlines newline content ! j)) \<and>
       start_text F files args =
         ('''', ''config: '' @ path @ '':'' @ to_string_nat (k + 1) @ '': expected key = value'' @ [newline])))"
proof (cases "parse_args F args (default_options F)")
  case (Exit m)
  then have "m = n"
    using assms by (simp add: start_options_def)
  with parse_args_exit [OF Exit] obtain a where "stopped_at args = Some a" "a \<in> set args" "a \<notin> set valued_options"
    "a \<noteq> ''--quiet''" "n = (if a = ''--help'' then 0 else 2)"
    by blast
  then show ?thesis
    using Exit by (cases "a = ''--help''") (auto simp: start_text_def)
next
  case (Start opt)
  let ?path = "opt_config_file opt"
  have path: "?path \<noteq> ''''"
    using assms Start by (auto simp: start_options_def)
  then have arg: "?path \<in> set args"
    using parse_args_config [OF Start] by (simp add: default_options_def)
  obtain err kv where load: "load ?path (files ?path) Map.empty = (Some err, kv)" and n: "n = 2"
    using assms Start path by (auto simp: start_options_def split: prod.splits option.splits)
  then have out: "start_text F files args = ('''', ''config: '' @ err @ [newline])"
    using Start path by (simp add: start_text_def)
  show ?thesis
  proof (cases "files ?path")
    case None
    then have "err = ''cannot open '' @ ?path"
      using load by (simp add: load_def)
    then have "start_text F files args = ('''', ''config: cannot open '' @ ?path @ [newline])"
      using out by simp
    then show ?thesis using n arg None by blast
  next
    case (Some content)
    from load_lines_error [of ?path 0 "getlines newline content" Map.empty err kv] load Some
    obtain k where "k < length (getlines newline content)" "bad_line (getlines newline content ! k)"
      "\<forall>j<k. \<not> bad_line (getlines newline content ! j)"
      "err = ?path @ '':'' @ to_string_nat (k + 1) @ '': expected key = value''"
      by (auto simp: load_def)
    moreover from this(4) have "start_text F files args =
        ('''', ''config: '' @ ?path @ '':'' @ to_string_nat (k + 1) @ '': expected key = value'' @ [newline])"
      using out by simp
    ultimately show ?thesis
      using n arg Some by blast
  qed
qed (use assms in \<open>simp add: start_options_def\<close>)

theorem failed_start_explained_witness:
  "start_options demo_floating (\<lambda>_. None) [''--quiet'', ''--verbose''] = Exit 2 \<and>
    (\<exists>a \<in> set [''--quiet'', ''--verbose'']. a \<notin> set valued_options \<and> a \<noteq> ''--quiet'' \<and> a \<noteq> ''--help'' \<and>
      start_text demo_floating (\<lambda>_. None) [''--quiet'', ''--verbose''] = ('''', ''unknown option '' @ a @ [newline]))"
proof -
  have parse: "parse_args demo_floating [''--quiet'', ''--verbose''] opt = Exit 2" for opt
    using parse_other [of "''--verbose''"] by (simp add: parse_quiet valued_options_def)
  then have exit: "start_options demo_floating (\<lambda>_. None) [''--quiet'', ''--verbose''] = Exit 2"
    by (simp add: start_options_def)
  have out: "start_text demo_floating (\<lambda>_. None) [''--quiet'', ''--verbose''] = ('''', ''unknown option --verbose'' @ [newline])"
    using parse by (simp add: start_text_def valued_options_def)
  from failed_start_explained [OF exit] exit show ?thesis
    unfolding out by simp
qed

text \<open>C25: What the console shows are the counters. When \<open>main\<close> has returned 0 for the options it was
  started with, it has written, after the messages of the start and the line that tells the
  configuration, a text from which the pairs \<open>name=number\<close> can be read off: the blocks of the
  diagnostics, and then every counter of the gateway under its name, with its final value, and on a
  serial line every counter of the line under its name. Each pair in a block of the diagnostics is a
  counter under its name with the value it had at some earlier moment; on a serial line the blocks
  alternate between the gateway and the line.\<close>

theorem console_reads_back:
  fixes px :: "('e, 'm) posix" and below :: "'d \<Rightarrow> 'g \<Rightarrow> bool \<times> 'g"
  assumes "posix_ok px rank" and "\<And>n g. fst (pick n g) \<le> n"
    and "start_options F files args = Start opt" and "construct_rtu F mt19937 opt e = Some t0"
    and "staged_reach (rtu_stages px garbage below pick) t0 (s, h)"
    and "main_pc s = M_Exit 0" and "serial_ptr s = serial_ptr_of opt"
  shows "\<exists>t blocks. main_text F fixed2 files args s = snd (start_text F files args) @ banner F fixed2 opt @ t \<and>
    fields t = concat blocks @ gateway_counters (counters s) @
      (if opt_serial_port opt = '''' then [] else line_counters (the (serial_of (rtu s)))) \<and>
    (\<forall>i < length blocks. length (blocks ! i) = 5 \<and> (\<forall>k < 5.
      was (rtu_stages px garbage below pick) t0 (s, h) (\<lambda>s0. blocks ! i ! k =
        (if opt_serial_port opt \<noteq> '''' \<and> odd i then line_counters (the (serial_of (rtu s0))) else gateway_counters (counters s0)) ! k)))"
proof -
  let ?X = "rtu_stages px garbage below pick" and ?blocks = "dump_blocks (dumps s) (bus_dumps s)"
  have ok: "report s = Some (report_of (counters s))" "bus_report s = bus_report_of s"
    using staged_reach_ok [OF assms(5)] assms(6) by (simp_all add: staged_ok_def main_ok_def)
  have con: "console_ok s" and dumps: "dumps_ok ?X t0 (s, h)"
    using staged_reach_console [OF assms(5)] staged_reach_dumps_ok [OF assms(5)] by simp_all
  have whole: "main_text F fixed2 files args s = snd (start_text F files args) @ banner F fixed2 opt @ loop_text s"
    using assms(3,6) by (simp add: main_text_def)
  have lens: "list_all (\<lambda>v. length v = 5) (dumps s)" "list_all (\<lambda>v. length v = 6) (bus_dumps s)"
    "serial_ptr s = None \<longrightarrow> bus_dumps s = []" "serial_ptr s \<noteq> None \<longrightarrow> length (dumps s) = length (bus_dumps s)"
    using con assms(6) by (simp_all add: console_ok_def)
  then have len: "d \<in> set (dumps s) \<Longrightarrow> length d = 5" "v \<in> set (bus_dumps s) \<Longrightarrow> length v = 6" for d v
    by (simp_all add: list_all_iff)
  have "\<not> serial_ptr s \<noteq> None \<longrightarrow> bus_dumps s = []"
    using lens(3) by simp
  note shown = fields_dumps [OF lens(1,2) this]
  show ?thesis
  proof (cases "opt_serial_port opt = ''''")
    case True
    then have none: "serial_ptr s = None" "bus_dumps s = []"
      using assms(7) lens(3) by (simp_all add: serial_ptr_of_def)
    have "fields (loop_text s) = concat ?blocks @ gateway_counters (counters s)"
      using shown fields_report [OF length_counters(1), of None] none
      by (simp add: loop_text_def ok bus_report_of_def gateway_fields)
    moreover have "length (?blocks ! i) = 5 \<and> (\<forall>k<5. was ?X t0 (s, h) (\<lambda>s0. ?blocks ! i ! k = gateway_counters (counters s0) ! k))"
      if i: "i < length ?blocks" for i
    proof -
      have d: "dumps s ! i \<in> set (dumps s)" "?blocks ! i = zip gateway_names (map unat (dumps s ! i))"
        using nth_dump_blocks [of i "dumps s"] i none(2) by simp_all
      from gateway_block [OF dumps, of "dumps s ! i"] d len(1) names_ok(1) show ?thesis
        unfolding d(2) by simp
    qed
    ultimately show ?thesis
      using whole True by (intro exI [of _ "loop_text s"] exI [of _ ?blocks]) simp
  next
    case False
    have line: "\<exists>srl. serial_of (rtu s1) = Some srl \<and> snd (serial_view srl) = serial_counters srl"
      if "staged_reach ?X t0 (s1, h1)" for s1 h1
      using staged_accounts [where pick = pick, OF assms(1) _ assms(4) False that] assms(2)
      by (fastforce simp: serial_accounts_def serial_view_def serial_counters_def)
    obtain ptr where ptr: "serial_ptr s = Some ptr" "\<And>t srl. serial_of t = Some srl \<Longrightarrow> ptr t = serial_view srl"
      using assms(7) False by (simp add: serial_ptr_of_def)
    then have same: "length (dumps s) = length (bus_dumps s)"
      using lens(4) by simp
    obtain srl where srl: "serial_of (rtu s) = Some srl" "snd (ptr (rtu s)) = serial_counters srl"
      using line [OF assms(5)] ptr(2) by auto
    have "fields (loop_text s) = concat ?blocks @ gateway_counters (counters s) @ line_counters srl"
      using shown fields_report [OF length_counters(1), of "Some (serial_counters srl)"] ptr(1) srl(2)
      by (simp add: loop_text_def ok bus_report_of_def gateway_fields line_fields length_counters)
    moreover have "length (?blocks ! i) = 5 \<and> (\<forall>k<5. was ?X t0 (s, h) (\<lambda>s0. ?blocks ! i ! k =
        (if odd i then line_counters (the (serial_of (rtu s0))) else gateway_counters (counters s0)) ! k))"
      if i: "i < length ?blocks" for i
    proof -
      note block = nth_dump_blocks_bus [OF same i]
      have mem: "dumps s ! (i div 2) \<in> set (dumps s)" "bus_dumps s ! (i div 2) \<in> set (bus_dumps s)"
        using block same by simp_all
      have ptr': "\<And>s1 h1. staged_reach ?X t0 (s1, h1) \<Longrightarrow> \<exists>srl. serial_of (rtu s1) = Some srl \<and> snd (ptr (rtu s1)) = serial_counters srl"
        using line ptr(2) by fastforce
      show ?thesis
      proof (cases "odd i")
        case True
        then have b: "?blocks ! i = zip bus_names (map unat (tl (bus_dumps s ! (i div 2))))"
          using block by simp
        from line_block [OF dumps, of "bus_dumps s ! (i div 2)", OF _ _ _ _ ptr'] mem(2) len(2) [OF mem(2)] names_ok(2) ptr(1) True
        show ?thesis unfolding b by simp
      next
        case False
        then have b: "?blocks ! i = zip gateway_names (map unat (dumps s ! (i div 2)))"
          using block by simp
        from gateway_block [OF dumps, of "dumps s ! (i div 2)"] mem(1) len(1) [OF mem(1)] names_ok(1) False
        show ?thesis unfolding b by simp
      qed
    qed
    ultimately show ?thesis
      using whole False srl(1) by (intro exI [of _ "loop_text s"] exI [of _ ?blocks]) simp
  qed
qed

theorem console_reads_back_witness:
  "\<exists>s t. staged_reach demo_stages silent_line (s, None) \<and> length (responses_of (workers s 0)) = 1 \<and>
    main_text demo_floating (\<lambda>_. '''') (\<lambda>_. None) [''--serial'', ''/dev/ttyUSB0''] s =
      banner demo_floating (\<lambda>_. '''') serial_options @ t \<and>
    suffix (gateway_counters (counters s) @ line_counters (the (serial_of (rtu s)))) (fields t)"
proof -
  have pick: "fst (Pair n g) \<le> n" for n :: nat and g :: unit by simp
  have parse: "parse_args demo_floating [''--serial'', ''/dev/ttyUSB0''] (default_options demo_floating) = Start serial_options"
    using parse_valued [of "''--serial''" demo_floating "[''/dev/ttyUSB0'']"]
    by (simp add: valued_options_def set_option_def the_value_def serial_options_def)
  have "opt_config_file serial_options = ''''"
    by (simp add: serial_options_def default_options_def)
  then have start: "start_options demo_floating (\<lambda>_. None) [''--serial'', ''/dev/ttyUSB0''] = Start serial_options"
    and quiet: "snd (start_text demo_floating (\<lambda>_. None) [''--serial'', ''/dev/ttyUSB0'']) = ''''"
    using parse by (simp_all add: start_options_def start_text_def)
  obtain f t st where "process_reach demo_rtu silent_line
      (one_master (serial_ptr_of serial_options) silent_line (answered_worker demo_request f) t st)"
    using serial_example(5) by blast
  from reach_exit [OF this] obtain s where "process_reach demo_rtu silent_line s" and s: "main_pc s = M_Exit 0"
    "serial_ptr s = serial_ptr_of serial_options" "length (responses_of (workers s 0)) = 1"
    by (auto simp: answered_worker_def)
  from serial_example(4) [OF this(1)] have reach: "staged_reach demo_stages silent_line (s, None)" .
  from console_reads_back [where pick = Pair, OF demo_posix_ok pick start serial_example(2) reach s(1,2), of "\<lambda>_. ''''"]
    serial_example(1) reach s(3) quiet
  show ?thesis by (auto simp: suffix_def)
qed

text \<open>The console is only appended to. In every reachable state, whatever thread, signal or stage of
  an exchange comes next, what \<open>main\<close> has written stays; nothing of the diagnostics or of the report
  is written twice or taken back.\<close>

theorem console_append_only:
  assumes "staged_reach X t0 (s, h)" and "staged_step X a (s, h) (s', h')"
  shows "prefix (loop_text s) (loop_text s')"
  using staged_step_console [OF assms(2)] staged_reach_console [OF assms(1)] staged_reach_ok [OF assms(1)]
  by (simp add: staged_ok_def)

theorem console_append_only_witness:
  "\<exists>s s'. staged_reach demo_stages silent_line (s, None) \<and> staged_step demo_stages Signal (s, None) (s', None) \<and>
    loop_text s = gateway_dump [1, 0, 0, 0, 0] \<and> prefix (loop_text s) (loop_text s')"
proof -
  let ?ptr = "serial_ptr_of serial_options :: ((u8 list list, unit, int) gateway_rtu \<Rightarrow> bool \<times> u64 list) option"
  let ?m = "one_master ?ptr silent_line (counted_worker demo_request) silent_line (gw_count zero_stats)"
  obtain ptr where ptr: "?ptr = Some ptr"
    by (simp add: serial_ptr_of_def serial_options_def)
  have m: "serial_ptr ?m = Some ptr" "dumps ?m = []" "bus_dumps ?m = []" "report ?m = None"
    using ptr by (simp_all add: one_master_def boot_process_def)
  let ?s = "?m\<lparr>main_pc := M_Bus_Dump (-1) Map.empty, dump_stats := False, dumps := dumps ?m @ [report_of (counters ?m)]\<rparr>"
  have "process_reach demo_rtu silent_line ?s"
    by (rule reach_bus_dump [OF reach_counted [OF demo_request_ok(3)] _ _ _ m(1)]) simp_all
  from serial_example(4) [OF this] have reach: "staged_reach demo_stages silent_line (?s, None)" .
  have step: "staged_step demo_stages Signal (?s, None) (?s\<lparr>running := False, exchanging := exchanging ?s + 1\<rparr>, None)"
    by (intro staged_step.other process_step.signal signal_step.on_signal [of SIGINT]) simp_all
  have "loop_text ?s = gateway_dump [1, 0, 0, 0, 0]"
    using m by (simp add: loop_text_def report_of_def gw_count_def zero_stats_def)
  with reach step console_append_only [OF reach step] show ?thesis
    by blast
qed

text \<open>The start-up line tells the truth. Without a serial line and without faults, the numbers in
  the line \<open>main\<close> writes once it listens are the address and the port it is bound to and the unit ids
  the backend is built with.\<close>

theorem banner_tells_configuration:
  assumes "opt_serial_port opt = ''''" and "\<not> is_positive F (opt_drop opt)" and "\<not> is_positive F (opt_corrupt opt)"
  shows "numbers (banner F fixed2 opt) = map unat (sin_addr (listen_address opt)) @
    [unat (be16 (sin_port (listen_address opt) ! 0) (sin_port (listen_address opt) ! 1))] @
    (case select_backend opt of In_process_backend ids regs \<Rightarrow> map unat ids)"
proof -
  let ?ids = "concat (map (\<lambda>u. '' '' @ decimal u) (opt_units opt)) @ [newline]"
  have "''gateway on 127.0.0.1:'' = ''gateway on '' @ to_string_nat 127 @ ''.'' @ to_string_nat 0 @ ''.'' @
      to_string_nat 0 @ ''.'' @ to_string_nat 1 @ '':''"
    by code_simp
  then have "banner F fixed2 opt = ''gateway on '' @ to_string_nat 127 @ ''.'' @ to_string_nat 0 @ ''.'' @
      to_string_nat 0 @ ''.'' @ to_string_nat 1 @ '':'' @ decimal (opt_port opt) @ '', in-process units:'' @ ?ids"
    using assms by (simp only: banner_def simp_thms if_True if_False append_assoc append_Nil)
  moreover have free: "digit_free ''gateway on ''" "digit_free ''.''" "digit_free '':''" "digit_free '', in-process units:''"
    and some: "''.'' \<noteq> ''''" "'':'' \<noteq> ''''" "'', in-process units:'' \<noteq> ''''"
    by (code_simp, code_simp, code_simp, code_simp, simp_all)
  note fields = numbers_field [OF free(1,2) some(1)] numbers_field [OF free(2,2) some(1)]
    numbers_field [OF free(2,3) some(2)] numbers_field [OF free(3,4) some(3)] numbers_skip [OF free(4)]
  ultimately have "numbers (banner F fixed2 opt) = [127, 0, 0, 1, unat (opt_port opt)] @ numbers ?ids"
    by (simp only: fields decimal_def append_Cons append_Nil)
  moreover have "htonl INADDR_LOOPBACK = [127, 0, 0, 1]"
    by code_simp
  ultimately show ?thesis
    using assms(1) numbers_ids [of "opt_units opt"] by (simp add: listen_address_def htons_def select_backend_def)
qed

theorem banner_tells_configuration_witness:
  "numbers (banner demo_floating (\<lambda>_. '''') (default_options demo_floating)) = [127, 0, 0, 1, 5020, 17, 34, 51]"
  using banner_tells_configuration [of "default_options demo_floating" demo_floating "\<lambda>_. ''''"]
  by (simp add: default_options_def demo_floating_def listen_address_def htons_def select_backend_def
      htonl_def INADDR_LOOPBACK_def hi8_def lo8_def be16_def)

end
