(* ===== verification/Serial_Device.thy ===== *)
theory Serial_Device
  imports Staged_Gateway
begin

text \<open>
  \<open>SerialRtu\<close> of \<open>src/serial_rtu.hpp\<close> and a device that disappears and comes back: when the port
  is opened again, and which descriptors the process holds. At every moment of a gateway over a
  serial line the descriptors of the device are those that the state and the running exchange
  determine, at most one, and the destructor leaves none.
\<close>

section \<open>Reopening the port\<close>

text \<open>The test at the head of \<open>ensure_open\<close>: the last attempt is too recent.\<close>

definition backing_off :: "('e, 'm) posix \<Rightarrow> 'e serial \<Rightarrow> int \<Rightarrow> bool" where
  "backing_off px s now \<longleftrightarrow> last_attempt s \<noteq> 0 \<and>
     clock_ms px (now - last_attempt s) < int (unat (reconnect_backoff_ms (scfg s)))"

text \<open>The device can be opened and accepts the settings of the line.\<close>

definition device_there :: "('e, 'm) posix \<Rightarrow> serial_config \<Rightarrow> 'e \<Rightarrow> bool" where
  "device_there px c e \<longleftrightarrow>
     (case px_open px (port c) (O_RDWR px OR O_NOCTTY px OR O_NONBLOCK px) e of (h, e) \<Rightarrow> 0 \<le> h \<and>
     (case px_tcgetattr px h e of (r, tio, e) \<Rightarrow> r = 0 \<and>
       fst (px_tcsetattr px h (TCSANOW px) (line_settings px (baud c) tio) e) = 0))"

text \<open>The destructor.\<close>

definition destroy_serial :: "('e, 'm) posix \<Rightarrow> 'e serial \<Rightarrow> 'e serial" where
  "destroy_serial px s = close_port px s"

section \<open>The descriptors\<close>

text \<open>
  \<open>held\<close> are the open descriptors of the process in a state of the environment: \<open>open\<close> returns one
  that is not in use, \<open>close\<close> releases it, and no other call opens or closes any.
\<close>

definition tracks :: "('e, 'm) posix \<Rightarrow> ('e \<Rightarrow> int set) \<Rightarrow> bool" where
  "tracks px held \<longleftrightarrow>
     (\<forall>p fl e h e'. px_open px p fl e = (h, e') \<longrightarrow>
        (if h < 0 then held e' = held e else h \<notin> held e \<and> held e' = insert h (held e))) \<and>
     (\<forall>h e. held (px_close px h e) = held e - {h}) \<and>
     (\<forall>e. held (snd (clock_now px e)) = held e) \<and>
     (\<forall>h e. held (snd (snd (px_tcgetattr px h e))) = held e) \<and>
     (\<forall>h a tio e. held (snd (px_tcsetattr px h a tio e)) = held e) \<and>
     (\<forall>h e. held (snd (px_getfl px h e)) = held e) \<and>
     (\<forall>h fl e. held (px_setfl px h fl e) = held e) \<and>
     (\<forall>h q e. held (px_tcflush px h q e) = held e) \<and>
     (\<forall>h e. held (px_tcdrain px h e) = held e) \<and>
     (\<forall>h bs e. held (snd (px_write px h bs e)) = held e) \<and>
     (\<forall>h ev w e. held (snd (snd (px_poll px h ev w e))) = held e) \<and>
     (\<forall>h k e. held (snd (snd (px_read px h k e))) = held e)"

lemma tracks_open:
  assumes "tracks px held" and "px_open px p fl e = (h, e')"
  shows "h < 0 \<Longrightarrow> held e' = held e" and "\<not> h < 0 \<Longrightarrow> h \<notin> held e \<and> held e' = insert h (held e)"
proof -
  have "\<forall>p fl e h e'. px_open px p fl e = (h, e') \<longrightarrow>
      (if h < 0 then held e' = held e else h \<notin> held e \<and> held e' = insert h (held e))"
    using assms(1) unfolding tracks_def by (rule conjunct1)
  with assms(2) show "h < 0 \<Longrightarrow> held e' = held e" "\<not> h < 0 \<Longrightarrow> h \<notin> held e \<and> held e' = insert h (held e)"
    by force+
qed

lemma tracks_close: "tracks px held \<Longrightarrow> held (px_close px h e) = held e - {h}"
  by (simp add: tracks_def)

lemma tracks_keep:
  assumes "tracks px held"
  shows "clock_now px e = (now, e') \<Longrightarrow> held e' = held e"
    "px_tcgetattr px h e = (r, tio, e') \<Longrightarrow> held e' = held e"
    "px_tcsetattr px h a tio' e = (r, e') \<Longrightarrow> held e' = held e"
    "px_getfl px h e = (fl, e') \<Longrightarrow> held e' = held e"
    "held (px_setfl px h fl e) = held e" "held (px_tcflush px h q e) = held e" "held (px_tcdrain px h e) = held e"
    "px_write px h bs e = (w, e') \<Longrightarrow> held e' = held e"
    "px_poll px h ev ms e = (pr, eintr, e') \<Longrightarrow> held e' = held e"
    "px_read px h k e = (n, chunk, e') \<Longrightarrow> held e' = held e"
  using assms unfolding tracks_def by (metis snd_conv)+

definition port_fds :: "'e serial \<Rightarrow> int set" where
  "port_fds s = (if connected s then {fd s} else {})"

text \<open>
  The descriptors of the device at a stage of a call: the local \<open>fd\<close> of \<open>ensure_open\<close> until it is
  published or given up; none between \<open>close(fd_)\<close> and \<open>fd_ = -1\<close>; otherwise \<open>fd_\<close>, if the port is
  open.
\<close>

definition stage_fds :: "'m serial_pc \<Rightarrow> 'e serial \<Rightarrow> int set" where
  "stage_fds pc s = (case pc of
     S_Getattr h \<Rightarrow> {h} | S_Setattr h tio \<Rightarrow> {h} | S_Getfl h \<Rightarrow> {h} | S_Setfl h fl \<Rightarrow> {h} | S_Publish h \<Rightarrow> {h}
   | S_Give_up h \<Rightarrow> {h}
   | S_Forget \<Rightarrow> {}
   | _ \<Rightarrow> port_fds s)"

text \<open>While the port is being opened, \<open>fd_\<close> is negative.\<close>

definition opening_ok :: "'m serial_pc \<Rightarrow> 'e serial \<Rightarrow> bool" where
  "opening_ok pc s \<longleftrightarrow> (case pc of
     S_Clock \<Rightarrow> fd s < 0 | S_Open \<Rightarrow> fd s < 0
   | S_Getattr h \<Rightarrow> fd s < 0 \<and> 0 \<le> h | S_Setattr h tio \<Rightarrow> fd s < 0 \<and> 0 \<le> h | S_Getfl h \<Rightarrow> fd s < 0 \<and> 0 \<le> h
   | S_Setfl h fl \<Rightarrow> fd s < 0 \<and> 0 \<le> h | S_Publish h \<Rightarrow> fd s < 0 \<and> 0 \<le> h | S_Give_up h \<Rightarrow> fd s < 0 \<and> 0 \<le> h
   | _ \<Rightarrow> True)"

text \<open>Besides the descriptors \<open>base\<close> of others, the process holds those of \<open>pc\<close>.\<close>

definition holds_at :: "('e \<Rightarrow> int set) \<Rightarrow> int set \<Rightarrow> 'm serial_pc \<Rightarrow> 'e serial \<Rightarrow> bool" where
  "holds_at held base pc s \<longleftrightarrow>
     held (line s) = base \<union> stage_fds pc s \<and> base \<inter> stage_fds pc s = {} \<and> opening_ok pc s"

text \<open>The stages at which the descriptors are those of the state.\<close>

definition at_port :: "'m serial_pc \<Rightarrow> bool" where
  "at_port pc \<longleftrightarrow> (case pc of S_Write n \<Rightarrow> True | S_Return ok \<Rightarrow> True
   | _ \<Rightarrow> pc \<in> {S_Test, S_Opened, S_Flush, S_Drain, S_Count, S_Poll, S_Read, S_Error, S_Close, S_Timeout, S_Reply})"

lemma at_port_simps [simp]: "at_port S_Test" "at_port (S_Write n)" "at_port S_Drain" "at_port S_Poll" "at_port S_Read"
  "at_port S_Error" "at_port S_Timeout" "at_port S_Reply" "at_port (S_Return ok)"
  by (simp_all add: at_port_def)

lemma at_port_fds: "at_port pc \<Longrightarrow> stage_fds pc s = port_fds s \<and> opening_ok pc s"
  by (cases pc) (simp_all add: at_port_def stage_fds_def opening_ok_def)

lemma holds_at_port:
  fixes pc pc' :: "'m serial_pc"
  assumes "holds_at held base pc s" and "at_port pc" and "at_port pc'" and "held e = held (line s)"
  shows "holds_at held base pc' (s\<lparr>line := e\<rparr>)"
proof -
  have "port_fds (s\<lparr>line := e\<rparr>) = port_fds s"
    by (simp add: port_fds_def connected_def)
  then show ?thesis
    using assms(1,4) at_port_fds [OF assms(2), of s] at_port_fds [OF assms(3), of "s\<lparr>line := e\<rparr>"]
    by (simp add: holds_at_def)
qed

lemma serial_advance_holds:
  assumes "tracks px held" and "holds_at held base (s_pc x) s" and "serial_advance px x s = Some (x', s')"
  shows "holds_at held base (s_pc x') s'"
proof -
  note defs = serial_advance_def holds_at_def stage_fds_def opening_ok_def port_fds_def connected_def after_receive_def Let_def
  note keep = tracks_keep [OF assms(1)] tracks_close [OF assms(1)]
  show ?thesis
  proof (cases "s_pc x")
    case S_Open
    obtain h e where h: "px_open px (port (scfg s)) (O_RDWR px OR O_NOCTTY px OR O_NONBLOCK px) (line s) = (h, e)"
      by fastforce
    have s: "held (line s) = base" "fd s < 0"
      using assms(2) S_Open by (simp_all add: defs)
    have x': "s_pc x' = (if h < 0 then S_Return False else S_Getattr h)" "s' = s\<lparr>line := e\<rparr>"
      using assms(3) S_Open h by (auto simp: serial_advance_def)
    show ?thesis
    proof (cases "h < 0")
      case True
      then show ?thesis using tracks_open(1) [OF assms(1) h] s x' by (simp add: defs)
    next
      case False
      then show ?thesis using tracks_open(2) [OF assms(1) h] s x' by (simp add: defs)
    qed
  next
    case S_Read
    obtain n chunk e where r: "px_read px (fd s) 512 (line s) = (n, chunk, e)"
      by (metis prod_cases3)
    have "at_port (s_pc x') \<and> s' = s\<lparr>line := e\<rparr>"
    proof (cases "n \<le> 0")
      case True
      then show ?thesis
        using assms(3) S_Read r by (auto simp: serial_advance_def after_receive_def Let_def split: if_splits)
    next
      case False
      then show ?thesis
        using assms(3) S_Read r
        by (cases "rd_range chunk 0 (nat n)") (auto simp: serial_advance_def after_receive_def Let_def)
    qed
    then show ?thesis
      using holds_at_port [OF assms(2)] keep(10) [OF r] S_Read by simp
  next
    case S_Poll
    obtain pr eintr e where p: "px_poll px (fd s) (POLLIN px)
        (sint (if s_any x then frame_gap_ms (scfg s) else response_timeout_ms (scfg s))) (line s) = (pr, eintr, e)"
      by (metis prod_cases3)
    have "at_port (s_pc x') \<and> s' = s\<lparr>line := e\<rparr>"
      using assms(3) S_Poll p by (auto simp: serial_advance_def after_receive_def)
    then show ?thesis
      using holds_at_port [OF assms(2)] keep(9) [OF p] S_Poll by simp
  next
    case (S_Write n)
    obtain w e where w: "px_write px (fd s) (drop n (s_req x)) (line s) = (w, e)" by fastforce
    have pc: "at_port (s_pc x')" and moved: "s' = s\<lparr>line := e\<rparr> \<or> s' = s"
      using assms(3) S_Write w by (auto simp: serial_advance_def split: if_splits)
    have "at_port (s_pc x)" using S_Write by simp
    note port = holds_at_port [OF assms(2) this pc]
    from moved show ?thesis
      using port [OF keep(8) [OF w]] port [OF refl] by auto
  next
    case S_Clock
    obtain now e where w: "clock_now px (line s) = (now, e)" by fastforce
    have "s_pc x' = S_Return False \<and> s' = s\<lparr>line := e\<rparr> \<or> s_pc x' = S_Open \<and> s' = s\<lparr>line := e, last_attempt := now\<rparr>"
      using assms(3) S_Clock w by (auto simp: serial_advance_def Let_def split: if_splits)
    then show ?thesis
      using assms(2) S_Clock keep(1) [OF w] by (elim disjE conjE) (simp_all add: defs)
  next
    case (S_Getattr h)
    obtain r tio e where w: "px_tcgetattr px h (line s) = (r, tio, e)" by (metis prod_cases3)
    have "(s_pc x' = S_Give_up h \<or> s_pc x' = S_Setattr h (line_settings px (baud (scfg s)) tio)) \<and> s' = s\<lparr>line := e\<rparr>"
      using assms(3) S_Getattr w by (auto simp: serial_advance_def)
    then show ?thesis
      using assms(2) S_Getattr keep(2) [OF w] by (elim disjE conjE) (simp_all add: defs)
  next
    case (S_Setattr h tio)
    obtain r e where w: "px_tcsetattr px h (TCSANOW px) tio (line s) = (r, e)" by fastforce
    have "(s_pc x' = S_Give_up h \<or> s_pc x' = S_Getfl h) \<and> s' = s\<lparr>line := e\<rparr>"
      using assms(3) S_Setattr w by (auto simp: serial_advance_def)
    then show ?thesis
      using assms(2) S_Setattr keep(3) [OF w] by (elim disjE conjE) (simp_all add: defs)
  next
    case (S_Getfl h)
    obtain fl e where w: "px_getfl px h (line s) = (fl, e)" by fastforce
    have "s_pc x' = S_Setfl h fl \<and> s' = s\<lparr>line := e\<rparr>"
      using assms(3) S_Getfl w by (auto simp: serial_advance_def)
    then show ?thesis
      using assms(2) S_Getfl keep(4) [OF w] by (simp add: defs)
  next
    case S_Close
    have "s_pc x' = S_Forget \<and> s' = s\<lparr>line := px_close px (fd s) (line s)\<rparr> \<and> 0 \<le> fd s \<or>
        s_pc x' = S_Return False \<and> s' = s \<and> fd s < 0"
      using assms(3) S_Close by (auto simp: serial_advance_def split: if_splits)
    then show ?thesis
      using assms(2) S_Close keep(11) [of "fd s" "line s"] by (elim disjE conjE) (simp_all add: defs)
  next
    case (S_Give_up h)
    then show ?thesis
      using assms(2,3) keep(11) [of h "line s"] by (auto simp: defs)
  next
    case (S_Return ok)
    then show ?thesis
      using assms(3) by (simp add: serial_advance_def)
  qed (use assms(2) assms(3) [symmetric] keep(5-7) in \<open>simp_all add: defs split: if_splits\<close>)
qed

text \<open>The stage of the running call as far as the serial line is concerned.\<close>

fun backend_stage :: "'m backend_pc \<Rightarrow> 'm serial_pc" where
  "backend_stage (Serial_call x) = s_pc x"
| "backend_stage (In_process_call p) = S_Test"

fun call_stage :: "'m rtu_pc \<Rightarrow> 'm serial_pc" where
  "call_stage (Plain_call p) = backend_stage p"
| "call_stage (Faulty_call (Inner p)) = backend_stage p"
| "call_stage (Faulty_call (Draw_drop req rsp)) = S_Test"
| "call_stage (Faulty_call (Draw_corrupt rsp)) = S_Return True"
| "call_stage (Faulty_call (Faulty_end ok rsp)) = S_Return ok"

text \<open>The descriptors of the device in a state of the process: those of the running call, if there is one.\<close>

definition device_fds :: "(nat \<times> 'm rtu_pc) option \<Rightarrow> 'e serial \<Rightarrow> int set" where
  "device_fds h s = (case h of None \<Rightarrow> port_fds s | Some (i, p) \<Rightarrow> stage_fds (call_stage p) s)"

definition rtu_holds :: "('e \<Rightarrow> int set) \<Rightarrow> int set \<Rightarrow> 'm rtu_pc \<Rightarrow> ('e, 'g, 'd) gateway_rtu \<Rightarrow> bool" where
  "rtu_holds held base p t \<longleftrightarrow> (\<exists>s. serial_of t = Some s \<and> holds_at held base (call_stage p) s)"

lemma backend_advance_holds:
  assumes "tracks px held" and "backend_serial b = Some s" and "holds_at held base (backend_stage p) s"
    and "backend_advance px garbage p b = Some (p', b')"
  shows "\<exists>s'. backend_serial b' = Some s' \<and> holds_at held base (backend_stage p') s'"
proof -
  obtain x where b: "b = Serial_rtu s" "p = Serial_call x"
    using assms(2,4) by (cases b; cases p) auto
  then obtain x' s' where "serial_advance px x s = Some (x', s')" "p' = Serial_call x'" "b' = Serial_rtu s'"
    using assms(4) by auto
  then show ?thesis
    using serial_advance_holds [OF assms(1), of base x s x' s'] assms(3) b by simp
qed

lemma holds_at_idle [simp]:
  "holds_at held base S_Test s \<longleftrightarrow> held (line s) = base \<union> port_fds s \<and> base \<inter> port_fds s = {}"
  "holds_at held base (S_Return ok) s \<longleftrightarrow> held (line s) = base \<union> port_fds s \<and> base \<inter> port_fds s = {}"
  by (simp_all add: holds_at_def stage_fds_def opening_ok_def)

lemma backend_returns_stage: "backend_returns p = Some (ok, rsp) \<Longrightarrow> \<exists>ok. backend_stage p = S_Return ok \<or> backend_stage p = S_Test"
  by (cases p) (auto simp: serial_returns_def split: serial_pc.splits)

lemma backend_begins_stage: "backend_stage (backend_begins b req rsp) = S_Test"
  by (cases b) (simp_all add: serial_begins_def)

lemma rtu_advance_holds:
  assumes "tracks px held" and "rtu_holds held base p t" and "rtu_advance px garbage below pick p t = Some (p', t')"
  shows "rtu_holds held base p' t'"
proof -
  obtain s where s: "serial_of t = Some s" "holds_at held base (call_stage p) s"
    using assms(2) by (auto simp: rtu_holds_def)
  consider q b where "p = Plain_call q" "t = Plain b" | q f where "p = Faulty_call q" "t = With_faults f"
    using assms(3) by (cases p; cases t) auto
  then show ?thesis
  proof cases
    case 1
    then obtain q' b' where "backend_advance px garbage q b = Some (q', b')" "p' = Plain_call q'" "t' = Plain b'"
      using assms(3) by auto
    then show ?thesis
      using backend_advance_holds [OF assms(1)] s 1 by (fastforce simp: rtu_holds_def)
  next
    case 2
    then obtain q' f' where q: "faulty_advance below pick (backend_stages px garbage) q f = Some (q', f')"
      "p' = Faulty_call q'" "t' = With_faults f'"
      using assms(3) by auto
    show ?thesis
    proof (cases q)
      case (Draw_drop req rsp)
      then show ?thesis
        using q 2 s by (auto simp: rtu_holds_def backend_stages_def backend_begins_stage Let_def split: prod.splits if_splits)
    next
      case (Inner r)
      show ?thesis
      proof (cases "backend_returns r")
        case None
        then obtain r' b' where "backend_advance px garbage r (inner f) = Some (r', b')"
          "q' = faulty_pc.Inner r'" "f' = f\<lparr>inner := b'\<rparr>"
          using q(1) Inner by (auto simp: backend_stages_def bind_eq_Some_conv)
        then show ?thesis
          using backend_advance_holds [OF assms(1), of "inner f" s base r] s 2 q Inner by (auto simp: rtu_holds_def)
      next
        case (Some z)
        obtain ok rsp where z: "backend_returns r = Some (ok, rsp)" using Some by (cases z) auto
        then have "q' = (if ok then Draw_corrupt rsp else Faulty_end False rsp)" "f' = f"
          using q(1) Inner by (simp_all add: backend_stages_def)
        then show ?thesis
          using backend_returns_stage [OF z] s 2 q Inner by (auto simp: rtu_holds_def)
      qed
    next
      case (Draw_corrupt rsp)
      then show ?thesis
        using q 2 s by (auto simp: rtu_holds_def bind_eq_Some_conv dest!: corrupt_answer_inner)
    next
      case (Faulty_end ok rsp)
      then show ?thesis using q by simp
    qed
  qed
qed

lemma rtu_begins_stage: "call_stage (rtu_begins t req rsp) = S_Test"
  by (cases t) (simp_all add: backend_begins_stage)

lemma rtu_returns_stage: "rtu_returns p = Some (ok, rsp) \<Longrightarrow> \<exists>ok. call_stage p = S_Return ok \<or> call_stage p = S_Test"
proof (induction p)
  case (Faulty_call q)
  then show ?case by (cases q) auto
qed (use backend_returns_stage in auto)

lemma staged_step_holds:
  assumes "tracks px held" and "staged_step (rtu_stages px garbage below pick) a (s, h) (s', h')"
    and "\<exists>srl. serial_of (rtu s) = Some srl \<and> holds_at held base (case h of None \<Rightarrow> S_Test | Some (i, p) \<Rightarrow> call_stage p) srl"
  shows "\<exists>srl. serial_of (rtu s') = Some srl \<and> holds_at held base (case h' of None \<Rightarrow> S_Test | Some (i, p) \<Rightarrow> call_stage p) srl"
  using assms(2)
proof cases
  case other
  then show ?thesis using assms(3) no_exchange_rtu [OF other(2)] by simp
next
  case lock
  then show ?thesis using assms(3) by (simp add: rtu_stages_def rtu_begins_stage)
next
  case stage
  then show ?thesis
    using assms(3) rtu_advance_holds [OF assms(1)] by (fastforce simp: rtu_stages_def rtu_holds_def)
next
  case (unlock p ok rsp i n req)
  then show ?thesis
    using assms(3) rtu_returns_stage [of p ok rsp] by (auto simp: rtu_stages_def)
qed

lemma staged_reach_holds:
  assumes "tracks px held" and "staged_reach (rtu_stages px garbage below pick) t0 c"
    and "serial_of t0 = Some (new_serial sc e)"
  shows "\<exists>srl. serial_of (rtu (fst c)) = Some srl \<and>
    holds_at held (held e) (case snd c of None \<Rightarrow> S_Test | Some (i, p) \<Rightarrow> call_stage p) srl"
  using assms(2)
proof (induction rule: staged_reach.induct)
  case (staged_boot ptr)
  show ?case
    using assms(3) by (simp add: boot_process_def) (simp add: new_serial_def port_fds_def connected_def)
next
  case (staged_next c a c')
  then show ?case
    using staged_step_holds [OF assms(1), of garbage below pick a "fst c" "snd c" "fst c'" "snd c'"] by simp
qed

lemma exit_releases:
  assumes "staged_reach X t0 (s, h)" and "main_pc s = M_Exit n"
  shows "h = None"
proof -
  have ok: "workers_ok s" "listener_ok s" "main_ok s" "holder_ok (s, h)"
    using staged_reach_ok [OF assms(1)] by (simp_all add: staged_ok_def)
  have "\<forall>j<accepted s. returned (workers s j)"
    using ok(2,3) assms(2) by (cases "n = 0") (simp_all add: listener_ok_def main_ok_def)
  from none_in_handle(1) [OF ok(1) this] show ?thesis
    using ok(4) by (auto simp: holder_ok_def split: option.splits)
qed

lemma close_port_held:
  "tracks px held \<Longrightarrow> holds_at held base S_Test s \<Longrightarrow> held (line (close_port px s)) = base"
  by (auto simp: close_port_def port_fds_def connected_def tracks_close)

section \<open>An example device\<close>

text \<open>A silent device that can be opened once at a time; the state is whether it is open.\<close>

definition device_posix :: "(bool, unit) posix" where
  "device_posix = \<lparr>clock_now = \<lambda>e. (1, e), clock_ms = \<lambda>d. d div 1000000,
     px_open = \<lambda>p fl e. (if e then (-1, e) else (3, True)), px_close = \<lambda>h e. e \<and> h \<noteq> 3,
     px_tcgetattr = \<lambda>h e. (0, \<lparr>c_cflag = 0x0CBD, c_cc = \<lambda>_. 1, hidden = ()\<rparr>, e),
     px_tcsetattr = \<lambda>h a tio e. (0, e), px_getfl = \<lambda>h e. (0x802, e), px_setfl = \<lambda>h fl e. e,
     px_tcflush = \<lambda>h q e. e, px_tcdrain = \<lambda>h e. e,
     px_write = \<lambda>h bs e. (int (length bs), e), px_poll = \<lambda>h ev w e. (0, False, e),
     px_read = \<lambda>h k e. (0, replicate k 0, e),
     cfmakeraw = \<lambda>tio. tio, cfsetispeed = \<lambda>b tio. tio, cfsetospeed = \<lambda>b tio. tio,
     B9600 = 13, B19200 = 14, B38400 = 15, B57600 = 0x1001, B115200 = 0x1002,
     CLOCAL = 0x800, CREAD = 0x80, PARENB = 0x100, PARODD = 0x200, CSTOPB = 0x40, CSIZE = 0x30,
     CS8 = 0x30, VMIN = 6, VTIME = 5, O_RDWR = 2, O_NOCTTY = 0x100, O_NONBLOCK = 0x800,
     TCIFLUSH = 0, TCSANOW = 0, POLLIN = 1\<rparr>"

lemma device_posix_ok: "posix_ok device_posix (\<lambda>_. 0)" "tracks device_posix (\<lambda>e. if e then {3} else {})"
  by (simp_all add: posix_ok_def tracks_def device_posix_def)

section \<open>Properties\<close>

text \<open>C37: A lost device is retried, not hammered. While the port is closed, an exchange within the
  back-off time after the last attempt fails after reading the clock and does nothing else. Later, it
  notes the time and tries once; the port is open afterwards exactly if the device can be opened and
  configured, and otherwise the exchange has failed.\<close>

theorem serial_reconnect_policy:
  assumes "\<not> connected s" and "clock_now px (line s) = (now, e)"
  shows "(backing_off px s now \<longrightarrow> serial_transact px s req rsp = Some (False, rsp, s\<lparr>line := e\<rparr>)) \<and>
    (\<not> backing_off px s now \<longrightarrow> (\<exists>s'. ensure_open px s = (device_there px (scfg s) e, s') \<and> last_attempt s' = now \<and>
       connected s' = device_there px (scfg s) e \<and>
       reconnects s' = reconnects s + (if device_there px (scfg s) e then 1 else 0) \<and>
       (\<not> device_there px (scfg s) e \<longrightarrow> serial_transact px s req rsp = Some (False, rsp, s'))))"
proof (intro conjI impI)
  have closed: "fd s < 0"
    using assms(1) by (simp add: connected_def)
  assume "backing_off px s now"
  then have "ensure_open px s = (False, s\<lparr>line := e\<rparr>)"
    using closed assms(2) by (simp add: ensure_open_def backing_off_def)
  then show "serial_transact px s req rsp = Some (False, rsp, s\<lparr>line := e\<rparr>)"
    by (simp add: serial_transact_def)
next
  assume late: "\<not> backing_off px s now"
  obtain h e1 where h: "px_open px (port (scfg s)) (O_RDWR px OR O_NOCTTY px OR O_NONBLOCK px) e = (h, e1)" by fastforce
  obtain r tio e2 where g: "px_tcgetattr px h e1 = (r, tio, e2)" by (metis prod_cases3)
  obtain r2 e3 where a: "px_tcsetattr px h (TCSANOW px) (line_settings px (baud (scfg s)) tio) e2 = (r2, e3)" by fastforce
  obtain ok s' where o: "ensure_open px s = (ok, s')" by fastforce
  have "ok = device_there px (scfg s) e" "last_attempt s' = now" "connected s' = ok"
    "reconnects s' = reconnects s + (if ok then 1 else 0)"
    using o assms late h g a
    by (auto simp: ensure_open_def device_there_def backing_off_def connected_def Let_def split: if_splits prod.splits)
  moreover have "\<not> ok \<Longrightarrow> serial_transact px s req rsp = Some (False, rsp, s')"
    using o by (simp add: serial_transact_def)
  ultimately show "\<exists>s'. ensure_open px s = (device_there px (scfg s) e, s') \<and> last_attempt s' = now \<and>
      connected s' = device_there px (scfg s) e \<and>
      reconnects s' = reconnects s + (if device_there px (scfg s) e then 1 else 0) \<and>
      (\<not> device_there px (scfg s) e \<longrightarrow> serial_transact px s req rsp = Some (False, rsp, s'))"
    using o by auto
qed

theorem serial_reconnect_policy_witness:
  "let s = (new_serial default_serial_config False)\<lparr>last_attempt := 1\<rparr> in
    serial_transact device_posix s [17] [] = Some (False, [], s) \<and>
    (\<exists>s'. ensure_open device_posix (s\<lparr>last_attempt := 0\<rparr>) = (True, s') \<and> connected s')"
proof -
  let ?s = "(new_serial default_serial_config False)\<lparr>last_attempt := 1\<rparr>"
  have s: "\<not> connected ?s" "clock_now device_posix (line ?s) = (1, False)" "backing_off device_posix ?s 1"
    "\<not> connected (?s\<lparr>last_attempt := 0\<rparr>)" "clock_now device_posix (line (?s\<lparr>last_attempt := 0\<rparr>)) = (1, False)"
    "\<not> backing_off device_posix (?s\<lparr>last_attempt := 0\<rparr>) 1" "device_there device_posix (scfg (?s\<lparr>last_attempt := 0\<rparr>)) False"
    by (simp_all add: new_serial_def connected_def device_posix_def backing_off_def default_serial_config_def device_there_def)
  have "?s\<lparr>line := False\<rparr> = ?s"
    by (simp add: new_serial_def)
  with serial_reconnect_policy [OF s(1,2), of "[17]" "[]"] s(3) serial_reconnect_policy [OF s(4,5), of "[]" "[]"] s(6,7)
  show ?thesis by (auto simp: Let_def)
qed

text \<open>C38: No descriptor leaks. At every moment of a gateway on a serial line, also in the middle of an
  exchange and with injected faults, after any number of lost devices and failed attempts to open
  one, the process holds at most one descriptor of the device: the local \<open>fd\<close> while \<open>ensure_open\<close>
  configures it, and otherwise \<open>fd_\<close> if the port is open; none between the \<open>close\<close> of \<open>fd_\<close> and
  \<open>fd_ = -1\<close>. Nothing is closed that belongs to others. When no exchange runs, and in particular when
  \<open>main\<close> has returned, the destructor leaves none.\<close>

theorem serial_descriptor_never_leaks:
  fixes px :: "('e, 'm) posix" and below :: "'d \<Rightarrow> 'g \<Rightarrow> bool \<times> 'g"
  assumes "tracks px held" and "construct_rtu F mt19937 opt e = Some t0" and "opt_serial_port opt \<noteq> ''''"
    and "staged_reach (rtu_stages px garbage below pick) t0 (s, h)"
  shows "\<exists>srl. serial_of (rtu s) = Some srl \<and>
    held (line srl) = held e \<union> device_fds h srl \<and> held e \<inter> device_fds h srl = {} \<and> card (device_fds h srl) \<le> 1 \<and>
    (h = None \<or> (\<exists>n. main_pc s = M_Exit n) \<longrightarrow> held (line (destroy_serial px srl)) = held e)"
proof -
  obtain sc where "serial_of t0 = Some (new_serial sc e)"
    using assms(2,3) by (auto simp: construct_rtu_def select_backend_def new_faulty_def split: option.splits)
  from staged_reach_holds [OF assms(1,4) this] obtain srl where srl: "serial_of (rtu s) = Some srl"
    "holds_at held (held e) (case h of None \<Rightarrow> S_Test | Some (i, p) \<Rightarrow> call_stage p) srl"
    by auto
  have "stage_fds (case h of None \<Rightarrow> S_Test | Some (i, p) \<Rightarrow> call_stage p) srl = device_fds h srl"
    by (simp add: device_fds_def stage_fds_def split: option.split)
  then have fds: "held (line srl) = held e \<union> device_fds h srl" "held e \<inter> device_fds h srl = {}"
    using srl(2) by (simp_all add: holds_at_def)
  have "card (stage_fds pc srl) \<le> 1" "card (port_fds srl) \<le> 1" for pc :: "'m serial_pc"
    by (cases pc; simp add: stage_fds_def port_fds_def)+
  then have one: "card (device_fds h srl) \<le> 1"
    by (simp add: device_fds_def split: option.split prod.split)
  have "held (line (destroy_serial px srl)) = held e" if "h = None \<or> (\<exists>n. main_pc s = M_Exit n)"
  proof -
    have "h = None"
      using that exit_releases [OF assms(4)] by blast
    then show ?thesis
      using close_port_held [OF assms(1)] srl(2) by (simp add: destroy_serial_def)
  qed
  with srl(1) fds one show ?thesis by blast
qed

theorem serial_descriptor_never_leaks_witness:
  "\<exists>t0 s p srl. construct_rtu demo_floating (\<lambda>_. ()) serial_options False = Some t0 \<and>
    staged_reach (rtu_stages device_posix (\<lambda>_. 0) demo_below Pair) t0 (s, Some (0, p)) \<and>
    serial_of (rtu s) = Some srl \<and> \<not> connected srl \<and> device_fds (Some (0, p)) srl = {3} \<and> line srl"
proof -
  let ?X = "rtu_stages device_posix (\<lambda>_. 0) demo_below Pair" and ?T = "rtu_transact device_posix (\<lambda>_. 0) demo_below Pair"
  obtain t0 where t0: "construct_rtu demo_floating (\<lambda>_. ()) serial_options False = Some t0" "over backend_ok t0"
    using construct_rtu_ok by metis
  define srl where "srl = new_serial (default_serial_config\<lparr>port := ''/dev/ttyUSB0'', baud := 19200, response_timeout_ms := 300\<rparr>) False"
  have plain: "t0 = Plain (Serial_rtu srl)"
    using t0(1) by (simp add: srl_def construct_rtu_def select_backend_def serial_options_def default_options_def
        fault_injection_def demo_floating_def)
  have free: "staged_reach ?X t0 (s, None)" if "process_reach ?T t0 s" for s
    by (rule staged_transport.process_reach_staged [OF rtu_staged [OF device_posix_ok(1)] that t0(2)]) simp
  let ?s = "one_master None t0 (counted_worker demo_request) t0 (gw_count zero_stats)"
  obtain adu where "staged_reach ?X t0 (?s, Some (0, begins ?X t0 adu []))"
    using reach_holding [OF free demo_request_ok(3)] by metis
  moreover have "?s\<lparr>rtu := t0\<rparr> = ?s"
    by (simp add: one_master_def)
  ultimately have held: "staged_reach ?X t0 (?s\<lparr>rtu := t0\<rparr>, Some (0, begins ?X t0 adu []))"
    by (simp only:)
  let ?p = "Plain_call (Serial_call ((serial_begins adu [])\<lparr>s_pc := S_Getattr 3\<rparr>)) :: unit rtu_pc" and ?l = "srl\<lparr>last_attempt := 1, line := True\<rparr>"
  have "advance_n ?X 3 (begins ?X t0 adu []) t0 = Some (?p, Plain (Serial_rtu ?l))"
    by (simp add: numeral_eq_Suc plain srl_def rtu_stages_def backend_stages_def serial_begins_def serial_advance_def
        new_serial_def Let_def device_posix_def)
  from advance_n_reach [OF this held] have reach: "staged_reach ?X t0 (?s\<lparr>rtu := Plain (Serial_rtu ?l)\<rparr>, Some (0, ?p))"
    by simp
  have "opt_serial_port serial_options \<noteq> ''''"
    by (simp add: serial_options_def)
  from serial_descriptor_never_leaks [OF device_posix_ok(2) t0(1) this reach]
  have "(if line ?l then {3 :: int} else {}) = device_fds (Some (0, ?p)) ?l"
    by simp
  moreover have "\<not> connected ?l" "line ?l"
    by (simp_all add: srl_def new_serial_def connected_def)
  ultimately show ?thesis
    using t0(1) reach by (intro exI [of _ t0] exI [of _ "?s\<lparr>rtu := Plain (Serial_rtu ?l)\<rparr>"] exI [of _ ?p] exI [of _ ?l]) simp
qed

end
