(* ===== verification/Serial_Timing.thy ===== *)
theory Serial_Timing
  imports Serial_Rtu "HOL-Library.Sublist"
begin

text \<open>
  How long \<open>SerialRtu::transact\<close> of \<open>src/serial_rtu.hpp\<close> waits for a device: which waits it asks \<open>poll\<close>
  for. A log of the calls of \<open>poll\<close> so far is kept in the state of the environment; nothing is
  assumed of how long a call takes. The bound holds for every behaviour of the device, and it is
  what each other master waits for the bus.
\<close>

section \<open>The calls of poll\<close>

text \<open>The calls that leave a part \<open>f\<close> of the environment alone: all but \<open>poll\<close>.\<close>

definition only_poll :: "('e, 'm) posix \<Rightarrow> ('e \<Rightarrow> 'b) \<Rightarrow> bool" where
  "only_poll px f \<longleftrightarrow>
     (\<forall>e. f (snd (clock_now px e)) = f e) \<and>
     (\<forall>p fl e. f (snd (px_open px p fl e)) = f e) \<and>
     (\<forall>h e. f (px_close px h e) = f e) \<and>
     (\<forall>h e. f (snd (snd (px_tcgetattr px h e))) = f e) \<and>
     (\<forall>h a tio e. f (snd (px_tcsetattr px h a tio e)) = f e) \<and>
     (\<forall>h e. f (snd (px_getfl px h e)) = f e) \<and>
     (\<forall>h fl e. f (px_setfl px h fl e) = f e) \<and>
     (\<forall>h q e. f (px_tcflush px h q e) = f e) \<and>
     (\<forall>h e. f (px_tcdrain px h e) = f e) \<and>
     (\<forall>h bs e. f (snd (px_write px h bs e)) = f e) \<and>
     (\<forall>h k e. f (snd (snd (px_read px h k e))) = f e)"

text \<open>\<open>poll\<close> appends to the log its timeout in milliseconds, and whether a signal interrupted it.\<close>

definition logs_poll :: "('e, 'm) posix \<Rightarrow> ('e \<Rightarrow> (int \<times> bool) list) \<Rightarrow> bool" where
  "logs_poll px polled \<longleftrightarrow>
     (\<forall>h ev w e pr eintr e'. px_poll px h ev w e = (pr, eintr, e') \<longrightarrow>
        polled e' = polled e @ [(w, pr < 0 \<and> eintr)])"

text \<open>The timeouts of the calls that no signal interrupted.\<close>

definition waits :: "(int \<times> bool) list \<Rightarrow> int list" where
  "waits calls = map fst (filter (\<lambda>(w, intr). \<not> intr) calls)"

lemma waits_simps [simp]: "waits [] = []" "waits ((w, intr) # calls) = (if intr then waits calls else w # waits calls)"
  by (simp_all add: waits_def)

lemma only_pollD:
  assumes "only_poll px f"
  shows "clock_now px e = (now, e') \<Longrightarrow> f e' = f e"
    "px_open px p fl e = (h, e') \<Longrightarrow> f e' = f e" "f (px_close px h e) = f e"
    "px_tcgetattr px h e = (r, tio, e') \<Longrightarrow> f e' = f e" "px_tcsetattr px h a tio' e = (r, e') \<Longrightarrow> f e' = f e"
    "px_getfl px h e = (fl, e') \<Longrightarrow> f e' = f e" "f (px_setfl px h fl e) = f e"
    "f (px_tcflush px h q e) = f e" "f (px_tcdrain px h e) = f e"
    "px_write px h bs e = (w, e') \<Longrightarrow> f e' = f e" "px_read px h k e = (n, chunk, e') \<Longrightarrow> f e' = f e"
  using assms unfolding only_poll_def by (metis snd_conv)+

lemma write_all_only_poll:
  assumes "only_poll px f"
  shows "write_all px h req n e = (ok, e') \<Longrightarrow> f e' = f e"
  using assms
proof (induction px h req n e rule: write_all.induct)
  case (1 px h req n e)
  obtain w e2 where w: "px_write px h (drop n req) e = (w, e2)" by fastforce
  then have same: "f e2 = f e"
    using only_pollD(10) [OF 1(3)] by blast
  show ?case
  proof (cases "n < length req \<and> \<not> w \<le> 0")
    case True
    then have "write_all px h req (n + nat w) e2 = (ok, e')"
      using 1(2) w by (simp add: write_all.simps [of px h req n])
    then show ?thesis
      using 1(1) [OF _ w [symmetric]] True 1(3) same by simp
  next
    case False
    then show ?thesis
      using 1(2) w same by (auto simp: write_all.simps [of px h req n] split: if_splits)
  qed
qed

lemma ensure_open_only_poll:
  assumes "only_poll px f" and "ensure_open px s = (ok, s')"
  shows "f (line s') = f (line s)" and "scfg s' = scfg s"
proof -
  obtain now e0 where now: "clock_now px (line s) = (now, e0)" by fastforce
  obtain h e1 where h: "px_open px (port (scfg s)) (O_RDWR px OR O_NOCTTY px OR O_NONBLOCK px) e0 = (h, e1)" by fastforce
  obtain r tio e2 where g: "px_tcgetattr px h e1 = (r, tio, e2)" by (metis prod_cases3)
  obtain r2 e3 where a: "px_tcsetattr px h (TCSANOW px) (line_settings px (baud (scfg s)) tio) e2 = (r2, e3)" by fastforce
  obtain fl e4 where fl: "px_getfl px h e3 = (fl, e4)" by fastforce
  note same = only_pollD(1) [OF assms(1) now] only_pollD(2) [OF assms(1) h] only_pollD(4) [OF assms(1) g]
    only_pollD(5) [OF assms(1) a] only_pollD(6) [OF assms(1) fl] only_pollD(3,7) [OF assms(1)]
  show "f (line s') = f (line s)" "scfg s' = scfg s"
    using assms(2) same by (auto simp: ensure_open_def now h g a fl Let_def split: if_splits)
qed

section \<open>The receive loop\<close>

definition wait_time :: "serial_config \<Rightarrow> bool \<Rightarrow> int" where
  "wait_time c got_any = int (unat (if got_any then frame_gap_ms c else response_timeout_ms c))"

text \<open>The waits the loop may still ask for: for the first byte, and for a gap after each byte but the last.\<close>

definition waits_left :: "serial_config \<Rightarrow> u8 list \<Rightarrow> bool \<Rightarrow> int list" where
  "waits_left c rsp got_any =
     (if got_any then replicate (256 - length rsp) (wait_time c True)
      else wait_time c False # replicate 255 (wait_time c True))"

lemma prefix_replicate: "m \<le> n \<Longrightarrow> prefix (replicate m x) (replicate n x)"
  by (metis le_add_diff_inverse prefixI replicate_add)

lemma waits_left_Cons:
  assumes "length rsp < 256"
  shows "prefix [wait_time c got_any] (waits_left c rsp got_any)"
  using assms by (cases "256 - length rsp") (auto simp: waits_left_def)

lemma waits_left_bytes:
  assumes "length rsp + n < 256" and "0 < n" and "got_any \<longleftrightarrow> rsp \<noteq> []" and "length bytes = n"
    and "prefix ws (waits_left c (rsp @ bytes) True)"
  shows "prefix (wait_time c got_any # ws) (waits_left c rsp got_any)"
proof -
  have "prefix ws (replicate (255 - length rsp) (wait_time c True))"
    using assms(5) [unfolded waits_left_def if_True]
    by (rule prefix_order.trans) (rule prefix_replicate, use assms(1,2,4) in simp)
  moreover have "256 - length rsp = Suc (255 - length rsp)"
    using assms(1) by simp
  ultimately show ?thesis
    using assms(3) by (auto simp: waits_left_def)
qed

lemma wait_ms_wait_time:
  assumes "unat (response_timeout_ms c) < 2 ^ 31" and "unat (frame_gap_ms c) < 2 ^ 31"
  shows "sint (if got_any then frame_gap_ms c else response_timeout_ms c) = wait_time c got_any"
proof -
  have "sint w = int (unat w)" if "unat w < 2 ^ 31" for w :: u32
  proof -
    have "int (unat w) < int (2 ^ 31)"
      using that by (simp only: of_nat_less_iff)
    then have "uint w < 2 ^ 31"
      by simp
    moreover from this have "\<not> bit (uint w) 31"
      by (simp add: bit_iff_odd)
    ultimately show ?thesis
      by (simp add: sint_uint signed_take_bit_eq_if_positive take_bit_int_eq_self)
  qed
  with assms show ?thesis by (simp add: wait_time_def)
qed

lemma read_loop_wait:
  assumes "posix_ok px rank" and "only_poll px polled" and "logs_poll px polled"
    and "unat (response_timeout_ms c) < 2 ^ 31" and "unat (frame_gap_ms c) < 2 ^ 31"
    and "length rsp < 256" and "got_any \<longleftrightarrow> rsp \<noteq> []" and "read_loop px c h rsp got_any e = Some (ok, r, e')"
  shows "\<exists>calls. polled e' = polled e @ calls \<and> fst ` set calls \<subseteq> {wait_time c False, wait_time c True} \<and>
    prefix (waits calls) (waits_left c rsp got_any)"
  using assms(6-8)
proof (induction "(256 - length rsp, rank e)" arbitrary: rsp got_any e
    rule: wf_induct [OF wf_lex_prod [OF wf_less wf_less]])
  case (1 rsp e got_any)
  note IH = 1(1) [rule_format, OF _ refl]
  let ?w = "wait_time c got_any"
  obtain pr eintr e1 where p: "px_poll px h (POLLIN px) ?w e = (pr, eintr, e1)"
    by (metis prod_cases3)
  obtain n chunk e2 where r: "px_read px h 512 e1 = (n, chunk, e2)"
    by (metis prod_cases3)
  have chunk: "length chunk = 512" "n \<le> 512" "chunk \<noteq> []"
    using posix_okD(1) [OF assms(1) r] by auto
  have e1: "polled e1 = polled e @ [(?w, pr < 0 \<and> eintr)]"
    using assms(3) p unfolding logs_poll_def by blast
  have e2: "polled e2 = polled e1"
    using only_pollD(11) [OF assms(2) r] .
  have w: "?w \<in> {wait_time c False, wait_time c True}"
    by (cases got_any) simp_all
  note loop = trans [OF read_loop.simps [of px c h rsp got_any e, symmetric] 1(4),
      unfolded Let_def wait_ms_wait_time [OF assms(4,5)] p]
  consider "pr < 0" "eintr" | "pr > 0" "n > 0" "length rsp + nat n < 256" | "e' \<in> {e1, e2}" "\<not> (pr < 0 \<and> eintr)"
    using loop r chunk by (fastforce simp: bind_eq_Some_conv rd_range_def MB_ADU_MAX_def split: if_splits)
  then show ?case
  proof cases
    case 1
    then have "eintr = True" by simp
    from posix_okD(2) [OF assms(1) p [unfolded this] 1(1)] IH [of rsp e1 got_any] \<open>length rsp < 256\<close>
      \<open>got_any \<longleftrightarrow> rsp \<noteq> []\<close> loop 1
    obtain calls where "polled e' = polled e1 @ calls" "fst ` set calls \<subseteq> {wait_time c False, wait_time c True}"
      "prefix (waits calls) (waits_left c rsp got_any)"
      by auto
    with e1 w 1 show ?thesis
      by (intro exI [of _ "(?w, True) # calls"]) simp
  next
    case 2
    then have bytes: "rd_range chunk 0 (nat n) = Some (take (nat n) chunk)" "length (take (nat n) chunk) = nat n"
      using chunk by (simp_all add: rd_range_def min_absorb2)
    have "256 - (length rsp + nat n) < 256 - length rsp"
      using 2 by linarith
    then obtain calls where calls: "polled e' = polled e2 @ calls"
      "fst ` set calls \<subseteq> {wait_time c False, wait_time c True}"
      "prefix (waits calls) (waits_left c (rsp @ take (nat n) chunk) True)"
      using IH [of "rsp @ take (nat n) chunk" e2 True] loop 2 bytes r chunk
      by (auto simp: MB_ADU_MAX_def)
    have "prefix (?w # waits calls) (waits_left c rsp got_any)"
      by (rule waits_left_bytes [OF 2(3) _ \<open>got_any \<longleftrightarrow> rsp \<noteq> []\<close> bytes(2) calls(3)]) (use 2 in simp)
    with e1 e2 w 2 calls show ?thesis
      by (intro exI [of _ "(?w, False) # calls"]) simp
  next
    case 3
    with e1 e2 w waits_left_Cons [OF \<open>length rsp < 256\<close>] show ?thesis
      by (intro exI [of _ "[(?w, False)]"]) auto
  qed
qed

section \<open>An example device\<close>

text \<open>
  A device that sends one byte per call of \<open>read\<close>, as long as it has any; the state are the log and
  the bytes to come. The first call of \<open>poll\<close> is interrupted.
\<close>

definition slow_posix :: "((int \<times> bool) list \<times> u8 list, unit) posix" where
  "slow_posix = \<lparr>clock_now = \<lambda>e. (1, e), clock_ms = \<lambda>d. d div 1000000,
     px_open = \<lambda>p fl e. (3, e), px_close = \<lambda>h e. e,
     px_tcgetattr = \<lambda>h e. (0, \<lparr>c_cflag = 0x0CBD, c_cc = \<lambda>_. 1, hidden = ()\<rparr>, e),
     px_tcsetattr = \<lambda>h a tio e. (0, e), px_getfl = \<lambda>h e. (0x802, e), px_setfl = \<lambda>h fl e. e,
     px_tcflush = \<lambda>h q e. e, px_tcdrain = \<lambda>h e. e, px_write = \<lambda>h bs e. (int (length bs), e),
     px_poll = \<lambda>h ev w (log, bs). if log = [] then (-1, True, ([(w, True)], bs))
       else (if bs = [] then 0 else 1, False, (log @ [(w, False)], tl bs)),
     px_read = \<lambda>h k e. (int (min k 1), replicate k 0, e),
     cfmakeraw = \<lambda>tio. tio, cfsetispeed = \<lambda>b tio. tio, cfsetospeed = \<lambda>b tio. tio,
     B9600 = 13, B19200 = 14, B38400 = 15, B57600 = 0x1001, B115200 = 0x1002,
     CLOCAL = 0x800, CREAD = 0x80, PARENB = 0x100, PARODD = 0x200, CSTOPB = 0x40, CSIZE = 0x30,
     CS8 = 0x30, VMIN = 6, VTIME = 5, O_RDWR = 2, O_NOCTTY = 0x100, O_NONBLOCK = 0x800,
     TCIFLUSH = 0, TCSANOW = 0, POLLIN = 1\<rparr>"

lemma slow_posix_ok:
  "posix_ok slow_posix (\<lambda>(log, bs). if log = [] then 1 else 0)" "only_poll slow_posix fst" "logs_poll slow_posix fst"
  by (auto simp: posix_ok_def only_poll_def logs_poll_def slow_posix_def split: if_splits prod.splits)

text \<open>
  The casts of the code turn a timeout of 2^31 ms or more into a negative argument of \<open>poll\<close>, which then
  waits without a limit.
\<close>

lemma huge_timeout_waits:
  "\<exists>s. serial_transact slow_posix (new_serial (default_serial_config\<lparr>response_timeout_ms := 2147483648\<rparr>) ([], [])) [17] [] =
      Some (False, [], s) \<and> fst (line s) = [(-2147483648, True), (-2147483648, False)]"
  by (simp add: serial_transact_def new_serial_def default_serial_config_def ensure_open_def slow_posix_def
    Let_def write_all.simps read_loop.simps rd_range_def MB_ADU_MAX_def)

section \<open>The sum of the waits\<close>

lemma sum_waits:
  "fst ` set calls \<subseteq> {a, b} \<Longrightarrow> sum_list (map fst calls) \<le>
    sum_list (waits calls) + int (length (filter snd calls)) * max a (b :: int)"
  by (induction calls) (auto simp: algebra_simps)

lemma prefix_sum:
  assumes "prefix xs ys" and "\<forall>y \<in> set ys. 0 \<le> (y :: int)"
  shows "sum_list xs \<le> sum_list ys"
proof -
  obtain zs where zs: "ys = xs @ zs"
    using assms(1) by (auto simp: prefix_def)
  have "0 \<le> sum_list zs"
    by (rule sum_list_nonneg) (use assms(2) zs in simp)
  then show ?thesis using zs by simp
qed

section \<open>Properties\<close>

text \<open>C24: An exchange asks for bounded waits. Let the response timeout and the frame gap be below 2^31 ms.
  Whatever the device does, the calls of \<open>poll\<close> that an exchange on the serial line makes and that no
  signal interrupts ask for the response timeout once and then for the frame gap at most 255 times; an
  interrupted call asks for one of the two. So with \<open>k\<close> interruptions the timeouts of all the calls
  add up to at most the response timeout, 255 frame gaps and \<open>k\<close> times the longer of the two. What
  \<open>poll\<close> takes longer than its timeout is not counted.\<close>

theorem serial_wait_bounded:
  assumes "posix_ok px rank" and "only_poll px polled" and "logs_poll px polled"
    and "unat (response_timeout_ms (scfg s)) < 2 ^ 31" and "unat (frame_gap_ms (scfg s)) < 2 ^ 31"
    and "serial_transact px s req rsp = Some (ok, rsp', s')"
    and "T = int (unat (response_timeout_ms (scfg s)))" and "G = int (unat (frame_gap_ms (scfg s)))"
  shows "\<exists>calls. polled (line s') = polled (line s) @ calls \<and> fst ` set calls \<subseteq> {T, G} \<and>
    prefix (waits calls) (T # replicate 255 G) \<and>
    sum_list (map fst calls) \<le> T + 255 * G + int (length (filter snd calls)) * max T G"
proof -
  obtain ok1 s1 where o: "ensure_open px s = (ok1, s1)" by fastforce
  obtain ok2 e2 where w: "write_all px (fd s1) req 0 (px_tcflush px (fd s1) (TCIFLUSH px) (line s1)) = (ok2, e2)"
    by fastforce
  obtain ok3 d e3 where r: "read_loop px (scfg s1) (fd s1) [] False (px_tcdrain px (fd s1) e2) = Some (ok3, d, e3)"
    using read_loop_returns [OF assms(1), of "[]" "scfg s1" "fd s1" False "px_tcdrain px (fd s1) e2"] by auto
  have quiet: "polled (px_tcdrain px (fd s1) e2) = polled (line s)" "polled (line s1) = polled (line s)"
    "polled e2 = polled (line s)" "polled (line (close_port px s2)) = polled (line s2)" for s2
    using only_pollD(3,8,9) [OF assms(2)] write_all_only_poll [OF assms(2) w] ensure_open_only_poll(1) [OF assms(2) o]
    by (simp_all add: close_port_def)
  have cfg: "scfg s1 = scfg s"
    by (rule ensure_open_only_poll(2) [OF assms(2) o])
  have times: "wait_time (scfg s) False = T" "wait_time (scfg s) True = G"
    by (simp_all add: wait_time_def assms(7,8))
  have "polled (line s') \<in> {polled (line s), polled e3}"
    using assms(6) o w r quiet by (auto simp: serial_transact_def Let_def split: if_splits)
  moreover obtain calls where calls: "polled e3 = polled (line s) @ calls" "fst ` set calls \<subseteq> {T, G}"
    "prefix (waits calls) (T # replicate 255 G)"
    using read_loop_wait [OF assms(1-5) _ _ r [unfolded cfg]] quiet(1) by (auto simp: times waits_left_def)
  moreover have "sum_list (map fst calls) \<le> T + 255 * G + int (length (filter snd calls)) * max T G"
    using sum_waits [OF calls(2)] prefix_sum [OF calls(3)] assms(7,8) by (simp add: sum_list_replicate)
  ultimately consider "polled (line s') = polled (line s) @ []" | "polled (line s') = polled (line s) @ calls"
    by auto
  then show ?thesis
  proof cases
    case 1
    then show ?thesis using assms(7,8) by (intro exI [of _ "[]"]) simp
  next
    case 2
    with calls(2,3) \<open>sum_list (map fst calls) \<le> T + 255 * G + int (length (filter snd calls)) * max T G\<close>
    show ?thesis by blast
  qed
qed

theorem serial_wait_bounded_witness:
  "\<exists>ok rsp s calls. serial_transact slow_posix (new_serial default_serial_config ([], [1, 2])) [17] [] = Some (ok, rsp, s) \<and>
    length rsp = 2 \<and> fst (line s) = calls \<and> waits calls = [300, 5, 5] \<and> prefix (waits calls) (300 # replicate 255 5) \<and>
    length (filter snd calls) = 1 \<and> sum_list (map fst calls) \<le> 300 + 255 * 5 + 1 * 300"
proof -
  let ?s = "new_serial default_serial_config ([], [1, 2]) :: ((int \<times> bool) list \<times> u8 list) serial"
  obtain ok rsp s where run: "serial_transact slow_posix ?s [17] [] = Some (ok, rsp, s)" "length rsp = 2"
    "fst (line s) = [(300, True), (300, False), (5, False), (5, False)]"
    by (simp add: serial_transact_def new_serial_def default_serial_config_def ensure_open_def slow_posix_def Let_def
        write_all.simps read_loop.simps rd_range_def MB_ADU_MAX_def)
  have small: "unat (response_timeout_ms (scfg ?s)) < 2 ^ 31" "unat (frame_gap_ms (scfg ?s)) < 2 ^ 31"
    "300 = int (unat (response_timeout_ms (scfg ?s)))" "5 = int (unat (frame_gap_ms (scfg ?s)))" "fst (line ?s) = []"
    by (simp_all add: new_serial_def default_serial_config_def)
  from serial_wait_bounded [OF slow_posix_ok small(1,2) run(1) small(3,4)] run small(5) show ?thesis
    by auto
qed

end
