(* ===== verification/Fair_Progress.thy ===== *)
theory Fair_Progress
  imports Staged_Process
begin

text \<open>
  Infinite runs of the running process, with the exchanges cut into their stages. \<open>Staged_Process\<close>
  shows that some thread can always go on; here every thread does. If the scheduler and the
  mutex are fair, a thread that has received a complete request leaves \<open>Gateway::handle\<close> with its
  response, whatever the other masters, \<open>main\<close>, the handlers and the signals do meanwhile: no
  thread waits for the bus for ever.
\<close>

section \<open>Fair runs\<close>

text \<open>
  A run of a process that does not end, with the actor of each step. It is fair when a connection
  thread that is again and again able to take a step by itself takes one again and again. This is
  asked of the scheduler and of \<open>std::mutex\<close>: C++ does not promise it. Nothing is asked of the
  masters: the return of a call of \<open>recv\<close> or \<open>send\<close> is not a step of the thread by itself.
\<close>

definition fair_run :: "('t, 'p) stages \<Rightarrow> (nat \<Rightarrow> actor) \<Rightarrow> (nat \<Rightarrow> 't process \<times> (nat \<times> 'p) option) \<Rightarrow> bool" where
  "fair_run X act c \<longleftrightarrow>
     (\<forall>n. staged_step X (act n) (c n) (c (Suc n)) \<and> \<not> ended (main_pc (fst (c n)))) \<and>
     (\<forall>i. (\<forall>n. \<exists>m\<ge>n. \<exists>c'. staged_step X (Worker i) (c m) c') \<longrightarrow> (\<forall>n. \<exists>m\<ge>n. act m = Worker i))"

lemma fair_run_step: "fair_run X act c \<Longrightarrow> staged_step X (act n) (c n) (c (Suc n))"
  by (simp add: fair_run_def)

lemma fair_run_alive: "fair_run X act c \<Longrightarrow> c n = (s, h) \<Longrightarrow> \<not> ended (main_pc s)"
  unfolding fair_run_def by (metis fst_conv)

lemma fair_run_reach:
  assumes "fair_run X act c" and "staged_reach X t0 (c 0)"
  shows "staged_reach X t0 (c n)"
proof (induction n)
  case (Suc n)
  show ?case by (rule staged_next [OF Suc fair_run_step [OF assms(1)]])
qed (rule assms(2))

text \<open>What stays until an actor steps, if that makes the actor step, lasts until the actor steps.\<close>

lemma next_act:
  assumes "P (c n)" and "\<And>m. P (c m) \<Longrightarrow> act m \<noteq> a \<Longrightarrow> P (c (Suc m))"
    and "(\<And>m. n \<le> m \<Longrightarrow> P (c m)) \<Longrightarrow> \<exists>m\<ge>n. act m = a"
  obtains m where "n \<le> m" "P (c m)" "act m = a"
proof (rule ccontr)
  assume "\<not> thesis"
  then have never: "act m \<noteq> a" if "n \<le> m" "P (c m)" for m
    using that \<open>\<And>m. n \<le> m \<Longrightarrow> P (c m) \<Longrightarrow> act m = a \<Longrightarrow> thesis\<close> by blast
  have keep: "P (c m)" if "n \<le> m" for m
    using that
  proof (induction m rule: dec_induct)
    case (step m)
    show ?case by (rule assms(2) [OF step(3) never [OF step(1,3)]])
  qed (rule assms(1))
  with assms(3) never show False by blast
qed

text \<open>A thread that can step again and again as long as it does not step, does.\<close>

lemma fair_next:
  assumes "fair_run X act c" and "P (c n)"
    and "\<And>m. P (c m) \<Longrightarrow> act m \<noteq> Worker i \<Longrightarrow> P (c (Suc m))"
    and "\<And>m. P (c m) \<Longrightarrow> \<exists>k\<ge>m. P (c k) \<longrightarrow> (\<exists>c'. staged_step X (Worker i) (c k) c')"
  obtains m where "n \<le> m" "P (c m)" "act m = Worker i"
proof (rule next_act [where P = P and c = c and n = n and act = act and a = "Worker i"])
  assume keep: "\<And>m. n \<le> m \<Longrightarrow> P (c m)"
  have "\<exists>k\<ge>m. \<exists>c'. staged_step X (Worker i) (c k) c'" for m
  proof -
    obtain k where "max n m \<le> k" "P (c k) \<longrightarrow> (\<exists>c'. staged_step X (Worker i) (c k) c')"
      using assms(4) [OF keep [of "max n m"]] by auto
    then show ?thesis using keep [of k] by auto
  qed
  then show "\<exists>m\<ge>n. act m = Worker i"
    using assms(1) unfolding fair_run_def by blast
qed (use assms(2,3) that in blast)+

section \<open>The steps of the others\<close>

text \<open>A thread that can take no step is left as it is.\<close>

lemma untouched:
  assumes "staged_step X a (s, h) (s', h')" and "workers_ok s" and "w_pc (workers s i) \<noteq> Absent"
    and "\<And>x. a = Worker i \<Longrightarrow> \<not> worker_step no_exchange (running s) (workers s i, rtu s, counters s) x"
    and "\<And>n p. a = Worker i \<Longrightarrow> w_pc (workers s i) \<noteq> In_handle n p"
    and "\<And>w. a = Socket_returns i \<Longrightarrow> \<not> socket_step (workers s i) w"
  shows "workers s' i = workers s i"
  using assms(1)
proof cases
  case other
  show ?thesis
    using other(2)
  proof cases
    case (worker j w t st)
    then have "j \<noteq> i" using assms(4) by blast
    then show ?thesis using worker by simp
  next
    case (socket j w)
    then have "j \<noteq> i" using assms(6) by blast
    then show ?thesis using socket by simp
  next
    case main
    have "accepted s \<noteq> i" using assms(2,3) by (auto simp: workers_ok_def)
    then show ?thesis using main by (auto elim!: main_stepE)
  qed (use quiet_step [OF other(2)] in auto)
next
  case (unlock p ok rsp j n req)
  then show ?thesis using assms(5) by (cases "j = i") auto
qed simp_all

text \<open>Where a thread waits for nothing but its turn.\<close>

fun on_its_own :: "worker_pc \<Rightarrow> bool" where
  "on_its_own At_decode = True"
| "on_its_own (In_handle n p) = True"
| "on_its_own (At_send n out k) = (\<not> k < length out)"
| "on_its_own _ = False"

lemma others_keep:
  assumes "staged_step X a (s, h) (s', h')" and "a \<noteq> Worker i" and "on_its_own (w_pc (workers s i))" and "workers_ok s"
  shows "workers s' i = workers s i"
  by (rule untouched [OF assms(1,4)]) (use assms(2,3) in \<open>auto elim: socket_stepE\<close>)

lemma others_keep_call:
  assumes "staged_step X a (s, Some (j, p)) (s', h')" and "a \<noteq> Worker j"
  shows "h' = Some (j, p) \<and> rtu s' = rtu s"
  using assms(1) by cases (use assms(2) no_exchange_rtu in auto)

section \<open>Every thread goes on\<close>

context staged_transport
begin

text \<open>The holder of the mutex comes to the end of its call and unlocks.\<close>

lemma holder_answers:
  assumes "fair_run X act c" and "staged_reach X t0 (c 0)" and "inv t0"
    and "c n = (s, Some (j, p))" and "w_pc (workers s j) = In_handle k (Counted req)"
  shows "\<exists>m\<ge>n. \<exists>ok r. snd (c m) = None \<and>
    workers (fst (c m)) j = (workers s j)\<lparr>w_pc := In_handle k (Answered req ok r)\<rparr>"
  using assms(4,5)
proof (induction "(p, rtu s)" arbitrary: n s p rule: wf_induct_rule [OF wf_closer])
  case (1 s p)
  note reach = fair_run_reach [OF assms(1,2)]
  have ok: "workers_ok (fst (c m))" "holder_ok (c m)" for m
    using staged_reach_ok [OF reach [of m]] by (auto simp: staged_ok_def split_beta)
  have pdu: "pdu req \<noteq> []"
    using ok(2) [of n] 1(2,3) by (auto simp: holder_ok_def)
  define P where "P = (\<lambda>d :: 't process \<times> (nat \<times> 'p) option.
    snd d = Some (j, p) \<and> rtu (fst d) = rtu s \<and> workers (fst d) j = workers s j)"
  have stable: "P (c (Suc m))" if P: "P (c m)" "act m \<noteq> Worker j" for m
  proof -
    obtain s1 s2 h2 where c: "c m = (s1, Some (j, p))" "c (Suc m) = (s2, h2)"
      using P(1) by (cases "c m"; cases "c (Suc m)") (auto simp: P_def)
    have step: "staged_step X (act m) (s1, Some (j, p)) (s2, h2)"
      using fair_run_step [OF assms(1), of m] c by simp
    show ?thesis
      using others_keep_call [OF step P(2)] others_keep [OF step P(2)] ok(1) [of m] P(1) c 1(3) by (simp add: P_def)
  qed
  have able: "\<exists>k\<ge>m. P (c k) \<longrightarrow> (\<exists>c'. staged_step X (Worker j) (c k) c')" if P: "P (c m)" for m
  proof -
    obtain s1 where c: "c m = (s1, Some (j, p))"
      using P by (cases "c m") (auto simp: P_def)
    have "\<exists>c'. staged_step X (Worker j) (c m) c'"
      using holder_can_step [of t0 s1 j p] reach [of m] assms(3) c fair_run_alive [OF assms(1) c] by simp
    then show ?thesis by blast
  qed
  have "P (c n)" using 1(2) by (simp add: P_def)
  then obtain m where m: "n \<le> m" "P (c m)" "act m = Worker j"
    using fair_next [where P = P, OF assms(1) _ stable able] by metis
  obtain s1 s2 h2 where c: "c m = (s1, Some (j, p))" "c (Suc m) = (s2, h2)"
    using m(2) by (cases "c m"; cases "c (Suc m)") (auto simp: P_def)
  have same: "rtu s1 = rtu s" "workers s1 j = workers s j"
    using m(2) c(1) by (simp_all add: P_def)
  have "staged_step X (Worker j) (s1, Some (j, p)) (s2, h2)"
    using fair_run_step [OF assms(1), of m] c m(3) by simp
  then show ?case
  proof cases
    case other
    from other(2) have "pdu req = []"
    proof cases
      case (worker w t st)
      then show ?thesis using no_exchange_worker(2) same(2) 1(3) by metis
    qed
    with pdu show ?thesis by simp
  next
    case (stage p' t)
    have "((p', t), (p, rtu s)) \<in> closer"
      using remaining_advance [OF stage(3)] call_returns [of t0 s1 j p] reach [of m] c(1) assms(3) same(1) by simp
    with 1(1) [of p' s2 "Suc m"] c(2) stage 1(3) same obtain q where "Suc m \<le> q"
      "\<exists>ok r. snd (c q) = None \<and> workers (fst (c q)) j = (workers s j)\<lparr>w_pc := In_handle k (Answered req ok r)\<rparr>"
      by auto
    with m(1) show ?thesis by (intro exI [of _ q]) simp
  next
    case (unlock ok' rsp k' req')
    then show ?thesis
      using m(1) c(2) same(2) 1(3) by (intro exI [of _ "Suc m"]) auto
  qed
qed

lemma mutex_free_again:
  assumes "fair_run X act c" and "staged_reach X t0 (c 0)" and "inv t0"
  shows "\<exists>m\<ge>n. snd (c m) = None"
proof (cases "snd (c n)")
  case (Some ip)
  then obtain s j p where c: "c n = (s, Some (j, p))"
    by (cases "c n"; cases ip) auto
  then obtain k req where "w_pc (workers s j) = In_handle k (Counted req)"
    using counted_holder staged_reach_ok [OF fair_run_reach [OF assms(1,2), of n]] by (fastforce simp: staged_ok_def)
  from holder_answers [OF assms c this] show ?thesis by blast
qed auto

text \<open>A thread that waits for the mutex gets it.\<close>

lemma waiter_locks:
  assumes "fair_run X act c" and "staged_reach X t0 (c 0)" and "inv t0"
    and "workers (fst (c n)) i = w" and "w_pc w = In_handle k (Counted req)"
  shows "\<exists>m\<ge>n. \<exists>p. snd (c m) = Some (i, p) \<and> workers (fst (c m)) i = w"
proof (cases "\<exists>p. snd (c n) = Some (i, p)")
  case False
  note reach = fair_run_reach [OF assms(1,2)]
  have ok: "workers_ok (fst (c m))" for m
    using staged_reach_ok [OF reach [of m]] by (auto simp: staged_ok_def split_beta)
  then have "worker_ok w"
    using assms(4) unfolding workers_ok_def by blast
  then obtain adu where adu: "tcp_to_rtu req = Some adu" "wf_frame req"
    using counted_adu assms(5) by metis
  then have pdu: "pdu req \<noteq> []"
    by (auto simp: wf_frame_def mbap_consts)
  define P where "P = (\<lambda>d :: 't process \<times> (nat \<times> 'p) option.
    (\<forall>p. snd d \<noteq> Some (i, p)) \<and> workers (fst d) i = w)"
  have stable: "P (c (Suc m))" if P: "P (c m)" "act m \<noteq> Worker i" for m
  proof -
    obtain s1 h1 s2 h2 where c: "c m = (s1, h1)" "c (Suc m) = (s2, h2)"
      by (cases "c m"; cases "c (Suc m)") auto
    have step: "staged_step X (act m) (s1, h1) (s2, h2)"
      using fair_run_step [OF assms(1), of m] c by simp
    have "workers s2 i = w"
      using others_keep [OF step P(2)] ok [of m] P(1) c assms(5) by (simp add: P_def)
    moreover have "h2 \<noteq> Some (i, p)" for p
      using step by cases (use P c in \<open>auto simp: P_def\<close>)
    ultimately show ?thesis using c by (simp add: P_def)
  qed
  have able: "\<exists>m'\<ge>m. P (c m') \<longrightarrow> (\<exists>c'. staged_step X (Worker i) (c m') c')" for m
  proof -
    obtain m' s1 where m': "m \<le> m'" "c m' = (s1, None)"
      using mutex_free_again [OF assms(1-3), of m] by (metis prod.collapse)
    then show ?thesis
      using fair_run_alive [OF assms(1) m'(2)] staged_step.lock [of s1 i k req adu X] adu(1) pdu assms(5) by (intro exI [of _ m']) (auto simp: P_def)
  qed
  have "P (c n)" using False assms(4) by (simp add: P_def)
  then obtain m where m: "n \<le> m" "P (c m)" "act m = Worker i"
    using fair_next [where P = P, OF assms(1) _ stable able] by metis
  obtain s1 h1 s2 h2 where c: "c m = (s1, h1)" "c (Suc m) = (s2, h2)"
    by (cases "c m"; cases "c (Suc m)") auto
  have "staged_step X (Worker i) (s1, h1) (s2, h2)"
    using fair_run_step [OF assms(1), of m] c m(3) by simp
  then have "(\<exists>p. h2 = Some (i, p)) \<and> workers s2 i = w"
  proof cases
    case other
    from other(2) have "pdu req = []"
    proof cases
      case (worker w' t st)
      then show ?thesis using no_exchange_worker(2) [of "running s1" "workers s1 i"] m(2) c(1) assms(5)
        by (fastforce simp: P_def)
    qed
    with pdu show ?thesis by simp
  qed (use m(2) c in \<open>auto simp: P_def\<close>)
  then show ?thesis
    using m(1) c(2) by (intro exI [of _ "Suc m"]) auto
qed (use assms(4) in auto)

text \<open>Outside the exchange a thread needs nothing but its turn.\<close>

lemma turn_comes:
  assumes "fair_run X act c" and "staged_reach X t0 (c 0)" and "workers (fst (c n)) i = w"
    and "on_its_own (w_pc w)" and "\<And>k req. w_pc w \<noteq> In_handle k (Counted req)"
    and "\<And>run (t :: 't) st. \<exists>w' t' st'. worker_step no_exchange run (w, t, st) (w', t', st')"
  shows "\<exists>m\<ge>n. \<exists>run (t :: 't) st t' st'. worker_step no_exchange run (w, t, st) (workers (fst (c (Suc m))) i, t', st')"
proof -
  note reach = fair_run_reach [OF assms(1,2)]
  have ok: "workers_ok (fst (c m))" "holder_ok (c m)" for m
    using staged_reach_ok [OF reach [of m]] by (auto simp: staged_ok_def split_beta)
  define P where "P = (\<lambda>d :: 't process \<times> (nat \<times> 'p) option. workers (fst d) i = w)"
  have stable: "P (c (Suc m))" if P: "P (c m)" "act m \<noteq> Worker i" for m
    using others_keep [of X "act m" "fst (c m)" "snd (c m)" "fst (c (Suc m))" "snd (c (Suc m))" i] P
      fair_run_step [OF assms(1), of m] ok(1) [of m] assms(4) by (simp add: P_def)
  have able: "\<exists>m'\<ge>m. P (c m') \<longrightarrow> (\<exists>c'. staged_step X (Worker i) (c m') c')" for m
  proof -
    obtain s h where c: "c m = (s, h)" by (cases "c m") auto
    show ?thesis
      using assms(6) [of "running s" "rtu s" "counters s"] staged_step.other [OF process_step.worker [OF _ fair_run_alive [OF assms(1) c]]] c
      by (intro exI [of _ m]) (fastforce simp: P_def)
  qed
  have "P (c n)" using assms(3) by (simp add: P_def)
  then obtain m where m: "n \<le> m" "P (c m)" "act m = Worker i"
    using fair_next [where P = P, OF assms(1) _ stable able] by metis
  obtain s1 h1 s2 h2 where c: "c m = (s1, h1)" "c (Suc m) = (s2, h2)"
    by (cases "c m"; cases "c (Suc m)") auto
  have pc: "workers s1 i = w" using m(2) c(1) by (simp add: P_def)
  have "staged_step X (Worker i) (s1, h1) (s2, h2)"
    using fair_run_step [OF assms(1), of m] c m(3) by simp
  then have "\<exists>run (t :: 't) st t' st'. worker_step no_exchange run (w, t, st) (workers s2 i, t', st')"
  proof cases
    case other
    from other(2) show ?thesis
    proof cases
      case (worker w' t st)
      then have "workers s2 i = w'" by simp
      then show ?thesis using worker(2) unfolding pc by blast
    qed
  next
    case lock
    then show ?thesis using assms(5) pc by simp
  next
    case stage
    then show ?thesis using ok(2) [of m] c(1) assms(5) pc by (auto simp: holder_ok_def)
  next
    case unlock
    then show ?thesis using assms(5) pc by simp
  qed
  then have "\<exists>run (t :: 't) st t' st'. worker_step no_exchange run (w, t, st) (workers (fst (c (Suc m))) i, t', st')"
    by (simp only: c(2) fst_conv)
  with m(1) show ?thesis by blast
qed

text \<open>From the complete request in the buffer to the response.\<close>

lemma decoded_counts:
  assumes "fair_run X act c" and "staged_reach X t0 (c 0)" and "workers (fst (c n)) i = w"
    and "w_pc w = At_decode" and "parse_adu (w_buf w) = Got req rest"
  shows "\<exists>m\<ge>n. workers (fst (c m)) i = w\<lparr>w_pc := In_handle (length (encode req)) (Counted req)\<rparr>"
proof -
  have dec: "decode (w_buf w) (length (w_buf w)) = Some \<lparr>frame = Some req, error = NeedMoreData, consumed = length (encode req)\<rparr>"
    using decode_Got [OF assms(5)] assms(5) by (simp add: parse_Got_iff)
  have "\<exists>w' t' st'. worker_step no_exchange run (w, t, st) (w', t', st')" for run and t :: 't and st
    using worker_step.call [OF assms(4) dec, of req no_exchange run t st] by auto
  with turn_comes [OF assms(1-3)] assms(4) obtain m run t st t' st' where "n \<le> m"
    "worker_step (no_exchange :: 't transact) run (w, t, st) (workers (fst (c (Suc m))) i, t', st')"
    by fastforce
  moreover from this(2) have "workers (fst (c (Suc m))) i = w\<lparr>w_pc := In_handle (length (encode req)) (Counted req)\<rparr>"
    by (cases rule: worker_step_cases) (use assms(4) dec in auto)
  ultimately show ?thesis by (intro exI [of _ "Suc m"]) simp
qed

lemma answered_responds:
  assumes "fair_run X act c" and "staged_reach X t0 (c 0)" and "workers (fst (c n)) i = w"
    and "w_pc w = In_handle k (Answered req ok r)"
  shows "\<exists>m\<ge>n. \<exists>f. workers (fst (c m)) i =
    w\<lparr>w_pc := At_send k (encode f) 0, w_answers := w_answers w @ [(req, f)]\<rparr>"
proof -
  have "\<exists>w' t' st'. worker_step no_exchange run (w, t, st) (w', t', st')" for run and t :: 't and st
    using gw_finish_uniform [of req ok r] worker_step.finish [OF assms(4)] by metis
  with turn_comes [OF assms(1-3)] assms(4) obtain m run t st t' st' where "n \<le> m"
    "worker_step (no_exchange :: 't transact) run (w, t, st) (workers (fst (c (Suc m))) i, t', st')"
    by fastforce
  moreover from this(2) obtain f where "workers (fst (c (Suc m))) i =
      w\<lparr>w_pc := At_send k (encode f) 0, w_answers := w_answers w @ [(req, f)]\<rparr>"
    by (cases rule: worker_step_cases) (use assms(4) in auto)
  ultimately show ?thesis by (intro exI [of _ "Suc m"]) auto
qed

lemma request_answered:
  assumes "fair_run X act c" and "staged_reach X t0 (c 0)" and "inv t0"
    and "workers (fst (c n)) i = w" and "w_pc w = At_decode" and "parse_adu (w_buf w) = Got req rest"
  shows "\<exists>m\<ge>n. \<exists>f. transaction_id f = transaction_id req \<and> workers (fst (c m)) i =
    w\<lparr>w_pc := At_send (length (encode req)) (encode f) 0, w_answers := w_answers w @ [(req, f)]\<rparr>"
proof -
  let ?k = "length (encode req)"
  obtain a where a: "n \<le> a" "workers (fst (c a)) i = w\<lparr>w_pc := In_handle ?k (Counted req)\<rparr>"
    using decoded_counts [OF assms(1,2,4-6)] by blast
  obtain b s p where b: "a \<le> b" "c b = (s, Some (i, p))" "workers s i = w\<lparr>w_pc := In_handle ?k (Counted req)\<rparr>"
    using waiter_locks [where k = ?k and req = req, OF assms(1-3) a(2)] by (auto simp: prod_eq_iff)
  obtain d ok r where d: "b \<le> d" "workers (fst (c d)) i = w\<lparr>w_pc := In_handle ?k (Answered req ok r)\<rparr>"
    using holder_answers [where k = ?k and req = req, OF assms(1-3) b(2)] b(3) by auto
  obtain m f where m: "d \<le> m" "workers (fst (c m)) i =
      w\<lparr>w_pc := At_send ?k (encode f) 0, w_answers := w_answers w @ [(req, f)]\<rparr>"
    using answered_responds [where k = ?k and req = req and ok = ok and r = r, OF assms(1,2) d(2)] by auto
  obtain t where "process_reach transact t0 (settled (fst (c m)) t)"
    using staged_reach_settled [OF fair_run_reach [OF assms(1,2), of m] assms(3)] by auto
  from worker_transaction_ids [OF this assms(3), of i] m(2) have "transaction_id f = transaction_id req"
    by simp
  with a(1) b(1) d(1) m show ?thesis
    by (intro exI [of _ m] exI [of _ f] conjI) simp_all
qed

end

section \<open>Up to the bytes on the wire\<close>

text \<open>
  A master that keeps reading: a call of \<open>send\<close> to it returns, and does not fail. Nothing is asked
  of the other masters.
\<close>

definition reads_on :: "nat \<Rightarrow> (nat \<Rightarrow> actor) \<Rightarrow> (nat \<Rightarrow> 't process \<times> (nat \<times> 'p) option) \<Rightarrow> bool" where
  "reads_on i act c \<longleftrightarrow> (\<forall>n. w_pc (workers (fst (c n)) i) \<noteq> Returned Send_failed) \<and>
     (\<forall>n k out j. w_pc (workers (fst (c n)) i) = At_send k out j \<longrightarrow> j < length out \<longrightarrow>
        (\<exists>m\<ge>n. act m = Socket_returns i))"

text \<open>In \<open>send\<close> a thread waits for the return of the call, and for nothing else.\<close>

lemma send_stays:
  assumes "staged_step X a (s, h) (s', h')" and "a \<noteq> Socket_returns i"
    and "w_pc (workers s i) = At_send k out j" and "j < length out" and "workers_ok s"
  shows "workers s' i = workers s i"
  by (rule untouched [OF assms(1,5)]) (use assms(2-4) in \<open>auto elim: worker_step.cases\<close>)

lemma returned_stays:
  assumes "staged_step X a (s, h) (s', h')" and "w_pc (workers s i) = Returned why" and "workers_ok s"
  shows "workers s' i = workers s i"
  by (rule untouched [OF assms(1,3)]) (use assms(2) in \<open>auto elim: worker_step.cases socket_stepE\<close>)

lemma send_completes:
  assumes "fair_run X act c" and "staged_reach X t0 (c 0)" and "reads_on i act c"
    and "workers (fst (c n)) i = w" and "w_pc w = At_send k out j"
  shows "\<exists>m\<ge>n. \<exists>j' os. workers (fst (c m)) i = w\<lparr>w_pc := At_send k out j', w_out := os\<rparr> \<and> \<not> j' < length out"
  using assms(4,5)
proof (induction "length out - j" arbitrary: n w j rule: less_induct)
  case less
  have ok: "workers_ok (fst (c m))" for m
    using staged_reach_ok [OF fair_run_reach [OF assms(1,2), of m]] by (auto simp: staged_ok_def split_beta)
  show ?case
  proof (cases "j < length out")
    case True
    let ?P = "\<lambda>d. workers (fst d) i = w"
    have "?P (c (Suc m))" if P: "?P (c m)" "act m \<noteq> Socket_returns i" for m
      using send_stays [of X "act m" "fst (c m)" "snd (c m)" "fst (c (Suc m))" "snd (c (Suc m))" i k out j]
        P fair_run_step [OF assms(1), of m] ok [of m] less(3) True by simp
    moreover have "\<exists>m\<ge>n. act m = Socket_returns i"
      using assms(3) less(2,3) True unfolding reads_on_def by blast
    ultimately obtain m where m: "n \<le> m" "workers (fst (c m)) i = w" "act m = Socket_returns i"
      using next_act [where P = ?P and c = c and n = n and act = act and a = "Socket_returns i"] less(2) by blast
    obtain s1 h1 s2 h2 where c: "c m = (s1, h1)" "c (Suc m) = (s2, h2)"
      by (cases "c m"; cases "c (Suc m)") auto
    have "staged_step X (Socket_returns i) (s1, h1) (s2, h2)"
      using fair_run_step [OF assms(1), of m] c m(3) by simp
    then have "socket_step w (workers s2 i)"
    proof cases
      case other
      from other(2) show ?thesis
        by cases (use m(2) c(1) in auto)
    qed
    moreover have "w_pc (workers s2 i) \<noteq> Returned Send_failed"
      using assms(3) c(2) unfolding reads_on_def by (metis fst_conv)
    ultimately obtain l where l: "0 < l" "workers (fst (c (Suc m))) i =
        w\<lparr>w_pc := At_send k out (j + l), w_out := w_out w @ take l (drop j out)\<rparr>"
      by (cases rule: socket_step_cases) (use less(3) c(2) in auto)
    then have "length out - (j + l) < length out - j" using True by simp
    from less(1) [OF this l(2)] m(1) show ?thesis
      by simp (meson Suc_leD le_trans)
  next
    case False
    have "w = w\<lparr>w_pc := At_send k out j, w_out := w_out w\<rparr>" using less(3) by (cases w) simp
    with less(2) False show ?thesis by blast
  qed
qed

context staged_transport
begin

text \<open>The thread goes round its loop until the buffer holds no complete request.\<close>

lemma buffer_served:
  assumes "fair_run X act c" and "staged_reach X t0 (c 0)" and "inv t0" and "reads_on i act c"
    and "w_pc (workers (fst (c n)) i) = At_decode"
  shows "\<exists>m\<ge>n. w_in (workers (fst (c m)) i) = w_in (workers (fst (c n)) i) \<and>
    w_pc (workers (fst (c m)) i) \<in> {At_loop, Returned Framing_error}"
  using assms(5)
proof (induction "length (w_buf (workers (fst (c n)) i))" arbitrary: n rule: less_induct)
  case less
  let ?w = "workers (fst (c n)) i"
  have turn: "\<exists>m\<ge>n. \<exists>run (t :: 't) st t' st'. worker_step no_exchange run (?w, t, st) (workers (fst (c (Suc m))) i, t', st')"
    if "\<And>run (t :: 't) st. \<exists>w' t' st'. worker_step no_exchange run (?w, t, st) (w', t', st')"
    using turn_comes [OF assms(1,2) refl, of n i] less(2) that by simp
  show ?case
  proof (cases "parse_adu (w_buf ?w)")
    case More
    note dec = decode_More [OF this]
    have "\<exists>w' t' st'. worker_step no_exchange run (?w, t, st) (w', t', st')" for run and t :: 't and st
      using worker_step.drained [OF less(2) dec, of no_exchange run t st] by (simp only: decode_result.simps simp_thms) blast
    from turn [OF this] obtain m run t st t' st' where m: "n \<le> m"
      "worker_step (no_exchange :: 't transact) run (?w, t, st) (workers (fst (c (Suc m))) i, t', st')" by blast
    from m(2) have "workers (fst (c (Suc m))) i = ?w\<lparr>w_pc := At_loop\<rparr>"
      by (cases rule: worker_step_cases) (use less(2) dec in auto)
    with m(1) show ?thesis by (intro exI [of _ "Suc m"]) simp
  next
    case (Bad e)
    note dec = decode_Bad [OF this]
    have "\<exists>w' t' st'. worker_step no_exchange run (?w, t, st) (w', t', st')" for run and t :: 't and st
      using worker_step.framing [OF less(2) dec, of no_exchange run t st] parse_Bad_error [OF Bad]
      by (simp only: decode_result.simps simp_thms) blast
    from turn [OF this] obtain m run t st t' st' where m: "n \<le> m"
      "worker_step (no_exchange :: 't transact) run (?w, t, st) (workers (fst (c (Suc m))) i, t', st')" by blast
    from m(2) have "workers (fst (c (Suc m))) i = ?w\<lparr>w_pc := Returned Framing_error\<rparr>"
      by (cases rule: worker_step_cases) (use less(2) dec parse_Bad_error [OF Bad] in auto)
    with m(1) show ?thesis by (intro exI [of _ "Suc m"]) simp
  next
    case (Got req rest)
    obtain a f where a: "n \<le> a" "workers (fst (c a)) i =
        ?w\<lparr>w_pc := At_send (length (encode req)) (encode f) 0, w_answers := w_answers ?w @ [(req, f)]\<rparr>"
      using request_answered [OF assms(1-3) refl less(2) Got] by blast
    obtain b j os where b: "a \<le> b" "\<not> j < length (encode f)" "workers (fst (c b)) i = ?w\<lparr>w_answers := w_answers ?w @ [(req, f)],
        w_pc := At_send (length (encode req)) (encode f) j, w_out := os\<rparr>"
      using send_completes [OF assms(1,2,4) a(2), of "length (encode req)" "encode f" 0] by auto
    let ?v = "?w\<lparr>w_answers := w_answers ?w @ [(req, f)],
        w_pc := At_send (length (encode req)) (encode f) j, w_out := os\<rparr>"
    have buf: "erase_front (length (encode req)) (w_buf ?v) = Some rest" "length rest < length (w_buf ?w)"
      using Got by (simp_all add: parse_Got_iff)
    have "\<exists>w' t' st'. worker_step no_exchange run (?v, t, st) (w', t', st')" for run and t :: 't and st
      using worker_step.sent [of ?v _ _ _ rest no_exchange run t st] b(2) buf(1) by auto
    with turn_comes [OF assms(1,2) b(3)] b(2) obtain m run t st t' st' where m: "b \<le> m"
      "worker_step (no_exchange :: 't transact) run (?v, t, st) (workers (fst (c (Suc m))) i, t', st')"
      by fastforce
    from m(2) have v: "workers (fst (c (Suc m))) i = ?v\<lparr>w_pc := At_decode, w_buf := rest\<rparr>"
      by (cases rule: worker_step_cases) (use b(2) buf(1) in auto)
    with less(1) [of "Suc m"] buf(2) obtain q where "Suc m \<le> q"
      "w_in (workers (fst (c q)) i) = w_in ?w" "w_pc (workers (fst (c q)) i) \<in> {At_loop, Returned Framing_error}"
      by auto
    with a(1) b(1) m(1) show ?thesis by (intro exI [of _ q]) simp
  qed
qed

end

section \<open>A fair run\<close>

text \<open>
  A run that ends where no thread can step by itself, and goes on with signals that are ignored,
  is fair.
\<close>

definition lives_on :: "('t, 'p) stages \<Rightarrow> 't process \<times> (nat \<times> 'p) option \<Rightarrow> 't process \<times> (nat \<times> 'p) option \<Rightarrow> bool" where
  "lives_on X c c' \<longleftrightarrow> \<not> ended (main_pc (fst c)) \<and> (\<exists>a. staged_step X a c c')"

lemma settling_run:
  assumes "(lives_on X)\<^sup>*\<^sup>* c0 c1" and "\<not> ended (main_pc (fst c1))" and "\<And>i c'. \<not> staged_step X (Worker i) c1 c'"
  obtains act c n where "fair_run X act c" "c 0 = c0" "\<And>m. n \<le> m \<Longrightarrow> c m = c1"
proof -
  from assms(1) obtain n f where f: "f 0 = c0" "f n = c1" "\<And>i. i < n \<Longrightarrow> lives_on X (f i) (f (Suc i))"
    by (auto simp: rtranclp_power relpowp_fun_conv)
  then obtain g where g: "\<And>i. i < n \<Longrightarrow> staged_step X (g i) (f i) (f (Suc i))"
    unfolding lives_on_def by metis
  let ?c = "\<lambda>m. f (min m n)" and ?act = "\<lambda>m. if m < n then g m else Signal"
  have end_at: "?c m = c1" if "n \<le> m" for m
    using that f(2) by (simp add: min_absorb2)
  have "staged_step X Signal c1 c1"
    using staged_step.other [OF process_step.signal [OF signal_step.ignored [of SIGPIPE] assms(2)], of X "snd c1"] by simp
  then have "staged_step X (?act m) (?c m) (?c (Suc m))" for m
    using g [of m] f(2) by (cases "m < n") (simp_all add: min_absorb1 min_absorb2 Suc_le_eq)
  moreover have "\<not> ended (main_pc (fst (?c m)))" for m
    using f(3) [of m] end_at [of m] assms(2) by (cases "m < n") (simp_all add: lives_on_def min_absorb1)
  moreover have "\<not> (\<forall>k. \<exists>m\<ge>k. \<exists>c'. staged_step X (Worker i) (?c m) c')" for i
    using end_at assms(3) by (metis order_refl)
  ultimately have "fair_run X ?act ?c"
    unfolding fair_run_def by blast
  then show thesis
    by (rule that [of ?act ?c n]) (use f(1) end_at in simp_all)
qed

text \<open>In a run that ends with a thread in \<open>recv\<close> all its calls of \<open>send\<close> have returned, and none failed.\<close>

lemma ends_in_recv:
  assumes "fair_run X act c" and "staged_reach X t0 (c 0)"
    and "\<And>m. n \<le> m \<Longrightarrow> w_pc (workers (fst (c m)) i) = At_recv"
  shows "reads_on i act c"
proof -
  have ok: "workers_ok (fst (c m))" for m
    using staged_reach_ok [OF fair_run_reach [OF assms(1,2), of m]] by (auto simp: staged_ok_def split_beta)
  note step = fair_run_step [OF assms(1)]
  have "w_pc (workers (fst (c m)) i) \<noteq> Returned Send_failed" for m
  proof
    assume failed: "w_pc (workers (fst (c m)) i) = Returned Send_failed"
    have "w_pc (workers (fst (c k)) i) = Returned Send_failed" if "m \<le> k" for k
      using that
    proof (induction k rule: dec_induct)
      case (step k)
      show ?case
        using returned_stays [of X "act k" "fst (c k)" "snd (c k)" "fst (c (Suc k))" "snd (c (Suc k))" i] step(3)
          fair_run_step [OF assms(1), of k] ok [of k] by simp
    qed (rule failed)
    from this [of "max m n"] assms(3) [of "max m n"] show False by simp
  qed
  moreover have "\<exists>k\<ge>m. act k = Socket_returns i"
    if send: "w_pc (workers (fst (c m)) i) = At_send b out j" "j < length out" for m b out j
  proof (rule ccontr)
    assume "\<not> ?thesis"
    then have never: "act k \<noteq> Socket_returns i" if "m \<le> k" for k using that by blast
    have "w_pc (workers (fst (c k)) i) = At_send b out j" if "m \<le> k" for k
      using that
    proof (induction k rule: dec_induct)
      case (step k)
      show ?case
        using send_stays [of X "act k" "fst (c k)" "snd (c k)" "fst (c (Suc k))" "snd (c (Suc k))" i b out j] step(3)
          never [OF step(1)] fair_run_step [OF assms(1), of k] ok [of k] send(2) by simp
    qed (rule send(1))
    from this [of "max m n"] assms(3) [of "max m n"] show False by simp
  qed
  ultimately show ?thesis
    unfolding reads_on_def by blast
qed

text \<open>One master sends a request and gets its response; then nothing more comes.\<close>

definition received_worker :: "mbap_frame \<Rightarrow> worker" where
  "received_worker q = \<lparr>w_pc = At_decode, w_buf = encode q, w_in = encode q, w_out = [], w_answers = []\<rparr>"

lemma reach_received:
  assumes "wf_frame q"
  shows "process_reach transact t0 (one_master ptr t0 (received_worker q) t0 zero_stats)"
proof -
  have "length (encode q) \<le> 1024"
    using assms by (auto simp: wf_frame_def mbap_consts)
  moreover from one_master_worker [OF reach_one_master worker_step.enter]
  have "process_reach transact t0 (one_master ptr t0 (start_worker\<lparr>w_pc := At_recv\<rparr>) t0 zero_stats)"
    by (simp add: start_worker_def idle_worker_def)
  ultimately show ?thesis
    using one_master_socket [OF _ socket_step.recv [of _ "encode q"]]
    by (fastforce simp: start_worker_def idle_worker_def received_worker_def)
qed

lemma lives_on_next:
  assumes "(lives_on X)\<^sup>*\<^sup>* c (s, h)" and "staged_step X a (s, h) c'" and "\<not> ended (main_pc s)"
  shows "(lives_on X)\<^sup>*\<^sup>* c c'"
  using assms(1) by (rule rtranclp.rtrancl_into_rtrancl) (use assms(2,3) in \<open>auto simp: lives_on_def\<close>)

lemma one_master_lives:
  assumes "(lives_on X)\<^sup>*\<^sup>* c (one_master ptr t0 w t st, None)"
  shows "worker_step no_exchange True (w, t, st) (w', t', st') \<Longrightarrow> (lives_on X)\<^sup>*\<^sup>* c (one_master ptr t0 w' t' st', None)"
    and "socket_step w w' \<Longrightarrow> (lives_on X)\<^sup>*\<^sup>* c (one_master ptr t0 w' t st, None)"
  using lives_on_next [OF assms staged_step.other [OF process_step.worker [of no_exchange _ 0 w' t' st']]]
    lives_on_next [OF assms staged_step.other [OF process_step.socket [of _ 0 w']]]
  by (simp_all add: one_master_def boot_process_def)

lemma one_master_rtu [simp]: "(one_master ptr t0 w t st)\<lparr>rtu := u\<rparr> = one_master ptr t0 w u st"
  by (simp add: one_master_def)

context staged_transport
begin

lemma stage_run_lives:
  assumes "stage_run (p, t) (p', t')" and "(lives_on X)\<^sup>*\<^sup>* c (s\<lparr>rtu := t\<rparr>, Some (i, p))" and "\<not> ended (main_pc s)"
  shows "(lives_on X)\<^sup>*\<^sup>* c (s\<lparr>rtu := t'\<rparr>, Some (i, p'))"
  using assms(1)[unfolded stage_run_def]
proof (induction "(p', t')" arbitrary: p' t' rule: rtranclp_induct)
  case base
  then show ?case using assms(2) by simp
next
  case (step d)
  then obtain q u where d: "d = (q, u)" "advance X q u = Some (p', t')"
    by (cases d) auto
  from lives_on_next [OF step(3) [OF d(1)] staged_step.stage [of _ _ _ p' t']] d(2) assms(3)
  show ?case by simp
qed

lemma one_request_lives:
  assumes "inv t0" and "wf_frame q"
  shows "\<exists>f t st. (lives_on X)\<^sup>*\<^sup>* (one_master ptr t0 (received_worker q) t0 zero_stats, None)
    (one_master ptr t0 (answered_worker q f) t st, None)"
proof -
  let ?w = "\<lambda>pc b out as. \<lparr>w_pc = pc, w_buf = b, w_in = encode q, w_out = out, w_answers = as\<rparr>"
  let ?k = "length (encode q)" and ?st = "gw_count zero_stats"
  let ?go = "(lives_on X)\<^sup>*\<^sup>* (one_master ptr t0 (received_worker q) t0 zero_stats, None)"
  have dec: "decode (encode q) ?k = Some \<lparr>frame = Some q, error = NeedMoreData, consumed = ?k\<rparr>"
    using decode_Got [OF parse_encode [OF assms(2), of "[]"]] by simp
  have pdu: "pdu q \<noteq> []" using assms(2) by (auto simp: wf_frame_def mbap_consts)
  obtain adu where adu: "tcp_to_rtu q = Some adu"
    using assms(2) by (auto simp: wf_frame_def mbap_consts tcp_to_rtu_eq)
  obtain ok r t p where run: "stage_run (begins X t0 adu [], t0) (p, t)" "returns X p = Some (ok, r)"
    using stages_compute [OF assms(1), of adu "[]"] by blast
  obtain f st where fin: "gw_finish ?st q ok r = Some (f, st)"
    using gw_finish_uniform [of q ok r] by blast
  let ?h = "\<lambda>t. one_master ptr t0 (?w (In_handle ?k (Counted q)) (encode q) [] []) t ?st"
  have "?go (one_master ptr t0 (received_worker q) t0 zero_stats, None)" by simp
  from one_master_lives(1) [OF this worker_step.call [of _ _ q]] dec
  have "?go (?h t0, None)" by (simp add: received_worker_def)
  from lives_on_next [OF this staged_step.lock [of _ 0 ?k q adu]] adu pdu
  have "?go (?h t0, Some (0, begins X t0 adu []))" by simp
  then have "?go ((?h t0)\<lparr>rtu := t0\<rparr>, Some (0, begins X t0 adu []))" by simp
  from stage_run_lives [OF run(1) this] have "?go (?h t, Some (0, p))" by simp
  from lives_on_next [OF this staged_step.unlock [OF run(2), of _ 0 ?k q]]
  have "?go (one_master ptr t0 (?w (In_handle ?k (Answered q ok r)) (encode q) [] []) t ?st, None)"
    by (simp add: one_master_def boot_process_def)
  from one_master_lives(1) [OF this worker_step.finish] fin
  have "?go (one_master ptr t0 (?w (At_send ?k (encode f) 0) (encode q) [] [(q, f)]) t st, None)" by simp
  from one_master_lives(2) [OF this socket_step.send [of _ _ "encode f" 0 "length (encode f)"]]
  have "?go (one_master ptr t0 (?w (At_send ?k (encode f) (length (encode f))) (encode q) (encode f) [(q, f)]) t st, None)" by simp
  from one_master_lives(1) [OF this worker_step.sent [of _ _ _ _ "[]"]] erase_encode [of q "[]"]
  have "?go (one_master ptr t0 (?w At_decode [] (encode f) [(q, f)]) t st, None)" by simp
  from one_master_lives(1) [OF this worker_step.drained] decode_More [OF parse_Nil]
  have "?go (one_master ptr t0 (?w At_loop [] (encode f) [(q, f)]) t st, None)" by simp
  from one_master_lives(1) [OF this worker_step.enter]
  have "?go (one_master ptr t0 (answered_worker q f) t st, None)" by (simp add: answered_worker_def)
  then show ?thesis by blast
qed

lemma fair_run_exists:
  assumes "inv t0" and "wf_frame q"
  obtains act c where "fair_run X act c" "staged_reach X t0 (c 0)" "reads_on 0 act c"
    "workers (fst (c 0)) 0 = received_worker q"
proof -
  obtain f t st where path: "(lives_on X)\<^sup>*\<^sup>* (one_master None t0 (received_worker q) t0 zero_stats, None)
    (one_master None t0 (answered_worker q f) t st, None)"
    using one_request_lives [OF assms] by blast
  have still: "\<not> staged_step X (Worker i) (one_master None t0 (answered_worker q f) t st, None) c'" for i c'
  proof
    assume "staged_step X (Worker i) (one_master None t0 (answered_worker q f) t st, None) c'"
    then show False
    proof cases
      case (other s')
      from other(2) show False
        by cases (auto simp: answered_worker_def idle_worker_def elim: worker_step.cases split: if_splits)
    qed (auto simp: answered_worker_def idle_worker_def split: if_splits)
  qed
  obtain act c n where run: "fair_run X act c" "c 0 = (one_master None t0 (received_worker q) t0 zero_stats, None)"
    "\<And>m. n \<le> m \<Longrightarrow> c m = (one_master None t0 (answered_worker q f) t st, None)"
    by (rule settling_run [OF path _ still]) (simp, rule that)
  have reach: "staged_reach X t0 (c 0)"
    unfolding run(2) by (rule process_reach_staged [OF reach_received [OF assms(2)] assms(1)])
  have "reads_on 0 act c"
    by (rule ends_in_recv [OF run(1) reach, of n]) (simp add: run(3) answered_worker_def)
  from that [OF run(1) reach this] run(2) show thesis by simp
qed

end

section \<open>Properties\<close>



text \<open>C11: A master that keeps reading is served. In every fair run, a master whose \<open>send\<close> calls return and do
  not fail receives, for the bytes that have arrived from it so far, exactly one response to each
  complete request in them, in order and with its transaction id, before its thread waits for more bytes
  or closes the connection for a framing error. The other masters may stop reading, stay
  silent or disconnect.\<close>

theorem reading_master_is_served:
  assumes "staged_transport transact legal X remaining closer" and "legal t0"
    and "fair_run X act c" and "staged_reach X t0 (c 0)" and "reads_on i act c"
    and "w_pc (workers (fst (c n)) i) = At_decode"
  shows "\<exists>m\<ge>n. \<exists>qs fs rest. w_in (workers (fst (c n)) i) = wire qs @ rest \<and> list_all wf_frame qs \<and>
    (parse_adu rest = More \<or> (\<exists>e. parse_adu rest = Bad e)) \<and>
    w_answers (workers (fst (c m)) i) = zip qs fs \<and> map transaction_id fs = map transaction_id qs \<and>
    w_out (workers (fst (c m)) i) = wire fs \<and> w_pc (workers (fst (c m)) i) \<in> {At_loop, Returned Framing_error}"
proof -
  obtain m where m: "n \<le> m" "w_in (workers (fst (c m)) i) = w_in (workers (fst (c n)) i)"
    "w_pc (workers (fst (c m)) i) \<in> {At_loop, Returned Framing_error}"
    using staged_transport.buffer_served [OF assms(1,3,4,2,5,6)] by blast
  let ?w = "workers (fst (c m)) i"
  note reach = fair_run_reach [OF assms(3,4), of m]
  have "worker_ok ?w"
    using staged_reach_ok [OF reach] by (auto simp: staged_ok_def workers_ok_def split_beta)
  then obtain rest where w: "w_in ?w = wire (requests_of ?w) @ rest" "list_all wf_frame (requests_of ?w)"
    "parse_adu rest = More \<or> (\<exists>e. parse_adu rest = Bad e)" "w_out ?w = wire (responses_of ?w)"
    using m(3) by (auto simp: worker_ok_def)
  obtain t where "process_reach transact t0 (settled (fst (c m)) t)"
    using staged_transport.staged_reach_settled [OF assms(1) reach assms(2)] by auto
  from rtu_transport.worker_transaction_ids [OF staged_transport.axioms(1) [OF assms(1)] this assms(2), of i]
  have "map transaction_id (responses_of ?w) = map transaction_id (requests_of ?w)" by simp
  with m w show ?thesis
    by - (rule exI [of _ m], rule conjI, simp, rule exI [of _ "requests_of ?w"], rule exI [of _ "responses_of ?w"],
      rule exI [of _ rest], simp add: zip_map_fst_snd)
qed

theorem reading_master_is_served_witness:
  "\<exists>act c m fs. fair_run (in_process_stages (\<lambda>_. 0)) act c \<and> staged_reach (in_process_stages (\<lambda>_. 0)) demo_bus (c 0) \<and>
    reads_on 0 act c \<and> w_in (workers (fst (c 0)) 0) = encode demo_request \<and> w_out (workers (fst (c m)) 0) = wire fs \<and>
    w_pc (workers (fst (c m)) 0) \<in> {At_loop, Returned Framing_error}"
proof -
  let ?X = "in_process_stages (\<lambda>_. 0)"
  obtain act and c :: "nat \<Rightarrow> in_process process \<times> (nat \<times> poll_pc) option" where run: "fair_run ?X act c"
    "staged_reach ?X demo_bus (c 0)" "reads_on 0 act c" "workers (fst (c 0)) 0 = received_worker demo_request"
    using inproc_stages.fair_run_exists [OF demo_bus_ok(1) demo_request_ok(3)] by metis
  have start: "w_pc (workers (fst (c 0)) 0) = At_decode" "w_in (workers (fst (c 0)) 0) = encode demo_request"
    using run(4) by (simp_all add: received_worker_def)
  from reading_master_is_served [OF inproc_stages.staged_transport_axioms demo_bus_ok(1) run(1-3) start(1)]
  obtain m fs where "w_out (workers (fst (c m)) 0) = wire fs"
    "w_pc (workers (fst (c m)) 0) \<in> {At_loop, Returned Framing_error}" by blast
  with run(1-3) start(2) show ?thesis by blast
qed

end
