(* ===== verification/Spec2Isabelle.thy ===== *)
theory Spec2Isabelle
  imports Modbus_Crc Mbap Modbus_Slave Rtu_Transport Gateway Gateway_Bus Server Routing
    Connections Solo_Connection Process End_To_End Shutdown Serial_Rtu Config Options Startup
    Exchange_Stages Serial_Stages Staged_Process Serial_Accounts Staged_Gateway Console
    Serial_Device Serial_Timing Fair_Progress
begin

text \<open>
  The Modbus TCP/RTU gateway.

  \<^bold>\<open>The program.\<close> Masters connect over TCP. One thread per connection runs \<open>serve_client\<close>
  (\<open>src/main.cpp\<close>), which assembles the byte stream, cuts it into MBAP frames with \<open>decode\<close>
  (\<open>src/mbap.cpp\<close>), hands each frame to \<open>Gateway::handle\<close> (\<open>src/gateway.cpp\<close>) and sends the
  encoded response. \<open>handle\<close> translates the frame to RTU (unit id, PDU, CRC), performs one
  exchange on an \<open>IRtuTransport\<close> (\<open>src/rtu_transport.hpp\<close>) and translates the answer back. The
  transport is the in-process bus of slave cores (\<open>rtu-core/modbus_slave.c\<close>), a serial line
  (\<open>src/serial_rtu.hpp\<close>), or a fault injector around either. All threads share the transport,
  which a mutex serialises, and the atomic counters. Command line and configuration file
  (\<open>src/config.hpp\<close>) choose the transport and its settings.

  \<^bold>\<open>The theories.\<close> In the order in which they build on each other:

    \<^item> \<open>Gateway_Prelude\<close>: machine integers, big-endian bytes, checked buffer access, counted
      loops. A result \<open>Some r\<close> means that the code returns \<open>r\<close> and accessed only its buffers.
    \<^item> \<open>Modbus_Crc\<close> (\<open>rtu-core/modbus_crc.c\<close>): the CRC over a checked buffer; it is the
      bit-serial CRC-16/MODBUS, detects bursts of 16 bits, and its two uses agree.
    \<^item> \<open>Mbap\<close> (\<open>src/mbap.hpp\<close>, \<open>src/mbap.cpp\<close>): \<open>decode\<close> over a checked buffer and \<open>encode\<close>.
      The specification is the pattern-matching parser \<open>parse_adu\<close>.
    \<^item> \<open>Modbus_Slave\<close> (\<open>rtu-core/modbus_slave.h\<close>, \<open>.c\<close>): \<open>mb_slave_t\<close> as a record, the request
      handler over request and response buffers. The specification is \<open>slave_spec\<close> on byte
      lists, with \<open>serve_pdu\<close> for the function codes.
    \<^item> \<open>Rtu_Transport\<close> (\<open>src/rtu_transport.hpp\<close>): the interface as the locale
      \<open>rtu_transport\<close>, extended to \<open>addressed_transport\<close> and \<open>reliable_transport\<close>;
      \<open>InProcessRtu\<close>, which is interpreted as a reliable transport; \<open>FaultyRtu\<close>, which over a
      reliable transport is an addressed one.
    \<^item> \<open>Gateway\<close> (\<open>src/gateway.hpp\<close>, \<open>.cpp\<close>): translation and \<open>Gateway::handle\<close> over any
      transport. The specification over the in-process bus is \<open>bus_request\<close>, a map from unit
      ids to register files.
    \<^item> \<open>Gateway_Bus\<close>: what a master observes over the in-process bus, with and without
      injected faults.
    \<^item> \<open>Server\<close> (\<open>serve_client\<close>): the connection as a record with its buffer, the socket and
      what the socket has accepted. The specification cuts the whole stream (\<open>split_stream\<close>)
      and handles the frames in order (\<open>handle_all\<close>). Transport and counters are those of this one
      connection.
    \<^item> \<open>Routing\<close>: the threads of all masters. \<open>gateway_handle\<close> is cut at its accesses to
      shared state (\<open>gateway_handle_pieces\<close>), and \<open>gw_step\<close> interleaves the pieces; every
      reachable state is that of a sequential run.
    \<^item> \<open>Connections\<close> (\<open>serve_client\<close> again): the same code as a state machine, cut at its system
      calls and at its accesses to shared state. \<open>worker_step\<close> are the steps of the thread,
      \<open>socket_step\<close> the returns of \<open>recv\<close> and \<open>send\<close>; \<open>worker_ok\<close> ties the bytes received and
      sent to the requests and responses. \<open>Solo_Connection\<close> shows that the function of \<open>Server\<close>
      computes a run of this machine.
    \<^item> \<open>Process\<close> (the rest of \<open>main\<close>, \<open>on_signal\<close>, \<open>on_sigusr1\<close>): the listener with its
      failures, the accept loop, the join, the signal handlers, and all connection threads over
      one transport. \<open>process_step\<close> interleaves them, until \<open>main\<close> has returned or \<open>std::terminate\<close>
      has ended the process (\<open>ended\<close>); \<open>gateway_view\<close> maps a state to one of
      \<open>Routing\<close>, and every step to a \<open>gw_step\<close> or to none (\<open>step_refines\<close>).
    \<^item> \<open>End_To_End\<close>: what the masters of the running process read, its counters, and the state in
      which \<open>main\<close> returns. \<open>Shutdown\<close>: the hand-over of the listener to the handler, and a rank
      (\<open>process_rank\<close>) that every step decreases once \<open>g_running\<close> is false.
    \<^item> \<open>Serial_Rtu\<close> (\<open>src/serial_rtu.hpp\<close>): \<open>SerialRtu\<close> with the POSIX calls as a parameter.
      \<open>Serial_Timing\<close>: the waits an exchange asks \<open>poll\<close> for.
    \<^item> \<open>Config\<close> (\<open>src/config.hpp\<close>) and \<open>Options\<close> (the start of \<open>main\<close>): the configuration
      file, the command line and their merge. \<open>Startup\<close>: the transport \<open>main\<close> builds from the
      options, shown to satisfy the contract of \<open>Rtu_Transport\<close> in every configuration.
    \<^item> \<open>Exchange_Stages\<close>: an exchange in progress. The locale \<open>staged_transport\<close> extends
      \<open>rtu_transport\<close> by the stages of the call, each of which ends with at most one visible effect,
      and by what remains of the call at each stage (\<open>remaining\<close>); instances are the poll over
      the slaves and, over any staged transport, the fault injector. \<open>Serial_Stages\<close>: the stages of
      \<open>SerialRtu::transact\<close>, one per system call and per access to \<open>fd_\<close> or a counter.
      \<open>Staged_Gateway\<close>: those of the transport \<open>main\<close> builds. \<open>Serial_Device\<close>: a device that
      disappears and comes back, and the descriptors held at each stage.
    \<^item> \<open>Staged_Process\<close>: the process of \<open>Process\<close> with the exchanges cut into their stages under
      the mutex. \<open>settled\<close> maps each state to one of \<open>Process\<close> (\<open>exchange_is_atomic\<close>).
      \<open>Fair_Progress\<close>: infinite runs of this process. \<open>fair_run\<close> is what is asked of the scheduler and
      of the mutex, \<open>reads_on\<close> of one master; every thread then comes to the end of its work.
    \<^item> \<open>Serial_Accounts\<close>: the books of the serial line. There is one list of exchange outcomes of
      which the counters of the gateway and those of the line are counts (\<open>gateway_books\<close>,
      \<open>ledger\<close>); \<open>Staged_Gateway\<close> adds what an exchange in progress has booked.
    \<^item> \<open>Console\<close>: what \<open>main\<close> writes, character by character, as a function of the command
      line and the state of the process (\<open>main_text\<close>, from \<open>start_text\<close>, \<open>banner\<close> and \<open>loop_text\<close>), how
      the counters are read off it (\<open>fields\<close>), the address it
      listens on, and the line of a connection thread for a framing error (\<open>framing_text\<close>).

  \<^bold>\<open>What the properties show.\<close> In every state the running process can reach over the
  in-process bus, with or without injected faults, the bytes each master receives decode to the
  answers to its own requests, in order, with their ids; without faults every interleaving of
  the connections is one sequential run of the abstract bus, from the options to the bytes
  (\<open>started_gateway_is_seeded_bus\<close>). Over every transport the transaction ids match, the
  counters and the final report are exact, and shutdown completes, waiting for nothing but the
  masters; it leaves no complete request that a thread has received unanswered unless a \<open>send\<close> failed. In a fair run every
  request a thread has received is answered, and a master that keeps reading gets all its responses,
  whatever the others do. However TCP cuts the stream, a connection
  answers exactly its requests; the slave core, the codec and the CRC never leave their buffers
  and refine their specifications; a fault or a changed byte never reaches a master as data; the
  serial transport always returns, the gateway over it always responds, a lost device is retried
  after the back-off time, an exchange asks for bounded waits, and no descriptor leaks. All this stays true
  when the threads go through the stages of their exchanges one by one: the mutex makes an
  exchange one step for the masters, and the process is never stuck. At
  each of these moments the counters of the serial line and of the gateway agree up to the
  exchange in progress, and the final report shows exact numbers. A failed start says why, the
  console is only appended to, and the counters can be read off it under their names. Where the code does
  not do what its comments say, the property states what it does:
  \<open>serial_late_answer_forwarded\<close>, \<open>gateway_trusts_answer_unit\<close>, \<open>gateway_broadcast_write\<close>,
  \<open>config_file_overrides_units\<close>, \<open>missing_number_uncaught\<close>, \<open>idle_master_blocks_exit\<close>,
  \<open>finished_threads_accumulate\<close>, \<open>signalled_listener_not_closed\<close>, \<open>dump_waits_for_accept\<close>,
  \<open>connected_races_with_open\<close>, \<open>thread_failure_cuts_requests\<close>, \<open>huge_timeout_waits\<close>.

  \<^bold>\<open>Parameters.\<close> The content of the uninitialised response buffer (\<open>garbage\<close>); the random
  generator and its distributions, of which only the range of the integer distribution is
  assumed; in \<open>Server\<close> the socket's \<open>send\<close>; the POSIX calls and constants of the serial line, of
  which it is assumed that \<open>read\<close> respects its buffer and \<open>poll\<close> is not interrupted for ever
  (\<open>posix_ok\<close>), and in \<open>Serial_Device\<close> that only \<open>open\<close> and \<open>close\<close> change the open descriptors
  (\<open>tracks\<close>), in \<open>Serial_Timing\<close> that a log of the calls of \<open>poll\<close> is kept
  (\<open>logs_poll\<close>); floating-point numbers; the content of files. \<open>unsigned long\<close> has 64 bits. In
  \<open>Process\<close> the results of \<open>socket\<close>, \<open>bind\<close>, \<open>listen\<close>, \<open>accept\<close>, \<open>recv\<close> and \<open>send\<close> are free
  within their documented ranges; a listener that is shut down makes \<open>accept\<close> fail.

  \<^bold>\<open>Bounds.\<close> There is no fuel. Loops over buffers are \<open>for_upto\<close> with the bound of the code;
  the send, drain and write loops are total functions with a measure; the receive loop of the
  serial line is a partial function, shown to return under \<open>posix_ok\<close>.

  \<^bold>\<open>Not modelled.\<close> Socket options; the messages of \<open>perror\<close> and of an uncaught exception; the order of
  the lines of the connection threads among those of \<open>main\<close>; failing allocation of memory; the
  unused \<open>RtuStats\<close>. Of time, only the timeouts an exchange passes to \<open>poll\<close> are counted: how much longer
  \<open>poll\<close> takes depends on the system, and how long \<open>write\<close> and \<open>tcdrain\<close> take on the line. The counters are sequentially consistent atomics, and \<open>fd_\<close> of the
  serial line, which is none, is read as if it were one: the race is stated
  (\<open>connected_races_with_open\<close>), its undefined behaviour is not modelled.

  \<^bold>\<open>Plan.\<close> Every function of the program has its definition. What is left is outside the code: the
  behaviour of the operating system and of the devices, which are parameters here.
\<close>

end
